(* ===== verification/Djy_Prelude.thy ===== *)
theory Djy_Prelude
  imports Main "HOL-Library.Word" "HOL-Library.Monad_Syntax"
begin

text \<open>
  What the components share.

  \<^item> Circular doubly linked lists, the only container of the kernel: \<open>cdll n p xs\<close> says that
    following the pointers \<open>n\<close> (next) and \<open>p\<close> (previous) from the first element of \<open>xs\<close> visits
    exactly \<open>xs\<close> and comes back.  The lemmas give the effect of the kernel's pointer assignments
    (insert before an element, take out, replace) on the represented list.
  \<^item> \<open>ring_walk\<close>, the loop \<open>do { if(P(x)) x = x->next; else break; } while(x != head)\<close> by which
    every queue of the kernel looks for an insertion point, and \<open>walk_insert\<close>, the list insertion
    it implements.
  \<^item> \<open>gheads f xs\<close>, the first elements of the runs of equal \<open>f\<close>: the second-level list of the
    ready queue.
  \<^item> The machine integer types.
\<close>

unbundle bit_operations_syntax

type_synonym u8 = "8 word"
type_synonym u16 = "16 word"
type_synonym u32 = "32 word"

named_theorems relink \<open>introduction rules for the frame conditions of pointer updates\<close>
named_theorems knl_defs \<open>definitions of the field assignments, unfolded in symbolic execution\<close>

section \<open>Circular doubly linked lists\<close>

fun dpath :: "('a \<Rightarrow> 'a option) \<Rightarrow> ('a \<Rightarrow> 'a option) \<Rightarrow> 'a list \<Rightarrow> bool" where
  "dpath n p [] = True"
| "dpath n p [x] = True"
| "dpath n p (x # y # zs) = (n x = Some y \<and> p y = Some x \<and> dpath n p (y # zs))"

definition cdll :: "('a \<Rightarrow> 'a option) \<Rightarrow> ('a \<Rightarrow> 'a option) \<Rightarrow> 'a list \<Rightarrow> bool" where
  "cdll n p xs \<longleftrightarrow> xs \<noteq> [] \<and> distinct xs \<and> dpath n p (xs @ [hd xs])"

lemma dpath_split:
  "dpath n p (xs @ y # zs) \<longleftrightarrow> dpath n p (xs @ [y]) \<and> dpath n p (y # zs)"
  by (induction n p xs rule: dpath.induct) (auto simp: neq_Nil_conv)

lemma dpath_next_upd:
  "a \<notin> set (butlast xs) \<Longrightarrow> dpath (n(a := v)) p xs = dpath n p xs"
  by (induction n p xs rule: dpath.induct) auto

lemma dpath_prev_upd:
  "a \<notin> set (tl xs) \<Longrightarrow> dpath n (p(a := v)) xs = dpath n p xs"
  by (induction n p xs rule: dpath.induct) (auto split: if_splits)

lemma cdll_rotate: "cdll n p (xs @ ys) \<Longrightarrow> cdll n p (ys @ xs)"
proof (cases "xs = [] \<or> ys = []")
  case True
  then show "cdll n p (xs @ ys) \<Longrightarrow> cdll n p (ys @ xs)" by auto
next
  case False
  then obtain x xs' y ys' where [simp]: "xs = x # xs'" "ys = y # ys'"
    by (meson list.exhaust)
  assume "cdll n p (xs @ ys)"
  then have "dpath n p (x # xs' @ y # ys' @ [x])" and d: "distinct (xs @ ys)"
    by (auto simp: cdll_def)
  then have "dpath n p (x # xs' @ [y])" and "dpath n p (y # ys' @ [x])"
    using dpath_split [of n p "x # xs'" y "ys' @ [x]"] by auto
  then have "dpath n p (y # ys' @ x # xs' @ [y])"
    using dpath_split [of n p "y # ys'" x "xs' @ [y]"] by auto
  with d show "cdll n p (ys @ xs)" by (auto simp: cdll_def)
qed

lemma cdll_nextD: "cdll n p (x # ys) \<Longrightarrow> n x = Some (hd (ys @ [x]))"
  by (cases ys) (auto simp: cdll_def)

lemma dpath_lastD: "dpath n p (xs @ [y]) \<Longrightarrow> xs \<noteq> [] \<Longrightarrow> p y = Some (last xs)"
  by (induction n p xs rule: dpath.induct) auto

lemma cdll_prevD: "cdll n p xs \<Longrightarrow> p (hd xs) = Some (last xs)"
  by (auto simp: cdll_def dest: dpath_lastD)

lemma cdll_frame:
  "a \<notin> set xs \<Longrightarrow> cdll (n(a := v)) p xs = cdll n p xs"
  "a \<notin> set xs \<Longrightarrow> cdll n (p(a := v)) xs = cdll n p xs"
   apply (cases "xs = []"; auto simp: cdll_def dpath_next_upd butlast_append)
  apply (cases xs; auto simp: cdll_def)
   apply (subst (asm) dpath_prev_upd; auto)
  apply (subst dpath_prev_upd; auto)
  done

lemma cdll_insert_first:
  assumes "cdll n p (b # ys)" "e \<notin> set (b # ys)" "p b = Some q"
  shows "cdll (n(e := Some b, q := Some e)) (p(e := Some q, b := Some e)) (b # ys @ [e])"
    (is "cdll ?n ?p _")
proof -
  obtain zs where zs: "b # ys = zs @ [q]"
    using cdll_prevD [OF assms(1)] assms(3)
    by (metis append_butlast_last_id list.distinct(1) list.sel(1) option.inject)
  have d: "distinct (b # ys)" and "dpath n p ((b # ys) @ [b])"
    using assms(1) by (simp_all add: cdll_def)
  then have "dpath n p (zs @ [q])"
    using dpath_split [of n p zs q "[b]"] by (simp add: zs)
  moreover have "e \<notin> set (zs @ [q])" "q \<notin> set zs" "b \<notin> set ys" "e \<noteq> b"
    using assms(2) d by (simp_all flip: zs) (use d zs in auto)
  ultimately have "dpath ?n ?p (zs @ [q])"
    by (subst dpath_prev_upd, simp flip: zs, subst dpath_prev_upd, simp flip: zs,
        simp add: dpath_next_upd)
  then have "dpath ?n ?p (zs @ [q, e, b])"
    using dpath_split [of _ _ zs q "[e, b]"] \<open>e \<notin> set (zs @ [q])\<close> \<open>e \<noteq> b\<close> by simp
  then have "dpath ?n ?p ((b # ys) @ [e, b])" by (simp add: zs)
  moreover have "distinct (b # ys @ [e])" using assms(2) d by auto
  ultimately show ?thesis by (simp add: cdll_def)
qed

lemma dpath_ConsD: "dpath n p (x # xs) \<Longrightarrow> dpath n p xs"
  by (cases xs) auto

lemma cdll_remove_first:
  assumes "cdll n p (e # ys)" "ys \<noteq> []" "n e = Some nn" "p e = Some pp"
  shows "cdll (n(pp := Some nn)) (p(nn := Some pp)) ys" (is "cdll ?n ?p _")
proof -
  obtain zs where zs: "ys = zs @ [pp]"
    using cdll_prevD [OF assms(1)] assms(2,4)
    by (metis append_butlast_last_id last_ConsR list.sel(1) option.inject)
  have nn: "nn = hd ys" using cdll_nextD [OF assms(1)] assms(2,3) by simp
  then obtain vs where vs: "ys = nn # vs" using assms(2) by (cases ys) auto
  have d: "distinct (e # ys)" and "dpath n p (e # ys @ [e])"
    using assms(1) by (simp_all add: cdll_def)
  then have "dpath n p (zs @ [pp])"
    using dpath_split [of n p "e # zs" pp "[e]"] dpath_ConsD [of n p e "zs @ [pp]"]
    by (simp add: zs)
  moreover have "pp \<notin> set zs" using d zs by auto
  moreover have "nn \<notin> set vs" using d vs by auto
  ultimately have "dpath ?n ?p (zs @ [pp])"
    by (subst dpath_prev_upd, simp add: zs [symmetric] vs, simp add: dpath_next_upd)
  then have "dpath ?n ?p (zs @ [pp, nn])"
    using dpath_split [of _ _ zs pp "[nn]"] by simp
  moreover have "hd (zs @ [pp]) = nn" using nn zs by simp
  ultimately show ?thesis using d by (simp add: cdll_def zs)
qed

lemma cdll_insert_before:
  assumes "cdll n p (us @ b # vs)" "e \<notin> set (us @ b # vs)" "p b = Some q"
  shows "cdll (n(e := Some b, q := Some e)) (p(e := Some q, b := Some e)) (us @ e # b # vs)"
proof -
  have "cdll n p (b # (vs @ us))" using cdll_rotate [OF assms(1)] by simp
  from cdll_insert_first [OF this _ assms(3), of e] assms(2)
  have "cdll (n(e := Some b, q := Some e)) (p(e := Some q, b := Some e)) ((b # vs) @ (us @ [e]))"
    by auto
  from cdll_rotate [OF this] show ?thesis by simp
qed

lemma cdll_insert_last:
  assumes "cdll n p xs" "e \<notin> set xs" "p (hd xs) = Some q"
  shows "cdll (n(e := Some (hd xs), q := Some e)) (p(e := Some q, hd xs := Some e)) (xs @ [e])"
proof -
  obtain b ys where "xs = b # ys" using assms(1) by (cases xs) (auto simp: cdll_def)
  then show ?thesis using cdll_insert_first [of n p b ys e q] assms by simp
qed

lemma cdll_remove:
  assumes "cdll n p xs" "e \<in> set xs" "xs \<noteq> [e]" "n e = Some nn" "p e = Some pp"
  shows "cdll (n(pp := Some nn)) (p(nn := Some pp)) (remove1 e xs)"
proof -
  obtain us vs where xs: "xs = us @ e # vs" "e \<notin> set us"
    using assms(2) by (meson split_list_first)
  have "cdll n p (e # (vs @ us))" using cdll_rotate [of n p us "e # vs"] assms(1) xs by simp
  from cdll_remove_first [OF this _ assms(4,5)] assms(3) xs
  have "cdll (n(pp := Some nn)) (p(nn := Some pp)) (vs @ us)" by auto
  from cdll_rotate [OF this] show ?thesis using xs by (simp add: remove1_append)
qed

lemma cdll_next_prev_Some:
  assumes "cdll n p xs" "x \<in> set xs"
  shows "\<exists>y z. n x = Some y \<and> p x = Some z \<and> y \<in> set xs \<and> z \<in> set xs"
proof -
  obtain us vs where xs: "xs = us @ x # vs" using assms(2) by (meson split_list)
  then have c: "cdll n p (x # vs @ us)" using cdll_rotate [of n p us "x # vs"] assms(1) by simp
  have "hd ((vs @ us) @ [x]) \<in> set xs" by (cases vs; cases us) (auto simp: xs)
  moreover have "last (x # vs @ us) \<in> set xs" by (cases us rule: rev_cases; cases vs rule: rev_cases) (auto simp: xs)
  ultimately show ?thesis using cdll_nextD [OF c] cdll_prevD [OF c] by auto
qed

section \<open>The search loop of the queues\<close>

partial_function (option) ring_walk ::
    "('a \<Rightarrow> 'a option) \<Rightarrow> ('a \<Rightarrow> bool) \<Rightarrow> 'a \<Rightarrow> 'a \<Rightarrow> 'a option" where
  "ring_walk n P h x =
     (if P x then
        (case n x of None \<Rightarrow> None
         | Some y \<Rightarrow> (if y = h then Some y else ring_walk n P h y))
      else Some x)"

definition walk_stop :: "('a \<Rightarrow> bool) \<Rightarrow> 'a list \<Rightarrow> 'a" where
  "walk_stop P xs = (case dropWhile P xs of [] \<Rightarrow> hd xs | y # _ \<Rightarrow> y)"

lemma ring_walk_path:
  "dpath n p (ys @ [h]) \<Longrightarrow> ys \<noteq> [] \<Longrightarrow> h \<notin> set (tl ys) \<Longrightarrow>
   ring_walk n P h (hd ys) = Some (case dropWhile P ys of [] \<Rightarrow> h | y # _ \<Rightarrow> y)"
proof (induction ys)
  case (Cons x xs)
  show ?case
  proof (cases xs)
    case Nil
    with Cons.prems show ?thesis by (simp add: ring_walk.simps)
  next
    case (Cons y zs)
    with Cons.prems Cons.IH show ?thesis by (auto simp: ring_walk.simps [of n P h x])
  qed
qed simp

lemma ring_walk_cdll:
  "cdll n p xs \<Longrightarrow> ring_walk n P (hd xs) (hd xs) = Some (walk_stop P xs)"
  using ring_walk_path [of n p xs "hd xs" P]
  by (cases xs) (auto simp: cdll_def walk_stop_def)

definition walk_insert :: "('a \<Rightarrow> bool) \<Rightarrow> 'a \<Rightarrow> 'a list \<Rightarrow> 'a list" where
  "walk_insert P e xs = takeWhile P xs @ e # dropWhile P xs"

lemma cdll_walk_insert:
  assumes "cdll n p xs" "e \<notin> set xs" "p (walk_stop P xs) = Some q"
  shows "cdll (n(e := Some (walk_stop P xs), q := Some e))
     (p(e := Some q, walk_stop P xs := Some e)) (walk_insert P e xs)"
proof (cases "dropWhile P xs")
  case Nil
  have "walk_stop P xs = hd xs" unfolding walk_stop_def Nil by simp
  moreover have "walk_insert P e xs = xs @ [e]"
    unfolding walk_insert_def Nil using takeWhile_dropWhile_id [of P xs, unfolded Nil] by simp
  ultimately show ?thesis using cdll_insert_last [OF assms(1,2)] assms(3) by simp
next
  case (Cons b vs)
  then have "walk_stop P xs = b" "walk_insert P e xs = takeWhile P xs @ e # b # vs"
    and "xs = takeWhile P xs @ b # vs"
    by (auto simp: walk_stop_def walk_insert_def) (metis takeWhile_dropWhile_id)
  with cdll_insert_before [of n p "takeWhile P xs" b vs e q] assms show ?thesis by metis
qed

lemma cdll_replace:
  assumes "cdll n p (us @ e # vs)" "us @ vs \<noteq> []" "x \<notin> set (us @ e # vs)"
    and "n e = Some nn" "p e = Some pp"
  shows "cdll (n(pp := Some x, x := Some nn)) (p(x := Some pp, nn := Some x)) (us @ x # vs)"
proof -
  have ring: "cdll n p (e # (vs @ us))" using cdll_rotate [OF assms(1)] by simp
  have d: "distinct (e # vs @ us)" using ring by (simp add: cdll_def)
  have ne: "vs @ us \<noteq> []" using assms(2) by auto
  have nn: "nn = hd (vs @ us)" 
    using cdll_nextD [OF ring] assms(4) hd_append2 [OF ne, of "[e]"] by simp
  have pp: "pp = last (vs @ us)"
    using cdll_prevD [OF ring] assms(5) ne by (auto split: if_splits)
  have 1: "cdll (n(pp := Some nn)) (p(nn := Some pp)) (vs @ us)"
    by (rule cdll_remove_first [OF ring ne assms(4,5)])
  have "x \<notin> set (vs @ us)" using assms(3) by auto
  from cdll_insert_last [OF 1 this, of pp]
  have 2: "cdll ((n(pp := Some nn))(x := Some nn, pp := Some x))
         ((p(nn := Some pp))(x := Some pp, nn := Some x)) ((vs @ us) @ [x])"
    by (simp add: nn [symmetric])
  have "pp \<in> set (vs @ us)" using pp ne by (metis last_in_set)
  moreover have "nn \<in> set (vs @ us)" using nn ne by (metis hd_in_set)
  ultimately have "x \<noteq> pp" "x \<noteq> nn" using assms(3) by auto
  then have "(n(pp := Some nn))(x := Some nn, pp := Some x) = n(pp := Some x, x := Some nn)"
    and "(p(nn := Some pp))(x := Some pp, nn := Some x) = p(x := Some pp, nn := Some x)"
    by auto
  with 2 have "cdll (n(pp := Some x, x := Some nn)) (p(x := Some pp, nn := Some x)) (vs @ (us @ [x]))"
    by simp
  from cdll_rotate [OF this] show ?thesis by simp
qed

section \<open>First elements of runs\<close>

function gheads :: "('a \<Rightarrow> 'b) \<Rightarrow> 'a list \<Rightarrow> 'a list" where
  "gheads f [] = []"
| "gheads f (x # xs) = x # gheads f (dropWhile (\<lambda>y. f y = f x) xs)"
  by pat_completeness auto
termination
  by (relation "measure (\<lambda>(f, xs). length xs)") (auto simp: le_imp_less_Suc length_dropWhile_le)

lemma gheads_eq_Nil [simp]: "gheads f xs = [] \<longleftrightarrow> xs = []"
  by (cases xs) auto

lemma hd_gheads [simp]: "hd (gheads f xs) = hd xs"
  by (cases xs) auto

lemma set_gheads: "set (gheads f xs) \<subseteq> set xs"
  by (induction f xs rule: gheads.induct) (auto dest: set_dropWhileD)

lemma distinct_gheads: "distinct xs \<Longrightarrow> distinct (gheads f xs)"
  by (induction f xs rule: gheads.induct)
     (use set_gheads set_dropWhileD in \<open>fastforce simp: distinct_dropWhile\<close>)+

lemma gheads_append_diff:
  "A \<noteq> [] \<Longrightarrow> B \<noteq> [] \<Longrightarrow> f (last A) \<noteq> f (hd B) \<Longrightarrow> gheads f (A @ B) = gheads f A @ gheads f B"
proof (induction f A rule: gheads.induct)
  case (2 f x xs)
  show ?case
  proof (cases "\<forall>y\<in>set xs. f y = f x")
    case True
    then have "f (last (x # xs)) = f x" by auto
    then have "dropWhile (\<lambda>y. f y = f x) B = B" using "2.prems"(2,3) by (cases B) auto
    with True show ?thesis by (auto simp: dropWhile_append)
  next
    case False
    then obtain y where y: "y \<in> set xs" "f y \<noteq> f x" by auto
    then have ne: "dropWhile (\<lambda>y. f y = f x) xs \<noteq> []" by auto
    have "last (dropWhile (\<lambda>y. f y = f x) xs) = last xs"
      using y by (metis (mono_tags, lifting) dropWhile_last)
    moreover have "last (x # xs) = last xs" using y by auto
    ultimately show ?thesis
      using "2.IH" [OF ne "2.prems"(2)] "2.prems"(3) y by (auto simp: dropWhile_append)
  qed
qed simp

lemma gheads_append_same:
  "A \<noteq> [] \<Longrightarrow> \<forall>y\<in>set B. f y = f (last A) \<Longrightarrow> gheads f (A @ B) = gheads f A"
proof (induction f A rule: gheads.induct)
  case (2 f x xs)
  show ?case
  proof (cases "\<forall>y\<in>set xs. f y = f x")
    case True
    then have "f (last (x # xs)) = f x" by auto
    then have "\<forall>y\<in>set (xs @ B). f y = f x" using True "2.prems"(2) by auto
    then have "dropWhile (\<lambda>y. f y = f x) (xs @ B) = []" by (simp only: dropWhile_eq_Nil_conv)
    moreover have "dropWhile (\<lambda>y. f y = f x) xs = []" using True by simp
    ultimately show ?thesis by (simp only: append_Cons gheads.simps)
  next
    case False
    then obtain y where y: "y \<in> set xs" "f y \<noteq> f x" by auto
    then have ne: "dropWhile (\<lambda>y. f y = f x) xs \<noteq> []" by auto
    have "last (dropWhile (\<lambda>y. f y = f x) xs) = last xs"
      using y by (metis (mono_tags, lifting) dropWhile_last)
    moreover have "last (x # xs) = last xs" using y by auto
    ultimately show ?thesis
      using "2.IH" [OF ne] "2.prems"(2) y by (auto simp: dropWhile_append)
  qed
qed simp

lemma takeWhile_dropWhile_commute:
  "(\<And>x. Q x \<Longrightarrow> P x) \<Longrightarrow> takeWhile P (dropWhile Q xs) = dropWhile Q (takeWhile P xs)"
  by (induction xs) auto

lemma dropWhile_dropWhile_weaken:
  "(\<And>x. Q x \<Longrightarrow> P x) \<Longrightarrow> dropWhile P (dropWhile Q xs) = dropWhile P xs"
  by (induction xs) auto

lemma takeWhile_gheads: "takeWhile (\<lambda>x. Q (f x)) (gheads f xs) = gheads f (takeWhile (\<lambda>x. Q (f x)) xs)"
proof (induction f xs rule: gheads.induct)
  case (2 f x xs)
  then show ?case
    by (auto simp: takeWhile_dropWhile_commute [where P = "\<lambda>x. Q (f x)" and Q = "\<lambda>y. f y = f x"])
qed simp

lemma dropWhile_gheads: "dropWhile (\<lambda>x. Q (f x)) (gheads f xs) = gheads f (dropWhile (\<lambda>x. Q (f x)) xs)"
proof (induction f xs rule: gheads.induct)
  case (2 f x xs)
  then show ?case
    by (auto simp: dropWhile_dropWhile_weaken [where P = "\<lambda>x. Q (f x)" and Q = "\<lambda>y. f y = f x"])
qed simp

lemma walk_stop_gheads: "walk_stop (\<lambda>x. Q (f x)) (gheads f xs) = walk_stop (\<lambda>x. Q (f x)) xs"
  by (cases "dropWhile (\<lambda>x. Q (f x)) xs")
     (simp_all only: walk_stop_def dropWhile_gheads gheads.simps list.case hd_gheads)


lemma cdll_cong:
  assumes "\<And>x. x \<in> set xs \<Longrightarrow> n' x = n x" "\<And>x. x \<in> set xs \<Longrightarrow> p' x = p x"
  shows "cdll n' p' xs = cdll n p xs"
proof -
  have "\<forall>x\<in>set ys. n' x = n x \<and> p' x = p x \<Longrightarrow> dpath n' p' ys = dpath n p ys" for ys
    by (induction n p ys rule: dpath.induct) auto
  from this [of "xs @ [hd xs]"] show ?thesis using assms by (cases xs) (auto simp: cdll_def)
qed

lemma cdll_walk_stop_prev:
  assumes "cdll n p xs"
  shows "p (walk_stop P xs) = Some (if takeWhile P xs = [] then last xs else last (takeWhile P xs))"
proof (cases "dropWhile P xs")
  case Nil
  have 1: "takeWhile P xs = xs"
    using takeWhile_dropWhile_id [of P xs, unfolded Nil] by simp
  have 2: "walk_stop P xs = hd xs" unfolding walk_stop_def Nil by simp
  show ?thesis unfolding 1 2 using cdll_prevD [OF assms] by simp
next
  case (Cons b vs)
  then have xs: "xs = takeWhile P xs @ b # vs" and stop: "walk_stop P xs = b"
    by (metis takeWhile_dropWhile_id) (simp add: walk_stop_def Cons)
  have "cdll n p (b # vs @ takeWhile P xs)"
    using cdll_rotate [of n p "takeWhile P xs" "b # vs"] assms xs by simp
  from cdll_prevD [OF this] show ?thesis using stop xs
    by (cases "takeWhile P xs = []") (auto simp: takeWhile_eq_Nil_iff)
qed

lemma walk_stop_in: "xs \<noteq> [] \<Longrightarrow> walk_stop P xs \<in> set xs"
  by (auto simp: walk_stop_def split: list.splits) (metis list.set_intros(1) set_dropWhileD)

lemma gheads_cong: "(\<And>x. x \<in> set xs \<Longrightarrow> f x = g x) \<Longrightarrow> gheads f xs = gheads g xs"
proof (induction f xs rule: gheads.induct)
  case (2 f x xs)
  let ?d = "dropWhile (\<lambda>y. f y = f x) xs"
  have "f y = g y" if "y \<in> set ?d" for y
    using set_dropWhileD [OF that] "2.prems" by simp
  from "2.IH" [OF this] have "gheads f ?d = gheads g ?d" .
  moreover have "f y = f x \<longleftrightarrow> g y = g x" if "y \<in> set xs" for y
    using that "2.prems" by simp
  then have "?d = dropWhile (\<lambda>y. g y = g x) xs" by (rule dropWhile_cong [OF refl])
  ultimately show ?case by simp
qed simp

lemma walk_insert_cong:
  assumes "\<And>x. x \<in> set xs \<Longrightarrow> P x = Q x"
  shows "walk_insert P e xs = walk_insert Q e xs"
proof -
  have "takeWhile P xs = takeWhile Q xs" using assms by (rule takeWhile_cong [OF refl])
  moreover have "dropWhile P xs = dropWhile Q xs" using assms by (rule dropWhile_cong [OF refl])
  ultimately show ?thesis unfolding walk_insert_def by simp
qed

lemma gheads_walk_insert:
  assumes "Q (f e)"
  shows "gheads f (walk_insert (\<lambda>x. Q (f x)) e xs) =
    (if takeWhile (\<lambda>x. Q (f x)) xs \<noteq> [] \<and> f (last (takeWhile (\<lambda>x. Q (f x)) xs)) = f e
     then gheads f xs else walk_insert (\<lambda>x. Q (f x)) e (gheads f xs))"
proof -
  let ?P = "\<lambda>x. Q (f x)"
  let ?A = "takeWhile ?P xs" and ?B = "dropWhile ?P xs"
  have A: "x \<in> set ?A \<Longrightarrow> Q (f x)" for x by (auto dest: set_takeWhileD)
  have B: "?B \<noteq> [] \<Longrightarrow> \<not> Q (f (hd ?B))" using hd_dropWhile [of ?P xs] by simp
  have eB: "gheads f (e # ?B) = e # gheads f ?B"
  proof (cases ?B)
    case (Cons b bs)
    then have "f b \<noteq> f e" using B assms by auto
    then show ?thesis unfolding Cons by simp
  next
    case Nil
    show ?thesis unfolding Nil by simp
  qed
  have AB: "gheads f xs = gheads f ?A @ gheads f ?B"
  proof (cases "?A = [] \<or> ?B = []")
    case True
    then show ?thesis using takeWhile_dropWhile_id [of ?P xs] by (elim disjE) (metis append_Nil gheads.simps(1), metis append_Nil2 gheads.simps(1))
  next
    case False
    then have "f (last ?A) \<noteq> f (hd ?B)" using A [of "last ?A"] B by fastforce
    with False gheads_append_diff [of ?A ?B f] show ?thesis by simp
  qed
  show ?thesis
  proof (cases "?A \<noteq> [] \<and> f (last ?A) = f e")
    case True
    have 1: "gheads f (?A @ [e]) = gheads f ?A" using gheads_append_same [of ?A "[e]" f] True by simp
    have "gheads f ((?A @ [e]) @ ?B) = gheads f (?A @ [e]) @ gheads f ?B"
    proof (cases "?B = []")
      case False
      then have "f e \<noteq> f (hd ?B)" using B assms by fastforce
      then show ?thesis using gheads_append_diff [of "?A @ [e]" ?B f] False by simp
    next
      case True
      show ?thesis unfolding True by simp
    qed
    then have "gheads f (?A @ e # ?B) = gheads f xs" using 1 AB by simp
    then show ?thesis using True unfolding walk_insert_def by simp
  next
    case False
    have "gheads f (?A @ e # ?B) = gheads f ?A @ e # gheads f ?B"
    proof (cases "?A = []")
      case False
      then have "gheads f (?A @ e # ?B) = gheads f ?A @ gheads f (e # ?B)"
        using gheads_append_diff [of ?A "e # ?B" f] \<open>\<not> (?A \<noteq> [] \<and> f (last ?A) = f e)\<close> by simp
      then show ?thesis using eB by simp
    qed (use eB in simp)
    then show ?thesis using False
      unfolding walk_insert_def takeWhile_gheads dropWhile_gheads by auto
  qed
qed

lemma set_walk_insert [simp]: "set (walk_insert P e xs) = insert e (set xs)"
  unfolding walk_insert_def by (metis Un_insert_right list.simps(15) set_append takeWhile_dropWhile_id)

lemma distinct_walk_insert: "distinct xs \<Longrightarrow> e \<notin> set xs \<Longrightarrow> distinct (walk_insert P e xs)"
  unfolding walk_insert_def
  by (metis distinct.simps(2) distinct_append not_distinct_conv_prefix set_dropWhileD set_takeWhileD takeWhile_dropWhile_id disjoint_insert(1) list.simps(15) in_set_dropD)

lemma sorted_walk_insert:
  fixes f :: "'a \<Rightarrow> 'b::linorder"
  shows "sorted (map f xs) \<Longrightarrow> sorted (map f (walk_insert (\<lambda>x. f x \<le> f e) e xs))"
proof (induction xs)
  case (Cons x xs)
  then show ?case by (auto simp: walk_insert_def dest!: set_takeWhileD set_dropWhileD)
qed (simp add: walk_insert_def)

lemma hd_walk_insert:
  "hd (walk_insert P e xs) = (if xs \<noteq> [] \<and> P (hd xs) then hd xs else e)"
  by (cases xs) (auto simp: walk_insert_def)

lemma gheads_mid_same:
  "us \<noteq> [] \<Longrightarrow> f (last us) = f e \<Longrightarrow> gheads f (us @ e # vs) = gheads f (us @ vs)"
proof (induction f us rule: gheads.induct)
  case (2 f x xs)
  show ?case
  proof (cases "\<forall>y\<in>set xs. f y = f x")
    case True
    then have "f e = f x" using "2.prems" by (auto split: if_splits)
    then show ?thesis using True by (simp add: dropWhile_append)
  next
    case False
    then obtain y where y: "y \<in> set xs" "f y \<noteq> f x" by auto
    then have ne: "dropWhile (\<lambda>y. f y = f x) xs \<noteq> []" by auto
    have "last (dropWhile (\<lambda>y. f y = f x) xs) = last xs"
      using y by (metis (mono_tags, lifting) dropWhile_last)
    moreover have "last (x # xs) = last xs" using y by auto
    ultimately show ?thesis
      using "2.IH" [OF ne] "2.prems"(2) y by (auto simp: dropWhile_append)
  qed
qed simp

lemma gheads_split:
  "us = [] \<or> vs = [] \<or> f (last us) \<noteq> f (hd vs) \<Longrightarrow> gheads f (us @ vs) = gheads f us @ gheads f vs"
  using gheads_append_diff [of us vs f] by (cases "us = []"; cases "vs = []") auto

lemma gheads_mid_head:
  "us = [] \<or> f (last us) \<noteq> f e \<Longrightarrow>
   gheads f (us @ e # vs) = gheads f us @ e # gheads f (dropWhile (\<lambda>y. f y = f e) vs)"
  by (subst gheads_split) auto

lemma in_gheads_iff:
  assumes "distinct (us @ e # vs)"
  shows "e \<in> set (gheads f (us @ e # vs)) \<longleftrightarrow> us = [] \<or> f (last us) \<noteq> f e"
proof
  assume "e \<in> set (gheads f (us @ e # vs))"
  moreover have "e \<notin> set (gheads f (us @ vs))" using set_gheads [of f "us @ vs"] assms by auto
  ultimately show "us = [] \<or> f (last us) \<noteq> f e" using gheads_mid_same [of us f e vs] by auto
qed (auto simp: gheads_mid_head)

text \<open>What is left of the group heads when a list element is taken out: nothing changes for an
  element that is no head; the next element of the group takes the place of a head that has a
  successor in its group; the head of a group of one just disappears.\<close>

lemma gheads_remove_same:
  "us = [] \<or> f (last us) \<noteq> f e \<Longrightarrow> vs \<noteq> [] \<Longrightarrow> f (hd vs) = f e \<Longrightarrow>
   gheads f (us @ vs) = gheads f us @ hd vs # gheads f (dropWhile (\<lambda>y. f y = f e) vs)"
  by (subst gheads_split) (auto simp: neq_Nil_conv)

lemma gheads_remove_last:
  "us = [] \<or> f (last us) \<noteq> f e \<Longrightarrow> vs = [] \<or> f (hd vs) \<noteq> f e \<Longrightarrow>
   gheads f (us @ e # vs) = gheads f us @ e # gheads f vs"
  by (cases vs) (auto simp: gheads_mid_head)

lemma sorted_last_hd:
  fixes f :: "'a \<Rightarrow> 'b::linorder"
  assumes "sorted (map f (us @ e # vs))" "us = [] \<or> f (last us) \<noteq> f e"
  shows "us = [] \<or> f (last us) < f e" "us = [] \<or> vs = [] \<or> f (last us) \<noteq> f (hd vs)"
proof -
  have le: "us \<noteq> [] \<Longrightarrow> f (last us) \<le> f e" "vs \<noteq> [] \<Longrightarrow> f e \<le> f (hd vs)"
    using assms(1) by (auto simp: sorted_append)
  show "us = [] \<or> f (last us) < f e"
    by (cases "us = []") (use le(1) assms(2) in \<open>auto simp: less_le\<close>)
  with le show "us = [] \<or> vs = [] \<or> f (last us) \<noteq> f (hd vs)" by fastforce
qed

lemma sorted_remove1_map: "sorted (map f xs) \<Longrightarrow> sorted (map f (remove1 e xs))"
  by (induction xs) (auto dest: notin_set_remove1 set_remove1_subset [THEN subsetD])

section \<open>Open lists\<close>

text \<open>A singly linked list that ends with the null pointer.\<close>

fun fpath :: "('a \<Rightarrow> 'a option) \<Rightarrow> 'a option \<Rightarrow> 'a list \<Rightarrow> bool" where
  "fpath n x [] \<longleftrightarrow> x = None"
| "fpath n x (a # as) \<longleftrightarrow> x = Some a \<and> fpath n (n a) as"

lemma fpath_cong: "(\<And>x. x \<in> set as \<Longrightarrow> n' x = n x) \<Longrightarrow> fpath n' x as \<longleftrightarrow> fpath n x as"
  by (induction as arbitrary: x) auto

text \<open>A ring whose last link has been cut.\<close>

lemma dpath_cut: "dpath n p (xs @ [y]) \<Longrightarrow> y \<notin> set xs \<Longrightarrow> fpath (n(y := None)) (Some (hd (xs @ [y]))) (xs @ [y])"
  by (induction n p xs rule: dpath.induct) auto

lemma cdll_cut:
  assumes "cdll n p xs" "p (hd xs) = Some l"
  shows "fpath (n(l := None)) (Some (hd xs)) xs"
proof -
  have l: "l = last xs" using cdll_prevD [OF assms(1)] assms(2) by simp
  obtain ys where xs: "xs = ys @ [l]" using assms(1) l by (metis append_butlast_last_id cdll_def)
  have "dpath n p ((ys @ [l]) @ [hd xs])" "l \<notin> set ys" using assms(1) xs by (auto simp: cdll_def)
  then have "dpath n p (ys @ [l])" using dpath_split [of n p ys l "[hd xs]"] by simp
  from dpath_cut [OF this \<open>l \<notin> set ys\<close>] show ?thesis by (simp add: xs)
qed

text \<open>Numbers that fit into a word.\<close>

lemma sint_small: "0 \<le> k \<Longrightarrow> k < 2 ^ 31 \<Longrightarrow> sint (word_of_int k :: u32) = k"
  by (subst signed_of_int, subst signed_take_bit_int_eq_self) simp_all

lemma sint_small_nat: "n < 2 ^ 31 \<Longrightarrow> sint (word_of_nat n :: u32) = int n"
  using sint_small [of "int n"] by simp

lemma unat_small: "n < 2 ^ 32 \<Longrightarrow> unat (word_of_nat n :: u32) = n"
  by (simp add: unat_of_nat take_bit_eq_mod)

end
