(* ===== verification/Djy_Kernel.thy ===== *)
theory Djy_Kernel
  imports Djy_Prelude
begin

text \<open>
  The kernel's data (\<open>src/djyos/include/djyos.h\<close>, \<open>src/djyos/core/djyos.c\<close>) and the primitive
  reads and writes of it.  The modelled build is the default one: \<open>CFG_OS_TINY == false\<close>,
  \<open>CFG_DYNAMIC_MEM == true\<close>, single image.

  Addresses.  An event control block is addressed by its index in \<open>g_tECB_Table\<close>; a pointer
  \<open>struct EventECB *\<close> is a \<^typ>\<open>nat option\<close>, \<^const>\<open>None\<close> being \<open>NULL\<close>.  The address of the variable
  \<open>s_ptEventFree\<close>, which the code stores in \<open>previous\<close> to mark a free block, is the number
  \<open>ev_free_addr\<close>, which is no index of the table.  A pointer to a queue head,
  \<open>struct EventECB **\<close>, is a value of \<open>qhead\<close>: it names the variable or the structure member
  that holds the head, and \<open>cells\<close> gives the contents of all these locations.

  Dereferencing \<open>NULL\<close> and not returning are both the result \<^const>\<open>None\<close> of an operation, so a
  theorem that an operation yields \<^const>\<open>Some\<close> says that it terminates without a wild access.
\<close>

datatype qhead =
    EcbSync nat      \<comment> \<open>\<open>g_tECB_Table[i].sync\<close>\<close>
  | EvttDone nat     \<comment> \<open>\<open>g_tEvttTable[i].done_sync\<close>\<close>
  | EvttPop nat      \<comment> \<open>\<open>g_tEvttTable[i].pop_sync\<close>\<close>
  | SempSync nat     \<comment> \<open>\<open>semp->semp_sync\<close>\<close>
  | MutexSync nat    \<comment> \<open>\<open>mutex->mutex_sync\<close>\<close>
  | GenMemSync       \<comment> \<open>\<open>s_ptGenMemSync\<close> of the heap module\<close>
  | StackSync        \<comment> \<open>\<open>s_ptStackSync\<close> of the heap module\<close>

datatype knl_error =
    EN_NO_ERROR
  | EN_KNL_ETCB_ERROR | EN_KNL_ECB_EXHAUSTED | EN_KNL_ETCB_EXHAUSTED | EN_KNL_PCB_EXHAUSTED
  | EN_KNL_CANT_SCHED | EN_KNL_INVALID_PRIO | EN_KNL_VPU_OVER | EN_KNL_PARA_OVER
  | EN_KNL_EVTT_HOMONYMY | EN_KNL_EVENT_FREE | EN_KNL_EVTT_FREE | EN_KNL_EVENTID_LIMIT
  | EN_KNL_EVTTID_LIMIT | EN_KNL_EVTT_UNREGISTER | EN_KNL_EVENT_SYNC_EXIT
  | EN_KNL_STACK_OVERFLOW
  | EN_MEM_TRIED
  | EN_LOCK_PARA_ERROR | EN_LOCK_RANGE_ERROR | EN_LOCK_BLOCK_IN_INT
  | EN_OTHER u32     \<comment> \<open>any other number an application stores\<close>

record EventECB =
  ecb_next :: "nat option"
  ecb_previous :: "nat option"
  multi_next :: "nat option"
  multi_previous :: "nat option"
  vm :: "nat option"
  param1 :: u32
  param2 :: u32
  userdata :: u32
  sync_head :: "qhead option"
  EventStartTime :: int
  consumed_time :: int
  consumed_time_second :: u32
  consumed_time_record :: u32
  delay_start_tick :: int
  delay_end_tick :: int
  error_no :: knl_error
  event_result :: u32
  wait_mem_size :: u32
  HeapSize :: u32
  HeapSizeMax :: u32
  wakeup_from :: u32
  event_status :: u32
  prio_base :: u8
  prio :: u8
  evtt_id :: u16
  sync_counter :: u16
  event_id :: u16
  local_memory :: u32

record ThreadVm =
  stack_top :: u32
  stack_used :: u32
  vm_next :: "nat option"
  vm_stack_size :: u32
  host_vm :: "nat option"

record EventType =
  correlative :: bool
  registered :: bool
  inuse :: bool
  deleting :: bool
  my_free_vm :: "nat option"
  SchHook :: nat
  evtt_name :: string
  default_prio :: u16
  correlativeID :: u16
  events :: u16
  vpus_res :: u16
  vpus_limit :: u16
  vpus :: u16
  thread_routine :: nat
  stack_size :: u32
  pop_times :: u32

datatype knl_out =
    HookCall nat bool                        \<comment> \<open>\<open>SchHook(EN_SWITCH_IN)\<close> is \<open>True\<close>, \<open>EN_SWITCH_OUT\<close> \<open>False\<close>\<close>
  | SwitchContext "nat option" "nat option"  \<comment> \<open>\<open>__asm_switch_context(new, old)\<close>\<close>
  | TurnToContext "nat option"               \<comment> \<open>\<open>__asm_turnto_context(new)\<close>, \<open>__asm_start_thread(new)\<close>\<close>
  | ResetSwitch nat "nat option" "nat option" \<comment> \<open>\<open>__asm_reset_switch(routine, new, old)\<close>\<close>
  | BusyDelay u32                            \<comment> \<open>\<open>DJY_DelayUs(us)\<close>\<close>

record kernel =
  cfg_event_limit :: nat
  cfg_evtt_limit :: nat
  cfg_tick_us :: u32
  ecbs :: "nat \<Rightarrow> EventECB"
  evtts :: "nat \<Rightarrow> EventType"
  vms :: "nat \<Rightarrow> ThreadVm"
  cells :: "qhead \<Rightarrow> nat option"
  ptEventFree :: "nat option"
  ptEventReady :: nat
  ptEventRunning :: nat
  ptEventDelay :: "nat option"
  ptWaitFreeVm :: "nat option"
  RRS_Slice :: u32
  RunningStartTime :: int
  OsTicks :: int
  SysTime :: int
  ScheduleEnable :: bool
  MultiEventStarted :: bool
  en_asyn_signal_counter :: u32
  nest_asyn_signal :: u32
  kout :: "knl_out list"

definition ev_free_addr :: nat where
  "ev_free_addr = 0x10000"

definition CN_STS_EVENT_READY :: u32 where [simp]: "CN_STS_EVENT_READY = 0"
definition CN_STS_EVENT_DELAY :: u32 where [simp]: "CN_STS_EVENT_DELAY = 0x1"
definition CN_STS_SYNC_TIMEOUT :: u32 where [simp]: "CN_STS_SYNC_TIMEOUT = 0x2"
definition CN_STS_WAIT_EVENT_DONE :: u32 where [simp]: "CN_STS_WAIT_EVENT_DONE = 0x4"
definition CN_STS_EVENT_EXP_EXIT :: u32 where [simp]: "CN_STS_EVENT_EXP_EXIT = 0x8"
definition CN_STS_WAIT_EVTT_POP :: u32 where [simp]: "CN_STS_WAIT_EVTT_POP = 0x10"
definition CN_STS_WAIT_EVTT_DONE :: u32 where [simp]: "CN_STS_WAIT_EVTT_DONE = 0x20"
definition CN_STS_WAIT_MEMORY :: u32 where [simp]: "CN_STS_WAIT_MEMORY = 0x40"
definition CN_STS_WAIT_SEMP :: u32 where [simp]: "CN_STS_WAIT_SEMP = 0x80"
definition CN_STS_WAIT_MUTEX :: u32 where [simp]: "CN_STS_WAIT_MUTEX = 0x100"
definition CN_STS_EVTTSYNC_DELETED :: u32 where [simp]: "CN_STS_EVTTSYNC_DELETED = 0x8000"
definition CN_STS_EVENT_NORUN :: u32 where [simp]: "CN_STS_EVENT_NORUN = 0x20000"
definition CN_BLOCK_PRIO_SORT :: u32 where [simp]: "CN_BLOCK_PRIO_SORT = 0x40000"
definition CN_STS_WAIT_STACK :: u32 where [simp]: "CN_STS_WAIT_STACK = 0x80000"
definition CN_TIMEOUT_FOREVER :: u32 where [simp]: "CN_TIMEOUT_FOREVER = 0xFFFFFFFF"
definition CN_PRIO_SYS_SERVICE :: u8 where [simp]: "CN_PRIO_SYS_SERVICE = 250"

definition fld :: "(EventECB \<Rightarrow> 'v) \<Rightarrow> 'a kernel_scheme \<Rightarrow> nat \<Rightarrow> 'v" where
  "fld g k = (\<lambda>i. g (ecbs k i))"

definition upd_ecb :: "nat \<Rightarrow> (EventECB \<Rightarrow> EventECB) \<Rightarrow> 'a kernel_scheme \<Rightarrow> 'a kernel_scheme" where
  "upd_ecb i f k = k\<lparr>ecbs := (ecbs k)(i := f (ecbs k i))\<rparr>"

abbreviation "nx \<equiv> fld ecb_next"
abbreviation "pv \<equiv> fld ecb_previous"
abbreviation "mnx \<equiv> fld multi_next"
abbreviation "mpv \<equiv> fld multi_previous"

definition set_next :: "nat \<Rightarrow> nat option \<Rightarrow> 'a kernel_scheme \<Rightarrow> 'a kernel_scheme" where
  "set_next i v = upd_ecb i (\<lambda>e. e\<lparr>ecb_next := v\<rparr>)"
definition set_previous :: "nat \<Rightarrow> nat option \<Rightarrow> 'a kernel_scheme \<Rightarrow> 'a kernel_scheme" where
  "set_previous i v = upd_ecb i (\<lambda>e. e\<lparr>ecb_previous := v\<rparr>)"
definition set_multi_next :: "nat \<Rightarrow> nat option \<Rightarrow> 'a kernel_scheme \<Rightarrow> 'a kernel_scheme" where
  "set_multi_next i v = upd_ecb i (\<lambda>e. e\<lparr>multi_next := v\<rparr>)"
definition set_multi_previous :: "nat \<Rightarrow> nat option \<Rightarrow> 'a kernel_scheme \<Rightarrow> 'a kernel_scheme" where
  "set_multi_previous i v = upd_ecb i (\<lambda>e. e\<lparr>multi_previous := v\<rparr>)"
definition set_cell :: "qhead \<Rightarrow> nat option \<Rightarrow> 'a kernel_scheme \<Rightarrow> 'a kernel_scheme" where
  "set_cell h v k = k\<lparr>cells := (cells k)(h := v)\<rparr>"

lemma fld_upd_ecb: "fld g (upd_ecb i f k) = (fld g k)(i := g (f (ecbs k i)))"
  by (auto simp: fld_def upd_ecb_def)

lemma fld_upd_other [simp]: "(\<And>e. g (f e) = g e) \<Longrightarrow> fld g (upd_ecb i f k) = fld g k"
  by (auto simp: fld_def upd_ecb_def)

lemma fld_upd_own [simp]:
  "fld ecb_next (upd_ecb i (ecb_next_update h0) k) = (fld ecb_next k)(i := h0 (fld ecb_next k i))"
  "fld ecb_previous (upd_ecb i (ecb_previous_update h1) k) = (fld ecb_previous k)(i := h1 (fld ecb_previous k i))"
  "fld multi_next (upd_ecb i (multi_next_update h2) k) = (fld multi_next k)(i := h2 (fld multi_next k i))"
  "fld multi_previous (upd_ecb i (multi_previous_update h3) k) = (fld multi_previous k)(i := h3 (fld multi_previous k i))"
  "fld vm (upd_ecb i (vm_update h4) k) = (fld vm k)(i := h4 (fld vm k i))"
  "fld param1 (upd_ecb i (param1_update h5) k) = (fld param1 k)(i := h5 (fld param1 k i))"
  "fld param2 (upd_ecb i (param2_update h6) k) = (fld param2 k)(i := h6 (fld param2 k i))"
  "fld userdata (upd_ecb i (userdata_update h7) k) = (fld userdata k)(i := h7 (fld userdata k i))"
  "fld sync_head (upd_ecb i (sync_head_update h8) k) = (fld sync_head k)(i := h8 (fld sync_head k i))"
  "fld EventStartTime (upd_ecb i (EventStartTime_update h9) k) = (fld EventStartTime k)(i := h9 (fld EventStartTime k i))"
  "fld consumed_time (upd_ecb i (consumed_time_update h10) k) = (fld consumed_time k)(i := h10 (fld consumed_time k i))"
  "fld consumed_time_second (upd_ecb i (consumed_time_second_update h11) k) = (fld consumed_time_second k)(i := h11 (fld consumed_time_second k i))"
  "fld consumed_time_record (upd_ecb i (consumed_time_record_update h12) k) = (fld consumed_time_record k)(i := h12 (fld consumed_time_record k i))"
  "fld delay_start_tick (upd_ecb i (delay_start_tick_update h13) k) = (fld delay_start_tick k)(i := h13 (fld delay_start_tick k i))"
  "fld delay_end_tick (upd_ecb i (delay_end_tick_update h14) k) = (fld delay_end_tick k)(i := h14 (fld delay_end_tick k i))"
  "fld error_no (upd_ecb i (error_no_update h15) k) = (fld error_no k)(i := h15 (fld error_no k i))"
  "fld event_result (upd_ecb i (event_result_update h16) k) = (fld event_result k)(i := h16 (fld event_result k i))"
  "fld wait_mem_size (upd_ecb i (wait_mem_size_update h17) k) = (fld wait_mem_size k)(i := h17 (fld wait_mem_size k i))"
  "fld HeapSize (upd_ecb i (HeapSize_update h18) k) = (fld HeapSize k)(i := h18 (fld HeapSize k i))"
  "fld HeapSizeMax (upd_ecb i (HeapSizeMax_update h19) k) = (fld HeapSizeMax k)(i := h19 (fld HeapSizeMax k i))"
  "fld wakeup_from (upd_ecb i (wakeup_from_update h20) k) = (fld wakeup_from k)(i := h20 (fld wakeup_from k i))"
  "fld event_status (upd_ecb i (event_status_update h21) k) = (fld event_status k)(i := h21 (fld event_status k i))"
  "fld prio_base (upd_ecb i (prio_base_update h22) k) = (fld prio_base k)(i := h22 (fld prio_base k i))"
  "fld prio (upd_ecb i (prio_update h23) k) = (fld prio k)(i := h23 (fld prio k i))"
  "fld evtt_id (upd_ecb i (evtt_id_update h24) k) = (fld evtt_id k)(i := h24 (fld evtt_id k i))"
  "fld sync_counter (upd_ecb i (sync_counter_update h25) k) = (fld sync_counter k)(i := h25 (fld sync_counter k i))"
  "fld event_id (upd_ecb i (event_id_update h26) k) = (fld event_id k)(i := h26 (fld event_id k i))"
  "fld local_memory (upd_ecb i (local_memory_update h27) k) = (fld local_memory k)(i := h27 (fld local_memory k i))"
  by (auto simp: fld_def upd_ecb_def)

lemma fld_upd_same [simp]: "(fld g k)(i := g (ecbs k i)) = fld g k"
  by (auto simp: fld_def)

lemma kernel_upd_ecb [simp]:
  "cfg_event_limit (upd_ecb i f k) = cfg_event_limit k"
  "cfg_evtt_limit (upd_ecb i f k) = cfg_evtt_limit k"
  "cfg_tick_us (upd_ecb i f k) = cfg_tick_us k"
  "evtts (upd_ecb i f k) = evtts k"
  "vms (upd_ecb i f k) = vms k"
  "cells (upd_ecb i f k) = cells k"
  "ptEventFree (upd_ecb i f k) = ptEventFree k"
  "ptEventReady (upd_ecb i f k) = ptEventReady k"
  "ptEventRunning (upd_ecb i f k) = ptEventRunning k"
  "ptEventDelay (upd_ecb i f k) = ptEventDelay k"
  "ptWaitFreeVm (upd_ecb i f k) = ptWaitFreeVm k"
  "RRS_Slice (upd_ecb i f k) = RRS_Slice k"
  "RunningStartTime (upd_ecb i f k) = RunningStartTime k"
  "OsTicks (upd_ecb i f k) = OsTicks k"
  "SysTime (upd_ecb i f k) = SysTime k"
  "ScheduleEnable (upd_ecb i f k) = ScheduleEnable k"
  "MultiEventStarted (upd_ecb i f k) = MultiEventStarted k"
  "en_asyn_signal_counter (upd_ecb i f k) = en_asyn_signal_counter k"
  "nest_asyn_signal (upd_ecb i f k) = nest_asyn_signal k"
  "kout (upd_ecb i f k) = kout k"
  by (simp_all add: upd_ecb_def)

lemma fld_kernel_upd [simp]:
  "fld g (k\<lparr>cfg_event_limit := v0\<rparr>) = fld g k"
  "fld g (k\<lparr>cfg_evtt_limit := v1\<rparr>) = fld g k"
  "fld g (k\<lparr>cfg_tick_us := v2\<rparr>) = fld g k"
  "fld g (k\<lparr>evtts := v3\<rparr>) = fld g k"
  "fld g (k\<lparr>vms := v4\<rparr>) = fld g k"
  "fld g (k\<lparr>cells := v5\<rparr>) = fld g k"
  "fld g (k\<lparr>ptEventFree := v6\<rparr>) = fld g k"
  "fld g (k\<lparr>ptEventReady := v7\<rparr>) = fld g k"
  "fld g (k\<lparr>ptEventRunning := v8\<rparr>) = fld g k"
  "fld g (k\<lparr>ptEventDelay := v9\<rparr>) = fld g k"
  "fld g (k\<lparr>ptWaitFreeVm := v10\<rparr>) = fld g k"
  "fld g (k\<lparr>RRS_Slice := v11\<rparr>) = fld g k"
  "fld g (k\<lparr>RunningStartTime := v12\<rparr>) = fld g k"
  "fld g (k\<lparr>OsTicks := v13\<rparr>) = fld g k"
  "fld g (k\<lparr>SysTime := v14\<rparr>) = fld g k"
  "fld g (k\<lparr>ScheduleEnable := v15\<rparr>) = fld g k"
  "fld g (k\<lparr>MultiEventStarted := v16\<rparr>) = fld g k"
  "fld g (k\<lparr>en_asyn_signal_counter := v17\<rparr>) = fld g k"
  "fld g (k\<lparr>nest_asyn_signal := v18\<rparr>) = fld g k"
  "fld g (k\<lparr>kout := v19\<rparr>) = fld g k"
  by (simp_all add: fld_def)

lemma set_cell_simps [simp]:
  "cells (set_cell h v k) = (cells k)(h := v)" "ecbs (set_cell h v k) = ecbs k"
  "fld g (set_cell h v k) = fld g k"
  "cfg_event_limit (set_cell h v k) = cfg_event_limit k"
  "cfg_evtt_limit (set_cell h v k) = cfg_evtt_limit k"
  "cfg_tick_us (set_cell h v k) = cfg_tick_us k"
  "evtts (set_cell h v k) = evtts k"
  "vms (set_cell h v k) = vms k"
  "ptEventFree (set_cell h v k) = ptEventFree k"
  "ptEventReady (set_cell h v k) = ptEventReady k"
  "ptEventRunning (set_cell h v k) = ptEventRunning k"
  "ptEventDelay (set_cell h v k) = ptEventDelay k"
  "ptWaitFreeVm (set_cell h v k) = ptWaitFreeVm k"
  "RRS_Slice (set_cell h v k) = RRS_Slice k"
  "RunningStartTime (set_cell h v k) = RunningStartTime k"
  "OsTicks (set_cell h v k) = OsTicks k"
  "SysTime (set_cell h v k) = SysTime k"
  "ScheduleEnable (set_cell h v k) = ScheduleEnable k"
  "MultiEventStarted (set_cell h v k) = MultiEventStarted k"
  "en_asyn_signal_counter (set_cell h v k) = en_asyn_signal_counter k"
  "nest_asyn_signal (set_cell h v k) = nest_asyn_signal k"
  "kout (set_cell h v k) = kout k"
  by (simp_all add: set_cell_def fld_def)

lemmas set_ecb_defs [knl_defs] = set_next_def set_previous_def set_multi_next_def set_multi_previous_def

lemma upd_ecb_ecbs [simp]: "(upd_ecb i f k)\<lparr>ecbs := X\<rparr> = k\<lparr>ecbs := X\<rparr>"
  by (simp add: upd_ecb_def)

lemma ecbs_upd_ecb: "ecbs (upd_ecb i f k) = (ecbs k)(i := f (ecbs k i))"
  by (simp add: upd_ecb_def)

section \<open>A sample kernel\<close>

text \<open>Concrete states for the witnesses of the theorems: event 0 is the system service event
  (priority 250), events 1 to 3 have priorities 100, 100 and 50; events 1 and 0 are ready and
  event 1 is running.\<close>

definition ecb0 :: EventECB where
  "ecb0 = \<lparr>ecb_next = None, ecb_previous = None, multi_next = None, multi_previous = None,
     vm = None, param1 = 0, param2 = 0, userdata = 0, sync_head = None, EventStartTime = 0,
     consumed_time = 0, consumed_time_second = 0, consumed_time_record = 0,
     delay_start_tick = 0, delay_end_tick = 0, error_no = EN_NO_ERROR, event_result = 0,
     wait_mem_size = 0, HeapSize = 0, HeapSizeMax = 0, wakeup_from = 0, event_status = 0,
     prio_base = 100, prio = 100, evtt_id = 0, sync_counter = 0, event_id = 0, local_memory = 0\<rparr>"

definition evtt0 :: EventType where
  "evtt0 = \<lparr>correlative = False, registered = False, inuse = False, deleting = False,
     my_free_vm = None, SchHook = 0, evtt_name = [], default_prio = 0, correlativeID = 0,
     events = 0, vpus_res = 0, vpus_limit = 0, vpus = 0, thread_routine = 0, stack_size = 0,
     pop_times = 0\<rparr>"

definition vm0 :: ThreadVm where
  "vm0 = \<lparr>stack_top = 0, stack_used = 0, vm_next = None, vm_stack_size = 0, host_vm = None\<rparr>"

definition sample_ecbs :: "nat \<Rightarrow> EventECB" where
  "sample_ecbs = (\<lambda>_. ecb0)(
     0 := ecb0\<lparr>ecb_next := Some 1, ecb_previous := Some 1, multi_next := Some 1, multi_previous := Some 1,
            prio := 250, prio_base := 250\<rparr>,
     1 := ecb0\<lparr>ecb_next := Some 0, ecb_previous := Some 0, multi_next := Some 0, multi_previous := Some 0,
            event_id := 1\<rparr>,
     2 := ecb0\<lparr>event_id := 2\<rparr>,
     3 := ecb0\<lparr>event_id := 3, prio := 50, prio_base := 50\<rparr>)"

definition sample_kernel :: kernel where
  "sample_kernel = \<lparr>cfg_event_limit = 8, cfg_evtt_limit = 4, cfg_tick_us = 1000,
     ecbs = sample_ecbs, evtts = (\<lambda>_. evtt0), vms = (\<lambda>_. vm0), cells = (\<lambda>_. None),
     ptEventFree = None, ptEventReady = 1, ptEventRunning = 1, ptEventDelay = None,
     ptWaitFreeVm = None, RRS_Slice = 1, RunningStartTime = 0, OsTicks = 0, SysTime = 0,
     ScheduleEnable = True, MultiEventStarted = True, en_asyn_signal_counter = 0,
     nest_asyn_signal = 0, kout = []\<rparr>"

text \<open>A busier state, which any further component may extend: events 2 and 3 wait with a time limit
  (alarms 5 and 9) for semaphore 0 and mutex 0, events 4 and 5 wait without a limit for semaphore 1, event 6
  for the completion of the event type 2 and event 7 for that of event 1; the ready events 1 and 0 own
  threads; the blocks 8 and 9 are free; the types 0 to 2 are registered.\<close>

definition busy_ecbs :: "nat \<Rightarrow> EventECB" where
  "busy_ecbs = sample_ecbs(
     0 := (sample_ecbs 0)\<lparr>vm := Some 4096\<rparr>,
     1 := (sample_ecbs 1)\<lparr>vm := Some 8192\<rparr>,
     2 := (sample_ecbs 2)\<lparr>ecb_next := Some 3, ecb_previous := Some 3, multi_next := Some 2, multi_previous := Some 2,
            delay_end_tick := 5, event_status := 0x82, sync_head := Some (SempSync 0)\<rparr>,
     3 := (sample_ecbs 3)\<lparr>ecb_next := Some 2, ecb_previous := Some 2, multi_next := Some 3, multi_previous := Some 3,
            delay_end_tick := 9, event_status := 0x102, sync_head := Some (MutexSync 0)\<rparr>,
     4 := ecb0\<lparr>event_id := 4, multi_next := Some 5, multi_previous := Some 5, event_status := 0x80,
            sync_head := Some (SempSync 1)\<rparr>,
     5 := ecb0\<lparr>event_id := 5, multi_next := Some 4, multi_previous := Some 4, event_status := 0x40080, prio := 50,
            sync_head := Some (SempSync 1)\<rparr>,
     6 := ecb0\<lparr>event_id := 6, multi_next := Some 6, multi_previous := Some 6, event_status := 0x20,
            sync_head := Some (EvttDone 2), sync_counter := 1\<rparr>,
     7 := ecb0\<lparr>event_id := 7, multi_next := Some 7, multi_previous := Some 7, event_status := 0x4,
            sync_head := Some (EcbSync 1)\<rparr>,
     8 := ecb0\<lparr>event_id := 8, evtt_id := 0xFFFF, ecb_next := Some 9, ecb_previous := Some ev_free_addr\<rparr>,
     9 := ecb0\<lparr>event_id := 9, evtt_id := 0xFFFF, ecb_previous := Some ev_free_addr\<rparr>)"

definition busy_evtts :: "nat \<Rightarrow> EventType" where
  "busy_evtts = (\<lambda>_. evtt0)(
     0 := evtt0\<lparr>correlative := True, registered := True, inuse := True, evtt_name := ''sys_idle'', default_prio := 250,
            events := 1, vpus := 1\<rparr>,
     1 := evtt0\<lparr>registered := True, evtt_name := ''app'', default_prio := 90, vpus_limit := 2\<rparr>,
     2 := evtt0\<lparr>correlative := True, registered := True, inuse := True, evtt_name := ''net'', default_prio := 100\<rparr>)"

definition busy_cells :: "qhead \<Rightarrow> nat option" where
  "busy_cells = (\<lambda>_. None)(SempSync 0 := Some 2, MutexSync 0 := Some 3, SempSync 1 := Some 4,
     EvttDone 2 := Some 6, EcbSync 1 := Some 7)"

definition busy_syncs :: "qhead \<Rightarrow> nat list" where
  "busy_syncs = (\<lambda>_. [])(SempSync 0 := [2], MutexSync 0 := [3], SempSync 1 := [4, 5], EvttDone 2 := [6], EcbSync 1 := [7])"

definition busy_kernel :: "'a \<Rightarrow> 'a kernel_scheme" where
  "busy_kernel m = \<lparr>cfg_event_limit = 10, cfg_evtt_limit = 4, cfg_tick_us = 1000,
     ecbs = busy_ecbs, evtts = busy_evtts, vms = (\<lambda>_. vm0), cells = busy_cells,
     ptEventFree = Some 8, ptEventReady = 1, ptEventRunning = 1, ptEventDelay = Some 2,
     ptWaitFreeVm = None, RRS_Slice = 1, RunningStartTime = 0, OsTicks = 0, SysTime = 0,
     ScheduleEnable = True, MultiEventStarted = True, en_asyn_signal_counter = 0,
     nest_asyn_signal = 0, kout = [], \<dots> = m\<rparr>"

end
