(* ===== verification/Djy_Ready.thy ===== *)
theory Djy_Ready
  imports Djy_Kernel
begin

text \<open>
  The ready queue: \<open>__DJY_EventReady\<close> and \<open>__DJY_CutReadyEvent\<close> of
  \<open>src/djyos/core/djyos.c\<close>.  The queue is a circular list through \<open>next\<close> and \<open>previous\<close>, in
  priority order, and the first events of the priorities form a second circular list through
  \<open>multi_next\<close> and \<open>multi_previous\<close>.  \<open>ready_rep k L\<close> says that the pointers represent the list
  \<open>L\<close>; the two operations are then shown to be a stable sorted insertion and a removal.
\<close>

abbreviation "pr \<equiv> fld prio"

definition DJY_EventReady :: "nat \<Rightarrow> 'a kernel_scheme \<Rightarrow> 'a kernel_scheme option" where
  "DJY_EventReady event_ready k = do {
     event \<leftarrow> ring_walk (mnx k) (\<lambda>x. pr k x \<le> pr k event_ready) (ptEventReady k) (ptEventReady k);
     let k = set_next event_ready (Some event) k;
     let k = set_previous event_ready (pv k event) k;
     p \<leftarrow> pv k event;
     let k = set_next p (Some event_ready) k;
     let k = set_previous event (Some event_ready) k;
     q \<leftarrow> pv k event_ready;
     k \<leftarrow> (if pr k event_ready \<noteq> pr k q then do {
            m \<leftarrow> mpv k event;
            let k = set_multi_next m (Some event_ready) k;
            let k = set_multi_previous event_ready (mpv k event) k;
            let k = set_multi_previous event (Some event_ready) k;
            Some (set_multi_next event_ready (Some event) k) }
          else Some (set_multi_previous event_ready None (set_multi_next event_ready None k)));
     Some (if pr k event_ready < pr k (ptEventReady k) then k\<lparr>ptEventReady := event_ready\<rparr> else k) }"

definition cut_multi :: "nat \<Rightarrow> nat \<Rightarrow> 'a kernel_scheme \<Rightarrow> 'a kernel_scheme option" where
  "cut_multi event pl_ecb k =
     (if pr k pl_ecb = pr k event then do {
        m \<leftarrow> mpv k event;
        let k = set_multi_next m (Some pl_ecb) k;
        let k = set_multi_previous pl_ecb (mpv k event) k;
        n \<leftarrow> mnx k event;
        let k = set_multi_previous n (Some pl_ecb) k;
        Some (set_multi_next pl_ecb (mnx k event) k) }
      else do {
        let k = set_multi_previous pl_ecb (mpv k event) k;
        m \<leftarrow> mpv k event;
        Some (set_multi_next m (Some pl_ecb) k) })"

definition unlink :: "nat \<Rightarrow> 'a kernel_scheme \<Rightarrow> 'a kernel_scheme option" where
  "unlink event k = do {
     n \<leftarrow> nx k event;
     let k = set_previous n (pv k event) k;
     p \<leftarrow> pv k event;
     Some (set_next p (nx k event) k) }"

definition DJY_CutReadyEvent :: "nat \<Rightarrow> 'a kernel_scheme \<Rightarrow> 'a kernel_scheme option" where
  "DJY_CutReadyEvent event k =
     (if event \<noteq> ptEventReady k then
        (if mnx k event = None then unlink event k
         else do {
           pl_ecb \<leftarrow> nx k event;
           k \<leftarrow> unlink event k;
           cut_multi event pl_ecb k })
      else do {
        pl_ecb \<leftarrow> nx k event;
        let k = k\<lparr>ptEventReady := pl_ecb\<rparr>;
        k \<leftarrow> unlink event k;
        cut_multi event pl_ecb k })"

definition ready_rep :: "'a kernel_scheme \<Rightarrow> nat list \<Rightarrow> bool" where
  "ready_rep k L \<longleftrightarrow> L \<noteq> [] \<and> ptEventReady k = hd L \<and> sorted (map (pr k) L) \<and>
     cdll (nx k) (pv k) L \<and> cdll (mnx k) (mpv k) (gheads (pr k) L) \<and>
     (\<forall>e\<in>set L - set (gheads (pr k) L). mnx k e = None \<and> mpv k e = None)"

definition ecb_data :: "EventECB \<Rightarrow> EventECB" where
  "ecb_data e = e\<lparr>ecb_next := None, ecb_previous := None, multi_next := None, multi_previous := None\<rparr>"

definition relinked :: "nat set \<Rightarrow> 'a kernel_scheme \<Rightarrow> 'a kernel_scheme \<Rightarrow> bool" where
  "relinked S k k' \<longleftrightarrow> k'\<lparr>ecbs := ecbs k, ptEventReady := ptEventReady k\<rparr> = k \<and>
     (\<forall>i. ecb_data (ecbs k' i) = ecb_data (ecbs k i)) \<and> (\<forall>i. i \<notin> S \<longrightarrow> ecbs k' i = ecbs k i)"

lemma relinked_refl [simp, relink]: "relinked S k k"
  by (simp add: relinked_def)

lemma relinked_steps [relink]:
  "relinked S k k1 \<Longrightarrow> i \<in> S \<Longrightarrow> relinked S k (set_next i v k1)"
  "relinked S k k1 \<Longrightarrow> i \<in> S \<Longrightarrow> relinked S k (set_previous i v k1)"
  "relinked S k k1 \<Longrightarrow> i \<in> S \<Longrightarrow> relinked S k (set_multi_next i v k1)"
  "relinked S k k1 \<Longrightarrow> i \<in> S \<Longrightarrow> relinked S k (set_multi_previous i v k1)"
  "relinked S k k1 \<Longrightarrow> relinked S k (k1\<lparr>ptEventReady := e\<rparr>)"
  by (auto simp: relinked_def set_ecb_defs upd_ecb_def ecb_data_def)

lemma ready_repD:
  assumes "ready_rep k L"
  shows "L \<noteq> []" "ptEventReady k = hd L" "sorted (map (pr k) L)" "cdll (nx k) (pv k) L"
    "cdll (mnx k) (mpv k) (gheads (pr k) L)" "distinct L"
    "e \<in> set L \<Longrightarrow> e \<notin> set (gheads (pr k) L) \<Longrightarrow> mnx k e = None \<and> mpv k e = None"
  using assms by (auto simp: ready_rep_def cdll_def)

lemma EventReady_refines:
  assumes rep: "ready_rep k L" and e: "e \<notin> set L"
  shows "\<exists>k'. DJY_EventReady e k = Some k' \<and>
     ready_rep k' (walk_insert (\<lambda>x. pr k x \<le> pr k e) e L) \<and> relinked (insert e (set L)) k k'"
proof -
  note R = ready_repD [OF rep]
  let ?P = "\<lambda>x. pr k x \<le> pr k e"
  let ?G = "gheads (pr k) L" and ?L' = "walk_insert ?P e L"
  define s where "s = walk_stop ?P L"
  define T where "T = takeWhile ?P L"
  have sG: "walk_stop ?P ?G = s" unfolding s_def by (rule walk_stop_gheads)
  have s: "s \<in> set L" "s \<in> set ?G" "e \<noteq> s"
    using walk_stop_in [of ?G ?P] walk_stop_in [of L ?P] R(1) e sG by (auto simp: s_def)
  have walk: "ring_walk (mnx k) ?P (hd L) (hd L) = Some s"
    using ring_walk_cdll [OF R(5)] sG by simp
  obtain q where q: "pv k s = Some q" "q \<in> set L" using cdll_next_prev_Some [OF R(4) s(1)] by auto
  obtain m where m: "mpv k s = Some m" "m \<in> set ?G" using cdll_next_prev_Some [OF R(5) s(2)] by auto
  have mL: "m \<in> set L" using m set_gheads by fastforce
  have neq: "e \<noteq> q" "e \<noteq> m" using q mL e by auto
  have qT: "q = (if T = [] then last L else last T)"
    using cdll_walk_stop_prev [OF R(4), of ?P] q(1) by (auto simp: s_def T_def split: if_splits)
  have T: "pr k q = pr k e \<longleftrightarrow> T \<noteq> [] \<and> pr k (last T) = pr k e"
  proof (cases "T = []")
    case True
    then have "\<not> pr k (hd L) \<le> pr k e" using R(1) by (cases L) (auto simp: T_def split: if_splits)
    moreover have "pr k (hd L) \<le> pr k (last L)" using R(1,3) by (cases L) auto
    ultimately show ?thesis using True qT by auto
  qed (simp add: qT)
  have G': "gheads (pr k) ?L' = (if pr k q = pr k e then ?G else walk_insert ?P e ?G)"
    unfolding T using gheads_walk_insert [of "\<lambda>v. v \<le> pr k e" "pr k" e L] by (simp add: T_def)
  have ring: "cdll ((nx k)(e := Some s, q := Some e)) ((pv k)(e := Some q, s := Some e)) ?L'"
    using cdll_walk_insert [OF R(4) e, of ?P q] q by (simp add: s_def)
  have mring: "cdll ((mnx k)(e := Some s, m := Some e)) ((mpv k)(e := Some m, s := Some e)) (walk_insert ?P e ?G)"
    using cdll_walk_insert [OF R(5), of e ?P m] m sG e set_gheads by fastforce
  have hd': "hd ?L' = (if pr k e < pr k (hd L) then e else hd L)"
    using R(1) by (auto simp: hd_walk_insert)
  have srt: "sorted (map (pr k) ?L')" by (rule sorted_walk_insert [OF R(3)])
  have ne: "?L' \<noteq> []" by (simp add: walk_insert_def)
  note S = walk q m neq s neq(1)[symmetric] neq(2)[symmetric] s(3)[symmetric]
  let ?k2 = "set_previous s (Some e) (set_next q (Some e) (set_previous e (Some q) (set_next e (Some s) k)))"
  show ?thesis
  proof (cases "pr k e = pr k q")
    case True
    let ?k3 = "set_multi_previous e None (set_multi_next e None ?k2)"
    have "DJY_EventReady e k = Some (if pr k e < pr k (hd L) then ?k3\<lparr>ptEventReady := e\<rparr> else ?k3)"
      unfolding DJY_EventReady_def by (simp add: Let_def S R(2) True [symmetric] set_ecb_defs)
    moreover have "ready_rep (if pr k e < pr k (hd L) then ?k3\<lparr>ptEventReady := e\<rparr> else ?k3) ?L'"
    proof -
      have "e \<notin> set ?G" using e set_gheads by fastforce
      then show ?thesis using ring R hd' srt ne True G' e
        by (auto simp: ready_rep_def set_ecb_defs cdll_frame)
    qed
    moreover have "relinked (insert e (set L)) k (if pr k e < pr k (hd L) then ?k3\<lparr>ptEventReady := e\<rparr> else ?k3)"
      using q s by (auto intro!: relinked_steps)
    ultimately show ?thesis by blast
  next
    case False
    let ?k3 = "set_multi_next e (Some s) (set_multi_previous s (Some e) (set_multi_previous e (Some m) (set_multi_next m (Some e) ?k2)))"
    have "DJY_EventReady e k = Some (if pr k e < pr k (hd L) then ?k3\<lparr>ptEventReady := e\<rparr> else ?k3)"
      unfolding DJY_EventReady_def by (simp add: Let_def S R(2) False set_ecb_defs)
    moreover have "ready_rep (if pr k e < pr k (hd L) then ?k3\<lparr>ptEventReady := e\<rparr> else ?k3) ?L'"
    proof -
      have "x \<noteq> m" "x \<noteq> s" "x \<noteq> e" if "x \<in> set L" "x \<notin> set ?G" for x
        using that m s e by auto
      then show ?thesis using ring mring R hd' srt ne False G' e neq
        by (auto simp: ready_rep_def set_ecb_defs fun_upd_twist)
    qed
    moreover have "relinked (insert e (set L)) k (if pr k e < pr k (hd L) then ?k3\<lparr>ptEventReady := e\<rparr> else ?k3)"
      using q s mL by (auto intro!: relinked_steps)
    ultimately show ?thesis by blast
  qed
qed

lemma unlink_eq:
  "nx k e = Some n \<Longrightarrow> pv k e = Some p \<Longrightarrow>
   unlink e k = Some (set_next p (Some n) (set_previous n (Some p) k))"
  by (auto simp: unlink_def set_ecb_defs Let_def)

lemma cut_multi_last:
  assumes "cdll (mnx k) (mpv k) (A @ e # B)" "A @ B \<noteq> []" "pl = hd (B @ A)" "pr k pl \<noteq> pr k e"
  shows "\<exists>k'. cut_multi e pl k = Some k' \<and> cdll (mnx k') (mpv k') (A @ B) \<and>
    nx k' = nx k \<and> pv k' = pv k \<and> ptEventReady k' = ptEventReady k \<and> pr k' = pr k \<and>
    (\<forall>x. x \<notin> set (A @ e # B) \<longrightarrow> mnx k' x = mnx k x \<and> mpv k' x = mpv k x) \<and>
    relinked (set (A @ e # B)) k k'"
proof -
  obtain nn mm where nm: "mnx k e = Some nn" "mpv k e = Some mm"
    and S: "nn \<in> set (A @ e # B)" "mm \<in> set (A @ e # B)"
    using cdll_next_prev_Some [OF assms(1), of e] by auto
  have "cdll (mnx k) (mpv k) (e # B @ A)" using cdll_rotate [OF assms(1)] by simp
  from cdll_nextD [OF this] have nn: "nn = pl" 
    using nm assms(2,3) by (cases B; cases A) auto
  have d: "distinct (A @ e # B)" using assms(1) by (simp add: cdll_def)
  then have "e \<noteq> pl" using assms(2,3) by (cases B; cases A) auto
  then have "cut_multi e pl k = Some (set_multi_next mm (Some pl) (set_multi_previous pl (Some mm) k))"
    using assms(4) nm nn by (simp add: cut_multi_def set_ecb_defs Let_def)
  moreover have "A @ e # B \<noteq> [e]" using assms(2) by (cases A) auto
  then have "cdll ((mnx k)(mm := Some pl)) ((mpv k)(pl := Some mm)) (A @ B)"
    using cdll_remove [OF assms(1), of e nn mm] nm nn d by (auto simp: remove1_append)
  ultimately show ?thesis using nn S
    by (auto simp: set_ecb_defs [abs_def] intro!: relinked_steps [unfolded set_ecb_defs])
qed

lemma cut_multi_same:
  assumes "cdll (mnx k) (mpv k) (A @ e # B)" "pl \<notin> set (A @ e # B)" "pr k pl = pr k e"
  shows "\<exists>k'. cut_multi e pl k = Some k' \<and> cdll (mnx k') (mpv k') (A @ pl # B) \<and>
    nx k' = nx k \<and> pv k' = pv k \<and> ptEventReady k' = ptEventReady k \<and> pr k' = pr k \<and>
    (\<forall>x. x \<notin> insert pl (set (A @ e # B)) \<longrightarrow> mnx k' x = mnx k x \<and> mpv k' x = mpv k x) \<and>
    relinked (insert pl (set (A @ e # B))) k k'"
proof -
  obtain nn mm where nm: "mnx k e = Some nn" "mpv k e = Some mm"
    and S: "nn \<in> set (A @ e # B)" "mm \<in> set (A @ e # B)"
    using cdll_next_prev_Some [OF assms(1), of e] by auto
  have d: "distinct (A @ e # B)" using assms(1) by (simp add: cdll_def)
  have rot: "cdll (mnx k) (mpv k) (e # B @ A)" using cdll_rotate [OF assms(1)] by simp
  have ple: "pl \<noteq> e" using assms(2) by auto
  show ?thesis
  proof (cases "A @ B = []")
    case True
    then have "nn = e" "mm = e" using cdll_nextD [OF rot] cdll_prevD [OF rot] nm by auto
    then have "cut_multi e pl k = Some (set_multi_next pl (Some pl) (set_multi_previous pl (Some pl)
        (set_multi_previous pl (Some e) (set_multi_next e (Some pl) k))))"
      using assms(3) nm ple by (simp add: cut_multi_def set_ecb_defs Let_def)
    then show ?thesis using True
      by (auto simp: cdll_def set_ecb_defs [abs_def] intro!: relinked_steps [unfolded set_ecb_defs])
  next
    case False
    have "mm = last (B @ A)" using cdll_prevD [OF rot] nm False by (auto split: if_splits)
    then have "mm \<in> set (B @ A)" using False by (metis append_is_Nil_conv last_in_set)
    then have "mm \<noteq> e" using d by auto
    then have "cut_multi e pl k = Some (set_multi_next pl (Some nn) (set_multi_previous nn (Some pl)
        (set_multi_previous pl (Some mm) (set_multi_next mm (Some pl) k))))"
      using assms(3) nm ple by (simp add: cut_multi_def set_ecb_defs Let_def)
    moreover have "cdll ((mnx k)(mm := Some pl, pl := Some nn)) ((mpv k)(pl := Some mm, nn := Some pl)) (A @ pl # B)"
      using cdll_replace [OF assms(1) False assms(2) nm] .
    ultimately show ?thesis using S
      by (auto simp: set_ecb_defs [abs_def] intro!: relinked_steps [unfolded set_ecb_defs])
  qed
qed

lemma relinked_trans:
  assumes "relinked S k k1" "relinked S k1 k2"
  shows "relinked S k k2"
proof -
  have "k2\<lparr>ecbs := ecbs k, ptEventReady := ptEventReady k\<rparr> =
    (k2\<lparr>ecbs := ecbs k1, ptEventReady := ptEventReady k1\<rparr>)\<lparr>ecbs := ecbs k, ptEventReady := ptEventReady k\<rparr>"
    by simp
  with assms show ?thesis unfolding relinked_def by simp
qed

lemma relinked_mono: "relinked S k k' \<Longrightarrow> S \<subseteq> T \<Longrightarrow> relinked T k k'"
  by (auto simp: relinked_def)

text \<open>The removal, for an event that is not the first of its priority.\<close>

lemma CutReadyEvent_nonhead:
  assumes rep: "ready_rep k (us @ e # vs)" and nh: "us \<noteq> []" "pr k (last us) = pr k e"
  shows "\<exists>k'. DJY_CutReadyEvent e k = Some k' \<and> ready_rep k' (us @ vs) \<and>
    relinked (set (us @ e # vs)) k k'"
proof -
  note R = ready_repD [OF rep]
  obtain n p where np: "nx k e = Some n" "pv k e = Some p"
    and S: "n \<in> set (us @ e # vs)" "p \<in> set (us @ e # vs)"
    using cdll_next_prev_Some [OF R(4), of e] by auto
  have G: "e \<notin> set (gheads (pr k) (us @ e # vs))" using in_gheads_iff [OF R(6), of "pr k"] nh by simp
  have "us @ e # vs \<noteq> [e]" using nh by (cases us) auto
  from cdll_remove [OF R(4) _ this np]
  have ring: "cdll ((nx k)(p := Some n)) ((pv k)(n := Some p)) (us @ vs)"
    using R(6) by (auto simp: remove1_append)
  have "DJY_CutReadyEvent e k = unlink e k"
    using R(2,6,7) G nh by (cases us) (auto simp: DJY_CutReadyEvent_def)
  moreover have "unlink e k = Some (set_next p (Some n) (set_previous n (Some p) k))"
    using unlink_eq [OF np] .
  moreover have "ready_rep (set_next p (Some n) (set_previous n (Some p) k)) (us @ vs)"
    unfolding ready_rep_def using R ring nh gheads_mid_same [OF nh, of vs]
    by (auto simp: set_ecb_defs [abs_def] sorted_append)
  moreover have "relinked (set (us @ e # vs)) k (set_next p (Some n) (set_previous n (Some p) k))"
    using S by (auto intro!: relinked_steps)
  ultimately show ?thesis by simp
qed

text \<open>The removal of the first event of a priority: the pointer steps after the common ones.\<close>

lemma CutReadyEvent_head_steps:
  assumes rep: "ready_rep k (us @ e # vs)" and h: "us = [] \<or> pr k (last us) \<noteq> pr k e"
    and ne: "us @ vs \<noteq> []"
  obtains k1 where "DJY_CutReadyEvent e k = cut_multi e (hd (vs @ us)) k1"
    "ptEventReady k1 = hd (us @ vs)" "cdll (nx k1) (pv k1) (us @ vs)"
    "mnx k1 = mnx k" "mpv k1 = mpv k" "pr k1 = pr k" "relinked (set (us @ e # vs)) k k1"
proof -
  note R = ready_repD [OF rep]
  obtain n p where np: "nx k e = Some n" "pv k e = Some p"
    and S: "n \<in> set (us @ e # vs)" "p \<in> set (us @ e # vs)"
    using cdll_next_prev_Some [OF R(4), of e] by auto
  have "cdll (nx k) (pv k) (e # vs @ us)" using cdll_rotate [OF R(4)] by simp
  from cdll_nextD [OF this] have n: "n = hd (vs @ us)"
    using np ne by (cases vs; cases us) auto
  have "us @ e # vs \<noteq> [e]" using ne by (cases us) auto
  from cdll_remove [OF R(4) _ this np]
  have ring: "cdll ((nx k)(p := Some n)) ((pv k)(n := Some p)) (us @ vs)"
    using R(6) by (auto simp: remove1_append)
  have G: "e \<in> set (gheads (pr k) (us @ e # vs))" using in_gheads_iff [OF R(6), of "pr k"] h by simp
  then have mn: "mnx k e \<noteq> None" using cdll_next_prev_Some [OF R(5), of e] by auto
  let ?k0 = "if us = [] then k\<lparr>ptEventReady := n\<rparr> else k"
  let ?k1 = "set_next p (Some n) (set_previous n (Some p) ?k0)"
  have "DJY_CutReadyEvent e k = (unlink e ?k0 \<bind> cut_multi e n)"
    using R(2,6) np mn by (cases us) (auto simp: DJY_CutReadyEvent_def)
  also have "unlink e ?k0 = Some ?k1" using np by (intro unlink_eq) auto
  finally have "DJY_CutReadyEvent e k = cut_multi e n ?k1" by simp
  moreover have "ptEventReady ?k1 = hd (us @ vs)"
    using R(2) n by (cases us) (auto simp: set_ecb_defs)
  moreover have "relinked (set (us @ e # vs)) k ?k1" using S by (auto intro!: relinked_steps)
  ultimately show ?thesis using ring n by (intro that [of ?k1]) (auto simp: set_ecb_defs [abs_def])
qed

lemma CutReadyEvent_head:
  assumes rep: "ready_rep k (us @ e # vs)" and h: "us = [] \<or> pr k (last us) \<noteq> pr k e"
    and ne: "us @ vs \<noteq> []"
  shows "\<exists>k'. DJY_CutReadyEvent e k = Some k' \<and> ready_rep k' (us @ vs) \<and>
    relinked (set (us @ e # vs)) k k'"
proof -
  note R = ready_repD [OF rep]
  obtain k1 where k1: "DJY_CutReadyEvent e k = cut_multi e (hd (vs @ us)) k1"
    "ptEventReady k1 = hd (us @ vs)" "cdll (nx k1) (pv k1) (us @ vs)"
    "mnx k1 = mnx k" "mpv k1 = mpv k" "pr k1 = pr k" "relinked (set (us @ e # vs)) k k1"
    by (rule CutReadyEvent_head_steps [OF assms])
  note lh = sorted_last_hd [OF R(3) h]
  let ?G = "gheads (pr k) (us @ e # vs)"
  have GL: "set ?G \<subseteq> set (us @ e # vs)" by (rule set_gheads)
  have srt: "sorted (map (pr k) (us @ vs))" using R(3) by (auto simp: sorted_append)
  show ?thesis
  proof (cases "vs \<noteq> [] \<and> pr k (hd vs) = pr k e")
    case True
    let ?A = "gheads (pr k) us" and ?B = "gheads (pr k) (dropWhile (\<lambda>y. pr k y = pr k e) vs)"
    have G: "?G = ?A @ e # ?B" by (rule gheads_mid_head [OF h])
    have G': "gheads (pr k) (us @ vs) = ?A @ hd vs # ?B" using gheads_remove_same [OF h] True by simp
    have vs: "hd (vs @ us) = hd vs" using True by simp
    have "distinct ((us @ [e]) @ hd vs # tl vs)" using R(6) True by auto
    from in_gheads_iff [OF this, of "pr k"] have nG: "hd vs \<notin> set ?G" using True by auto
    have "cdll (mnx k1) (mpv k1) (?A @ e # ?B)" using R(5) G k1 by simp
    from cut_multi_same [OF this, of "hd vs"] nG G True k1(6)
    obtain k2 where k2: "cut_multi e (hd vs) k1 = Some k2" "cdll (mnx k2) (mpv k2) (?A @ hd vs # ?B)"
      "nx k2 = nx k1" "pv k2 = pv k1" "ptEventReady k2 = ptEventReady k1" "pr k2 = pr k1"
      "\<And>x. x \<notin> insert (hd vs) (set ?G) \<Longrightarrow> mnx k2 x = mnx k1 x \<and> mpv k2 x = mpv k1 x"
      "relinked (insert (hd vs) (set ?G)) k1 k2" by auto
    have "mnx k2 x = None \<and> mpv k2 x = None" if "x \<in> set (us @ vs)" "x \<notin> set (?A @ hd vs # ?B)" for x
      using R(7) [of x] k2(7) [of x] k1 that R(6) G by auto
    then have "ready_rep k2 (us @ vs)" unfolding ready_rep_def using k1 k2 srt G' ne by auto
    moreover have "insert (hd vs) (set ?G) \<subseteq> set (us @ e # vs)" using GL True by auto
    then have "relinked (set (us @ e # vs)) k k2"
      using relinked_trans [OF k1(7) relinked_mono [OF k2(8)]] by blast
    ultimately show ?thesis using k1(1) k2(1) vs by auto
  next
    case False
    then have h2: "vs = [] \<or> pr k (hd vs) \<noteq> pr k e" by auto
    let ?A = "gheads (pr k) us" and ?B = "gheads (pr k) vs"
    have G: "?G = ?A @ e # ?B" by (rule gheads_remove_last [OF h h2])
    have G': "gheads (pr k) (us @ vs) = ?A @ ?B" by (rule gheads_split) (use lh(2) in auto)
    have pl: "hd (vs @ us) = hd (?B @ ?A)" by (cases "vs = []") auto
    have "pr k (hd (vs @ us)) \<noteq> pr k e"
    proof (cases "vs = []")
      case True
      then have "us \<noteq> []" using ne by auto
      moreover have "pr k (hd us) \<le> pr k (last us)" using \<open>us \<noteq> []\<close> R(3) by (cases us) (auto simp: sorted_append)
      ultimately show ?thesis using lh(1) True by auto
    qed (use h2 in auto)
    moreover have "cdll (mnx k1) (mpv k1) (?A @ e # ?B)" using R(5) G k1 by simp
    ultimately obtain k2 where k2: "cut_multi e (hd (vs @ us)) k1 = Some k2" "cdll (mnx k2) (mpv k2) (?A @ ?B)"
      "nx k2 = nx k1" "pv k2 = pv k1" "ptEventReady k2 = ptEventReady k1" "pr k2 = pr k1"
      "\<And>x. x \<notin> set ?G \<Longrightarrow> mnx k2 x = mnx k1 x \<and> mpv k2 x = mpv k1 x"
      "relinked (set ?G) k1 k2"
      using cut_multi_last [of k1 ?A e ?B "hd (vs @ us)"] ne pl k1(6) G by auto
    have "mnx k2 x = None \<and> mpv k2 x = None" if "x \<in> set (us @ vs)" "x \<notin> set (?A @ ?B)" for x
      using R(7) [of x] k2(7) [of x] k1 that R(6) G by auto
    then have "ready_rep k2 (us @ vs)" unfolding ready_rep_def using k1 k2 srt G' ne by auto
    moreover have "relinked (set (us @ e # vs)) k k2"
      using relinked_trans [OF k1(7) relinked_mono [OF k2(8) GL]] .
    ultimately show ?thesis using k1(1) k2(1) by auto
  qed
qed

lemma CutReadyEvent_refines:
  assumes rep: "ready_rep k L" and "e \<in> set L" "L \<noteq> [e]"
  shows "\<exists>k'. DJY_CutReadyEvent e k = Some k' \<and> ready_rep k' (remove1 e L) \<and> relinked (set L) k k'"
proof -
  obtain us vs where L: "L = us @ e # vs" "e \<notin> set us" using assms(2) by (meson split_list_first)
  then have "remove1 e L = us @ vs" "us @ vs \<noteq> []" using assms(3) by (auto simp: remove1_append)
  with CutReadyEvent_nonhead [of k us e vs] CutReadyEvent_head [of k us e vs] rep L
  show ?thesis by (cases "us = [] \<or> pr k (last us) \<noteq> pr k e") auto
qed

section \<open>The interface of the ready queue\<close>

text \<open>What the scheduler, the delay queue and the locks use of the ready queue: a list in priority
  order, first come first served among equals, whose head is the event to run.\<close>

locale prio_queue =
  fixes rep :: "'k \<Rightarrow> nat list \<Rightarrow> bool"
    and enq :: "nat \<Rightarrow> 'k \<Rightarrow> 'k option"
    and del :: "nat \<Rightarrow> 'k \<Rightarrow> 'k option"
    and head :: "'k \<Rightarrow> nat"
    and key :: "'k \<Rightarrow> nat \<Rightarrow> 'p::linorder"
  assumes rep_nonempty: "rep k L \<Longrightarrow> L \<noteq> []"
    and rep_head: "rep k L \<Longrightarrow> head k = hd L"
    and rep_sorted: "rep k L \<Longrightarrow> sorted (map (key k) L)"
    and rep_distinct: "rep k L \<Longrightarrow> distinct L"
    and enq_law: "rep k L \<Longrightarrow> e \<notin> set L \<Longrightarrow>
      \<exists>k'. enq e k = Some k' \<and> rep k' (walk_insert (\<lambda>x. key k x \<le> key k e) e L) \<and> key k' = key k"
    and del_law: "rep k L \<Longrightarrow> e \<in> set L \<Longrightarrow> L \<noteq> [e] \<Longrightarrow>
      \<exists>k'. del e k = Some k' \<and> rep k' (remove1 e L) \<and> key k' = key k"
begin

lemma head_most_urgent: "rep k L \<Longrightarrow> x \<in> set L \<Longrightarrow> key k (head k) \<le> key k x"
  using rep_head [of k L] rep_sorted [of k L] by (cases L) auto

lemma enq_preempts_iff:
  assumes "rep k L" "e \<notin> set L" "enq e k = Some k'"
  shows "head k' = (if key k e < key k (head k) then e else head k)"
proof -
  have "rep k' (walk_insert (\<lambda>x. key k x \<le> key k e) e L)" using enq_law [OF assms(1,2)] assms(3) by auto
  from rep_head [OF this] show ?thesis
    using rep_nonempty [OF assms(1)] rep_head [OF assms(1)] by (auto simp: hd_walk_insert)
qed

lemma enq_fifo:
  assumes "rep k L" "e \<notin> set L"
  obtains k' A B where "enq e k = Some k'" "rep k' (A @ e # B)" "L = A @ B"
    "\<And>x. x \<in> set A \<Longrightarrow> key k x \<le> key k e" "\<And>x. x \<in> set B \<Longrightarrow> key k e < key k x"
proof -
  let ?P = "\<lambda>x. key k x \<le> key k e"
  obtain k' where "enq e k = Some k'" "rep k' (takeWhile ?P L @ e # dropWhile ?P L)"
    using enq_law [OF assms] by (auto simp: walk_insert_def)
  moreover have "key k e < key k x" if x: "x \<in> set (dropWhile ?P L)" for x
  proof -
    have "sorted (map (key k) (dropWhile ?P L))"
      using rep_sorted [OF assms(1)] by (metis dropWhile_eq_drop drop_map sorted_wrt_drop)
    moreover have "dropWhile ?P L \<noteq> []" using x by (metis list.distinct(1) list.set_cases)
    moreover from this have "\<not> ?P (hd (dropWhile ?P L))" by (rule hd_dropWhile)
    ultimately show ?thesis using x
      by (cases "dropWhile ?P L") (auto simp del: dropWhile_eq_Cons_conv)
  qed
  ultimately show ?thesis using that by (metis set_takeWhileD takeWhile_dropWhile_id)
qed

lemma enq_del_roundtrip:
  assumes "rep k L" "e \<notin> set L"
  obtains k1 k2 where "enq e k = Some k1" "del e k1 = Some k2" "rep k2 L"
proof -
  let ?L = "walk_insert (\<lambda>x. key k x \<le> key k e) e L"
  obtain k1 where k1: "enq e k = Some k1" "rep k1 ?L" using enq_law [OF assms] by auto
  have "e \<notin> set (takeWhile (\<lambda>x. key k x \<le> key k e) L)" using assms(2) set_takeWhileD by metis
  then have L: "remove1 e ?L = L" by (simp add: walk_insert_def remove1_append)
  then have "?L \<noteq> [e]" using rep_nonempty [OF assms(1)] by auto
  from del_law [OF k1(2) _ this] L k1(1) that show ?thesis by auto
qed

end

lemma relinked_fld:
  assumes "relinked S k k'" "\<And>e. g (ecb_data e) = g e"
  shows "fld g k' = fld g k"
proof
  fix i
  have "ecb_data (ecbs k' i) = ecb_data (ecbs k i)" using assms(1) by (simp add: relinked_def)
  then show "fld g k' i = fld g k i" unfolding fld_def by (metis assms(2))
qed

lemma relinked_pr: "relinked S k k' \<Longrightarrow> pr k' = pr k"
  by (rule relinked_fld) (auto simp: ecb_data_def)

interpretation rq: prio_queue ready_rep DJY_EventReady DJY_CutReadyEvent ptEventReady "fld prio"
proof unfold_locales
  fix k L e
  show "ready_rep k L \<Longrightarrow> e \<notin> set L \<Longrightarrow> \<exists>k'. DJY_EventReady e k = Some k' \<and>
      ready_rep k' (walk_insert (\<lambda>x. pr k x \<le> pr k e) e L) \<and> pr k' = pr k"
    using EventReady_refines relinked_pr by metis
  show "ready_rep k L \<Longrightarrow> e \<in> set L \<Longrightarrow> L \<noteq> [e] \<Longrightarrow> \<exists>k'. DJY_CutReadyEvent e k = Some k' \<and>
      ready_rep k' (remove1 e L) \<and> pr k' = pr k"
    using CutReadyEvent_refines relinked_pr by metis
qed (auto dest: ready_repD)

section \<open>Properties\<close>

lemmas sample_defs = sample_kernel_def sample_ecbs_def ecb0_def

lemma sample_ready: "ready_rep sample_kernel [1, 0]"
  by (simp add: ready_rep_def sample_defs fld_def cdll_def)

text \<open>C1. \<open>__DJY_EventReady\<close> always finds its insertion point, returns, and inserts the event behind
  every ready event of the same or a more urgent priority and before every less urgent one; both
  circular lists (all events, first events of the priorities) stay consistent, and apart from the
  queue links of the ready events and \<open>g_ptEventReady\<close> nothing of the kernel changes.\<close>

theorem EventReady_inserts:
  assumes "ready_rep k L" "e \<notin> set L"
  shows "\<exists>k' A B. DJY_EventReady e k = Some k' \<and> L = A @ B \<and> ready_rep k' (A @ e # B) \<and>
    (\<forall>x\<in>set A. pr k x \<le> pr k e) \<and> (\<forall>x\<in>set B. pr k e < pr k x) \<and> relinked (insert e (set L)) k k'"
proof -
  obtain k' A B where 1: "DJY_EventReady e k = Some k'" "ready_rep k' (A @ e # B)" "L = A @ B"
    "\<And>x. x \<in> set A \<Longrightarrow> pr k x \<le> pr k e" "\<And>x. x \<in> set B \<Longrightarrow> pr k e < pr k x"
    by (rule rq.enq_fifo [OF assms]) blast
  moreover have "relinked (insert e (set L)) k k'" using EventReady_refines [OF assms] 1(1) by auto
  ultimately show ?thesis by blast
qed

theorem EventReady_inserts_witness:
  "\<exists>k' A B. DJY_EventReady 2 sample_kernel = Some k' \<and> [1, 0] = A @ B \<and> ready_rep k' (A @ 2 # B)"
  using EventReady_inserts [OF sample_ready, of 2] by auto

text \<open>C2. \<open>__DJY_CutReadyEvent\<close> takes an event out of the ready queue, wherever it stands in it and
  whether or not it is the first of its priority, keeps the order of the others and both circular
  lists, and touches nothing but queue links; the only excluded case is the removal of the last
  ready event, which the always ready system service event rules out.\<close>

theorem CutReadyEvent_removes:
  assumes "ready_rep k L" "e \<in> set L" "L \<noteq> [e]"
  shows "\<exists>k'. DJY_CutReadyEvent e k = Some k' \<and> ready_rep k' (remove1 e L) \<and> relinked (set L) k k'"
  using CutReadyEvent_refines [OF assms] .

theorem CutReadyEvent_removes_witness:
  "\<exists>k'. DJY_CutReadyEvent 1 sample_kernel = Some k' \<and> ready_rep k' [0]"
  using CutReadyEvent_removes [OF sample_ready, of 1] by auto

end
