(* ===== verification/Djy_Delay.thy ===== *)
theory Djy_Delay
  imports Djy_Ready
begin

text \<open>
  The alarm queue (events waiting for a point in time), the representation of the
  synchronisation queues, and the tick interrupt \<open>DJY_ScheduleIsr\<close> that moves expired events from
  both to the ready queue (\<open>src/djyos/core/djyos.c\<close>).  \<open>kinv k R D S\<close> is the invariant of all
  queues of the kernel: \<open>R\<close> is the ready queue, \<open>D\<close> the alarm queue, \<open>S h\<close> the queue of events
  that wait at the queue head \<open>h\<close>.
\<close>

abbreviation "det \<equiv> fld delay_end_tick"
abbreviation "shd \<equiv> fld sync_head"

abbreviation set_fld :: "((('v \<Rightarrow> 'v) \<Rightarrow> EventECB \<Rightarrow> EventECB)) \<Rightarrow> nat \<Rightarrow> 'v \<Rightarrow> 'a kernel_scheme \<Rightarrow> 'a kernel_scheme" where
  "set_fld u i v \<equiv> upd_ecb i (u (\<lambda>_. v))"

section \<open>Operations\<close>

text \<open>\<open>x->next = y; x->previous = y->previous; y->previous->next = x; y->previous = x;\<close>\<close>

definition link_before :: "nat \<Rightarrow> nat \<Rightarrow> 'a kernel_scheme \<Rightarrow> 'a kernel_scheme option" where
  "link_before x y k = do {
     let k = set_next x (Some y) k;
     let k = set_previous x (pv k y) k;
     p \<leftarrow> pv k y;
     let k = set_next p (Some x) k;
     Some (set_previous y (Some x) k) }"

definition DJY_GetSysTick :: "'a kernel_scheme \<Rightarrow> int" where
  "DJY_GetSysTick k = OsTicks k"

definition DJY_ResumeDelay :: "nat \<Rightarrow> 'a kernel_scheme \<Rightarrow> 'a kernel_scheme option" where
  "DJY_ResumeDelay delay_event k = do {
     d \<leftarrow> ptEventDelay k;
     k \<leftarrow> (if nx k d = Some d then Some (k\<lparr>ptEventDelay := None\<rparr>)
          else do {
            let k = (if delay_event = d then k\<lparr>ptEventDelay := nx k d\<rparr> else k);
            unlink delay_event k });
     let k = set_next delay_event None k;
     let k = set_previous delay_event None k;
     Some (set_fld delay_end_tick_update delay_event (DJY_GetSysTick k) k) }"

text \<open>The insertion of the running event into the alarm queue, the same statements in
  \<open>__DJY_AddToDelay\<close>, \<open>DJY_EventDelay\<close> and \<open>DJY_EventDelayTo\<close>.\<close>

definition delay_link :: "'a kernel_scheme \<Rightarrow> 'a kernel_scheme option" where
  "delay_link k = (let run = ptEventRunning k in
     case ptEventDelay k of
       None \<Rightarrow>
         (let k = set_next run (Some run) k; k = set_previous run (Some run) k
          in Some (k\<lparr>ptEventDelay := Some run\<rparr>))
     | Some d \<Rightarrow> do {
         event \<leftarrow> ring_walk (nx k) (\<lambda>x. det k x \<le> det k run) d d;
         k \<leftarrow> link_before run event k;
         Some (if det k run < det k d then k\<lparr>ptEventDelay := Some run\<rparr> else k) })"

text \<open>The number of ticks of a delay: rounded up to the next tick.\<close>

definition delay_ticks :: "u32 \<Rightarrow> 'a kernel_scheme \<Rightarrow> int" where
  "delay_ticks us k = (uint us + uint (cfg_tick_us k) - 1) div uint (cfg_tick_us k)"

definition DJY_AddToDelay :: "u32 \<Rightarrow> 'a kernel_scheme \<Rightarrow> 'a kernel_scheme option" where
  "DJY_AddToDelay us k = do {
     let run = ptEventRunning k;
     let k = set_fld delay_start_tick_update run (DJY_GetSysTick k) k;
     let k = set_fld delay_end_tick_update run (fld delay_start_tick k run + delay_ticks us k) k;
     delay_link k }"

text \<open>\<open>x->multi_previous->multi_next = x->multi_next; x->multi_next->multi_previous = x->multi_previous;\<close>\<close>

definition munlink :: "nat \<Rightarrow> 'a kernel_scheme \<Rightarrow> 'a kernel_scheme option" where
  "munlink x k = do {
     p \<leftarrow> mpv k x;
     let k = set_multi_next p (mnx k x) k;
     n \<leftarrow> mnx k x;
     Some (set_multi_previous n (mpv k x) k) }"

text \<open>The part of the tick interrupt that takes an expired event out of the synchronisation queue
  it waits in.\<close>

definition isr_leave_sync :: "nat \<Rightarrow> 'a kernel_scheme \<Rightarrow> 'a kernel_scheme option" where
  "isr_leave_sync pl_ecb k =
     (case shd k pl_ecb of
        None \<Rightarrow> Some k
      | Some h \<Rightarrow> do {
          k \<leftarrow> (if cells k h = Some pl_ecb then
                 (if mnx k pl_ecb = Some pl_ecb then Some (set_cell h None k)
                  else munlink pl_ecb (set_cell h (mnx k pl_ecb) k))
               else munlink pl_ecb k);
          let k = set_fld sync_head_update pl_ecb None k;
          let k = set_multi_next pl_ecb None k;
          Some (set_multi_previous pl_ecb None k) })"

text \<open>The loop over the expired events, and the round robin rotation of the running event.\<close>

partial_function (option) isr_wake :: "nat \<Rightarrow> 'a kernel_scheme \<Rightarrow> 'a kernel_scheme option" where
  "isr_wake pl_ecb k =
     (if det k pl_ecb \<le> OsTicks k then do {
        k \<leftarrow> isr_leave_sync pl_ecb k;
        let k = set_fld wakeup_from_update pl_ecb (fld event_status k pl_ecb) k;
        let k = set_fld event_status_update pl_ecb CN_STS_EVENT_READY k;
        if nx k pl_ecb = Some pl_ecb then DJY_EventReady pl_ecb (k\<lparr>ptEventDelay := None\<rparr>)
        else do {
          let k = k\<lparr>ptEventDelay := nx k pl_ecb\<rparr>;
          k \<leftarrow> unlink pl_ecb k;
          k \<leftarrow> DJY_EventReady pl_ecb k;
          d \<leftarrow> ptEventDelay k;
          isr_wake d k } }
      else Some k)"

definition rrs_rotate :: "'a kernel_scheme \<Rightarrow> 'a kernel_scheme option" where
  "rrs_rotate k = do {
     let run = ptEventRunning k;
     pl_ecb \<leftarrow> nx k run;
     pl_ecbn \<leftarrow> mnx k run;
     pl_ecbp \<leftarrow> mpv k run;
     let k = set_multi_next pl_ecbp (Some pl_ecb) k;
     let k = set_multi_previous pl_ecb (Some pl_ecbp) k;
     let k = set_multi_previous pl_ecbn (Some pl_ecb) k;
     let k = set_multi_next pl_ecb (Some pl_ecbn) k;
     let k = set_multi_next run None k;
     let k = set_multi_previous run None k;
     let k = (if ptEventReady k = run then k\<lparr>ptEventReady := pl_ecb\<rparr> else k);
     p \<leftarrow> pv k run;
     let k = set_next p (Some pl_ecb) k;
     let k = set_previous pl_ecb (pv k run) k;
     let k = set_previous run (pv k pl_ecbn) k;
     let k = set_next run (Some pl_ecbn) k;
     q \<leftarrow> pv k pl_ecbn;
     let k = set_next q (Some run) k;
     Some (set_previous pl_ecbn (Some run) k) }"

definition DJY_ScheduleIsr :: "u32 \<Rightarrow> 'a kernel_scheme \<Rightarrow> 'a kernel_scheme option" where
  "DJY_ScheduleIsr inc_ticks k = do {
     let k = k\<lparr>OsTicks := OsTicks k + uint inc_ticks\<rparr>;
     k \<leftarrow> (case ptEventDelay k of None \<Rightarrow> Some k | Some d \<Rightarrow> isr_wake d k);
     let run = ptEventRunning k;
     if RRS_Slice k \<noteq> 0 then do {
       n \<leftarrow> nx k run;
       if pr k run = pr k n \<and> run \<noteq> n \<and> (word_of_int (OsTicks k) :: u32) mod RRS_Slice k = 0
       then rrs_rotate k else Some k }
     else Some k }"

section \<open>The invariant of the queues\<close>

definition delay_rep :: "'a kernel_scheme \<Rightarrow> nat list \<Rightarrow> bool" where
  "delay_rep k D \<longleftrightarrow> (if D = [] then ptEventDelay k = None
     else ptEventDelay k = Some (hd D) \<and> cdll (nx k) (pv k) D \<and> sorted (map (det k) D))"

definition sync_rep :: "'a kernel_scheme \<Rightarrow> qhead \<Rightarrow> nat list \<Rightarrow> bool" where
  "sync_rep k h Q \<longleftrightarrow> (if Q = [] then cells k h = None
     else cells k h = Some (hd Q) \<and> cdll (mnx k) (mpv k) Q \<and> (\<forall>e\<in>set Q. shd k e = Some h))"

definition kinv :: "'a kernel_scheme \<Rightarrow> nat list \<Rightarrow> nat list \<Rightarrow> (qhead \<Rightarrow> nat list) \<Rightarrow> bool" where
  "kinv k R D S \<longleftrightarrow> ready_rep k R \<and> delay_rep k D \<and> (\<forall>h. sync_rep k h (S h)) \<and>
     set R \<inter> set D = {} \<and> (\<forall>h. set R \<inter> set (S h) = {}) \<and>
     (\<forall>e h. e \<in> set R \<union> set D \<longrightarrow> shd k e = Some h \<longrightarrow> e \<in> set (S h))"

lemma ready_rep_cong:
  assumes "ready_rep k R" "ptEventReady k' = ptEventReady k"
    and "\<And>x. x \<in> set R \<Longrightarrow> nx k' x = nx k x \<and> pv k' x = pv k x \<and> mnx k' x = mnx k x \<and>
           mpv k' x = mpv k x \<and> pr k' x = pr k x"
  shows "ready_rep k' R"
proof -
  note A = ready_repD [OF assms(1)]
  have G: "gheads (pr k') R = gheads (pr k) R" by (rule gheads_cong) (simp add: assms(3))
  have "cdll (nx k') (pv k') R" by (subst cdll_cong [of R _ "nx k" _ "pv k"]) (simp_all add: assms(3) A)
  moreover have "cdll (mnx k') (mpv k') (gheads (pr k) R)"
    using A(5) assms(3) set_gheads [of "pr k" R]
    by (subst cdll_cong [of _ _ "mnx k" _ "mpv k"]) auto
  moreover have M: "map (pr k') R = map (pr k) R" using assms(3) by simp
  ultimately show ?thesis using A assms(2,3) by (auto simp: ready_rep_def G M)
qed

lemma delay_rep_cong:
  assumes "delay_rep k D" "ptEventDelay k' = ptEventDelay k"
    and "\<And>x. x \<in> set D \<Longrightarrow> nx k' x = nx k x \<and> pv k' x = pv k x \<and> det k' x = det k x"
  shows "delay_rep k' D"
proof -
  have "cdll (nx k') (pv k') D = cdll (nx k) (pv k) D" using assms(3) by (intro cdll_cong) auto
  moreover have M: "map (det k') D = map (det k) D" using assms(3) by simp
  ultimately show ?thesis using assms(1,2) by (simp add: delay_rep_def M)
qed

lemma sync_rep_cong:
  assumes "sync_rep k h Q" "cells k' h = cells k h"
    and "\<And>x. x \<in> set Q \<Longrightarrow> mnx k' x = mnx k x \<and> mpv k' x = mpv k x \<and> shd k' x = shd k x"
  shows "sync_rep k' h Q"
proof -
  have "cdll (mnx k') (mpv k') Q = cdll (mnx k) (mpv k) Q" using assms(3) by (intro cdll_cong) auto
  then show ?thesis using assms by (auto simp: sync_rep_def)
qed

lemma sync_rep_disjoint:
  assumes "sync_rep k h Q" "sync_rep k h' Q'" "h \<noteq> h'"
  shows "set Q \<inter> set Q' = {}"
  using assms by (auto simp: sync_rep_def split: if_splits)

lemma kinvD:
  assumes "kinv k R D S"
  shows "ready_rep k R" "delay_rep k D" "sync_rep k h (S h)" "set R \<inter> set D = {}"
    "set R \<inter> set (S h) = {}" "e \<in> set R \<union> set D \<Longrightarrow> shd k e = Some h \<Longrightarrow> e \<in> set (S h)"
    "e \<in> set (S h) \<Longrightarrow> shd k e = Some h" "h \<noteq> h' \<Longrightarrow> set (S h) \<inter> set (S h') = {}"
    "e \<in> set R \<Longrightarrow> shd k e = None"
proof -
  have s: "\<And>h. sync_rep k h (S h)" using assms by (simp add: kinv_def)
  show "h \<noteq> h' \<Longrightarrow> set (S h) \<inter> set (S h') = {}" by (rule sync_rep_disjoint [OF s s])
  show "e \<in> set R \<Longrightarrow> shd k e = None"
    using assms by (cases "shd k e") (fastforce simp: kinv_def)+
  show "e \<in> set (S h) \<Longrightarrow> shd k e = Some h" using s [of h] by (auto simp: sync_rep_def split: if_splits)
qed (use assms in \<open>auto simp: kinv_def\<close>)

lemma delay_repD:
  assumes "delay_rep k D"
  shows "D = [] \<longleftrightarrow> ptEventDelay k = None" "D \<noteq> [] \<Longrightarrow> ptEventDelay k = Some (hd D)"
    "D \<noteq> [] \<Longrightarrow> cdll (nx k) (pv k) D" "sorted (map (det k) D)" "distinct D"
  using assms by (auto simp: delay_rep_def cdll_def split: if_splits)

lemma relinked_outside:
  assumes "relinked S k k'" "x \<notin> S"
  shows "fld g k' x = fld g k x"
  using assms by (simp add: relinked_def fld_def)

lemma relinked_kernel:
  assumes "relinked S k k'"
  shows "ptEventDelay k' = ptEventDelay k" "cells k' = cells k" "ptEventRunning k' = ptEventRunning k"
    "OsTicks k' = OsTicks k" "evtts k' = evtts k" "vms k' = vms k" "ptEventFree k' = ptEventFree k"
    "RRS_Slice k' = RRS_Slice k" "SysTime k' = SysTime k" "ScheduleEnable k' = ScheduleEnable k"
    "en_asyn_signal_counter k' = en_asyn_signal_counter k" "nest_asyn_signal k' = nest_asyn_signal k"
    "kout k' = kout k" "RunningStartTime k' = RunningStartTime k" "cfg_tick_us k' = cfg_tick_us k"
    "cfg_event_limit k' = cfg_event_limit k" "cfg_evtt_limit k' = cfg_evtt_limit k"
    "ptWaitFreeVm k' = ptWaitFreeVm k" "MultiEventStarted k' = MultiEventStarted k"
    "kernel.more k' = kernel.more k"
proof -
  have *: "k = k'\<lparr>ecbs := ecbs k, ptEventReady := ptEventReady k\<rparr>"
    using assms by (simp add: relinked_def)
  show "ptEventDelay k' = ptEventDelay k" "cells k' = cells k" "ptEventRunning k' = ptEventRunning k"
    "OsTicks k' = OsTicks k" "evtts k' = evtts k" "vms k' = vms k" "ptEventFree k' = ptEventFree k"
    "RRS_Slice k' = RRS_Slice k" "SysTime k' = SysTime k" "ScheduleEnable k' = ScheduleEnable k"
    "en_asyn_signal_counter k' = en_asyn_signal_counter k" "nest_asyn_signal k' = nest_asyn_signal k"
    "kout k' = kout k" "RunningStartTime k' = RunningStartTime k" "cfg_tick_us k' = cfg_tick_us k"
    "cfg_event_limit k' = cfg_event_limit k" "cfg_evtt_limit k' = cfg_evtt_limit k"
    "ptWaitFreeVm k' = ptWaitFreeVm k" "MultiEventStarted k' = MultiEventStarted k"
    "kernel.more k' = kernel.more k"
    by (subst *, simp)+
qed

lemma relinked_data:
  assumes "relinked S k k'"
  shows "det k' = det k" "shd k' = shd k" "fld event_status k' = fld event_status k"
    "fld wakeup_from k' = fld wakeup_from k" "fld vm k' = fld vm k" "fld evtt_id k' = fld evtt_id k"
    "fld prio_base k' = fld prio_base k" "fld sync_counter k' = fld sync_counter k"
    "fld delay_start_tick k' = fld delay_start_tick k"
  by (rule relinked_fld [OF assms], simp add: ecb_data_def)+

section \<open>Leaving a synchronisation queue\<close>

lemma munlink_eq:
  "mpv k e = Some p \<Longrightarrow> mnx k e = Some n \<Longrightarrow>
   munlink e k = Some (set_multi_previous n (Some p) (set_multi_next p (Some n) k))"
  by (auto simp: munlink_def set_ecb_defs Let_def)

text \<open>Taking an element out of a queue, seen from the queue: the pointers of the other elements
  are those of the old queue with the two neighbours joined.\<close>

lemma sync_rep_remove:
  assumes "sync_rep k h Q" "e \<in> set Q" "Q \<noteq> [e]" "mnx k e = Some n" "mpv k e = Some p"
    and "cells k' h = Some (hd (remove1 e Q))"
    and "\<And>x. x \<in> set Q \<Longrightarrow> x \<noteq> e \<Longrightarrow> mnx k' x = ((mnx k)(p := Some n)) x \<and>
           mpv k' x = ((mpv k)(n := Some p)) x \<and> shd k' x = shd k x"
  shows "sync_rep k' h (remove1 e Q)"
proof -
  have Q: "cdll (mnx k) (mpv k) Q" "\<forall>e\<in>set Q. shd k e = Some h" "distinct Q"
    using assms(1,2) by (auto simp: sync_rep_def cdll_def split: if_splits)
  have in': "x \<in> set (remove1 e Q) \<longleftrightarrow> x \<in> set Q \<and> x \<noteq> e" for x using Q(3) by auto
  have "cdll ((mnx k)(p := Some n)) ((mpv k)(n := Some p)) (remove1 e Q)"
    by (rule cdll_remove [OF Q(1) assms(2,3,4,5)])
  then have "cdll (mnx k') (mpv k') (remove1 e Q)"
    by (subst cdll_cong [of _ _ "(mnx k)(p := Some n)" _ "(mpv k)(n := Some p)"]) (use assms(7) in' in auto)
  moreover have "remove1 e Q \<noteq> []" using assms(2,3) by (cases Q) (auto split: if_splits)
  ultimately show ?thesis using assms(6,7) Q(2) in' by (auto simp: sync_rep_def)
qed

lemma sync_rep_last: "sync_rep k h [e] \<Longrightarrow> cells k' h = None \<Longrightarrow> sync_rep k' h (remove1 e [e])"
  by (simp add: sync_rep_def)

definition left_sync :: "nat \<Rightarrow> 'a kernel_scheme \<Rightarrow> 'a kernel_scheme \<Rightarrow> bool" where
  "left_sync e k k' \<longleftrightarrow> k'\<lparr>ecbs := ecbs k, cells := cells k\<rparr> = k \<and> shd k' e = None \<and>
     nx k' = nx k \<and> pv k' = pv k \<and> pr k' = pr k \<and> det k' = det k \<and>
     (\<forall>x. x \<noteq> e \<longrightarrow> shd k' x = shd k x) \<and>
     fld event_status k' = fld event_status k \<and> fld wakeup_from k' = fld wakeup_from k \<and>
     fld vm k' = fld vm k \<and> fld evtt_id k' = fld evtt_id k"

text \<open>An event leaves the synchronisation queue it waits in; its own links are of no concern.\<close>

lemma kinv_left:
  assumes inv: "kinv k R D S" and eh: "e \<in> set (S h)" and np: "mnx k e = Some n" "mpv k e = Some p"
    and heads: "ptEventReady k' = ptEventReady k" "ptEventDelay k' = ptEventDelay k"
      "cells k' = (cells k)(h := (if S h = [e] then None else Some (hd (remove1 e (S h)))))"
    and data: "nx k' = nx k" "pv k' = pv k" "pr k' = pr k" "det k' = det k" "shd k' = (shd k)(e := None)"
    and links: "\<And>x. x \<noteq> e \<Longrightarrow> mnx k' x = (if S h = [e] then mnx k else (mnx k)(p := Some n)) x"
      "\<And>x. x \<noteq> e \<Longrightarrow> mpv k' x = (if S h = [e] then mpv k else (mpv k)(n := Some p)) x"
  shows "kinv k' R D (\<lambda>h. remove1 e (S h))"
  unfolding kinv_def
proof (intro conjI allI impI)
  note I = kinvD [OF inv]
  have Q: "cdll (mnx k) (mpv k) (S h)" using I(3) [of h] eh by (auto simp: sync_rep_def split: if_splits)
  have npin: "n \<in> set (S h)" "p \<in> set (S h)" using cdll_next_prev_Some [OF Q eh] np by auto
  have out: "x \<noteq> e \<and> x \<noteq> n \<and> x \<noteq> p" if "x \<notin> set (S h)" for x using that eh npin by auto
  have RS: "x \<notin> set (S h)" if "x \<in> set R" for x using that I(5) [of h] by auto
  show "ready_rep k' R"
    by (rule ready_rep_cong [OF I(1) heads(1)]) (use out RS links data in \<open>auto\<close>)
  show "delay_rep k' D" by (rule delay_rep_cong [OF I(2) heads(2)]) (simp add: data)
  show "sync_rep k' h' (remove1 e (S h'))" for h'
  proof (cases "h' = h")
    case True
    show ?thesis
    proof (cases "S h = [e]")
      case e1: True
      then show ?thesis using True sync_rep_last [of k h e k'] I(3) [of h] heads(3) by simp
    next
      case False
      have "sync_rep k' h (remove1 e (S h))"
        by (rule sync_rep_remove [OF I(3) eh False np]) (simp_all add: False heads links data)
      then show ?thesis using True by simp
    qed
  next
    case False
    have h'h: "x \<notin> set (S h)" if "x \<in> set (S h')" for x using that I(8) [of h h'] False by auto
    have "sync_rep k' h' (S h')"
      by (rule sync_rep_cong [OF I(3) [of h']]) (use False out [OF h'h] links data heads in \<open>auto\<close>)
    moreover have "e \<notin> set (S h')" using h'h eh by auto
    ultimately show ?thesis by (simp add: remove1_idem)
  qed
  show "set R \<inter> set (remove1 e (S h')) = {}" for h' using I(5) [of h'] set_remove1_subset by fastforce
  show "x \<in> set (remove1 e (S h'))" if "x \<in> set R \<union> set D" "shd k' x = Some h'" for x h'
    using that I(6) [of x h'] by (auto simp: data split: if_splits)
qed (rule kinvD(4) [OF inv])

lemma isr_leave_sync_rep:
  assumes inv: "kinv k R D S" and e: "e \<in> set D"
  shows "\<exists>k'. isr_leave_sync e k = Some k' \<and> kinv k' R D (\<lambda>h. remove1 e (S h)) \<and> left_sync e k k'"
proof (cases "shd k e")
  case None
  then have "e \<notin> set (S h)" for h using kinvD(7) [OF inv] by fastforce
  then have "(\<lambda>h. remove1 e (S h)) = S" by (simp add: remove1_idem)
  then show ?thesis using inv None by (auto simp: isr_leave_sync_def left_sync_def)
next
  case (Some h)
  note I = kinvD [OF inv]
  have eh: "e \<in> set (S h)" using I(6) e Some by auto
  have Q: "cells k h = Some (hd (S h))" "cdll (mnx k) (mpv k) (S h)" "distinct (S h)"
    using I(3) [of h] eh by (auto simp: sync_rep_def cdll_def split: if_splits)
  obtain n p where np: "mnx k e = Some n" "mpv k e = Some p"
    using cdll_next_prev_Some [OF Q(2) eh] by auto
  let ?fin = "\<lambda>k. set_multi_previous e None (set_multi_next e None (set_fld sync_head_update e None k))"
  let ?k1 = "if S h = [e] then set_cell h None k
     else set_multi_previous n (Some p) (set_multi_next p (Some n)
       (set_cell h (Some (hd (remove1 e (S h)))) k))"
  have self: "n = e \<longleftrightarrow> S h = [e]" if "hd (S h) = e"
    using that Q(2,3) np(1) cdll_nextD [of "mnx k" "mpv k" e "tl (S h)"] eh
    by (cases "S h"; cases "tl (S h)") auto
  have hdn: "hd (remove1 e (S h)) = (if hd (S h) = e then n else hd (S h))" if "S h \<noteq> [e]"
    using that Q(2) np(1) cdll_nextD [of "mnx k" "mpv k" e "tl (S h)"] eh
    by (cases "S h"; cases "tl (S h)") auto
  have cell_id: "set_cell h (cells k h) k = k" by (simp add: set_cell_def)
  have "isr_leave_sync e k = Some (?fin ?k1)"
  proof (cases "S h = [e]")
    case True
    then show ?thesis using Some Q(1) self np(1) by (simp add: isr_leave_sync_def)
  next
    case False
    then show ?thesis
      using Some Q(1) self np cell_id hdn munlink_eq [of "set_cell h (Some n) k" e p n] munlink_eq [of k e p n]
      by (cases "hd (S h) = e") (auto simp: isr_leave_sync_def)
  qed
  moreover have "kinv (?fin ?k1) R D (\<lambda>h. remove1 e (S h))"
    by (rule kinv_left [OF inv eh np]) (auto simp: set_ecb_defs)
  moreover have "left_sync e k (?fin ?k1)"
    by (auto simp: left_sync_def set_ecb_defs set_cell_def upd_ecb_def fld_def)
  ultimately show ?thesis by blast
qed

section \<open>The queue operations keep the invariant\<close>

lemma kinv_EventReady:
  assumes inv: "kinv k R D S" and e: "e \<notin> set R" "e \<notin> set D" "shd k e = None"
  shows "\<exists>k'. DJY_EventReady e k = Some k' \<and> kinv k' (walk_insert (\<lambda>x. pr k x \<le> pr k e) e R) D S \<and>
    relinked (insert e (set R)) k k'"
proof -
  note I = kinvD [OF inv]
  obtain k' where k': "DJY_EventReady e k = Some k'"
    "ready_rep k' (walk_insert (\<lambda>x. pr k x \<le> pr k e) e R)" "relinked (insert e (set R)) k k'"
    using EventReady_refines [OF I(1) e(1)] by auto
  have eS: "e \<notin> set (S h)" for h using I(7) [of e h] e(3) by auto
  note out = relinked_outside [OF k'(3)]
  note rk = relinked_kernel [OF k'(3)] relinked_data [OF k'(3)]
  have D: "x \<notin> insert e (set R)" if "x \<in> set D" for x using that I(4) e by auto
  have SS: "x \<notin> insert e (set R)" if "x \<in> set (S h)" for x h using that I(5) [of h] eS [of h] by auto
  have "delay_rep k' D"
    by (rule delay_rep_cong [OF I(2)]) (simp_all add: out [OF D] rk)
  moreover have "sync_rep k' h (S h)" for h
    by (rule sync_rep_cong [OF I(3) [of h]]) (simp_all add: out [OF SS] rk)
  ultimately have "kinv k' (walk_insert (\<lambda>x. pr k x \<le> pr k e) e R) D S"
    unfolding kinv_def using k'(2) I(4,5,6) e eS by (auto simp: disjoint_iff rk)
  with k' show ?thesis by blast
qed

lemma kinv_CutReadyEvent:
  assumes inv: "kinv k R D S" and e: "e \<in> set R" "R \<noteq> [e]"
  shows "\<exists>k'. DJY_CutReadyEvent e k = Some k' \<and> kinv k' (remove1 e R) D S \<and> relinked (set R) k k'"
proof -
  note I = kinvD [OF inv]
  obtain k' where k': "DJY_CutReadyEvent e k = Some k'" "ready_rep k' (remove1 e R)" "relinked (set R) k k'"
    using CutReadyEvent_refines [OF I(1) e] by auto
  note out = relinked_outside [OF k'(3)]
  note rk = relinked_kernel [OF k'(3)] relinked_data [OF k'(3)]
  have D: "x \<notin> set R" if "x \<in> set D" for x using that I(4) by auto
  have SS: "x \<notin> set R" if "x \<in> set (S h)" for x h using that I(5) [of h] by auto
  have "delay_rep k' D"
    by (rule delay_rep_cong [OF I(2)]) (simp_all add: out [OF D] rk)
  moreover have "sync_rep k' h (S h)" for h
    by (rule sync_rep_cong [OF I(3) [of h]]) (simp_all add: out [OF SS] rk)
  moreover have sub: "x \<in> set (remove1 e R) \<Longrightarrow> x \<in> set R" for x
    using notin_set_remove1 by metis
  have "set (remove1 e R) \<inter> set D = {}" "\<And>h. set (remove1 e R) \<inter> set (S h) = {}"
    using I(4,5) sub by fastforce+
  moreover have "x \<in> set (S h)" if "x \<in> set (remove1 e R) \<union> set D" "shd k' x = Some h" for x h
    using that I(6) [of x h] sub by (auto simp: rk)
  ultimately have "kinv k' (remove1 e R) D S" unfolding kinv_def using k'(2) by blast
  with k' show ?thesis by blast
qed

text \<open>The invariant looks at the links, the priority, the alarm time and the waiting place of the
  queued events, and at the four kinds of queue heads only.\<close>

lemma kinv_cong:
  assumes "kinv k R D S" "ptEventReady k' = ptEventReady k" "ptEventDelay k' = ptEventDelay k"
    "cells k' = cells k" "nx k' = nx k" "pv k' = pv k" "mnx k' = mnx k" "mpv k' = mpv k"
    "pr k' = pr k" "det k' = det k" "shd k' = shd k"
  shows "kinv k' R D S"
  using assms by (simp add: kinv_def ready_rep_def delay_rep_def sync_rep_def)

text \<open>The first event leaves the alarm queue.\<close>

definition delay_pop :: "nat \<Rightarrow> 'a kernel_scheme \<Rightarrow> 'a kernel_scheme option" where
  "delay_pop e k = (if nx k e = Some e then Some (k\<lparr>ptEventDelay := None\<rparr>)
     else unlink e (k\<lparr>ptEventDelay := nx k e\<rparr>))"

lemma kinv_delay_pop:
  assumes inv: "kinv k R (e # D) S"
  shows "\<exists>k'. delay_pop e k = Some k' \<and> kinv k' R D S \<and> (nx k e = Some e \<longleftrightarrow> D = []) \<and>
    mnx k' = mnx k \<and> mpv k' = mpv k \<and> pr k' = pr k \<and> det k' = det k \<and> shd k' = shd k \<and>
    fld event_status k' = fld event_status k \<and> fld wakeup_from k' = fld wakeup_from k \<and>
    fld vm k' = fld vm k \<and> fld evtt_id k' = fld evtt_id k \<and>
    k'\<lparr>ecbs := ecbs k, ptEventDelay := ptEventDelay k\<rparr> = k"
proof -
  note I = kinvD [OF inv]
  have D: "cdll (nx k) (pv k) (e # D)" "sorted (map (det k) (e # D))" "distinct (e # D)"
    using delay_repD [OF I(2)] by auto
  obtain n p where np: "nx k e = Some n" "pv k e = Some p" "n \<in> set (e # D)" "p \<in> set (e # D)"
    using cdll_next_prev_Some [OF D(1), of e] by auto
  have n: "n = hd (D @ [e])" using cdll_nextD [OF D(1)] np by simp
  have self: "n = e \<longleftrightarrow> D = []" using n D(3) by (cases D) auto
  let ?k1 = "if D = [] then k\<lparr>ptEventDelay := None\<rparr>
     else set_next p (Some n) (set_previous n (Some p) (k\<lparr>ptEventDelay := Some n\<rparr>))"
  have eq: "delay_pop e k = Some ?k1" 
    using np self unlink_eq [of "k\<lparr>ptEventDelay := Some n\<rparr>" e n p] by (auto simp: delay_pop_def)
  have "ready_rep ?k1 R"
    by (rule ready_rep_cong [OF I(1)]) (use I(4) np in \<open>auto simp: set_ecb_defs\<close>)
  moreover have "delay_rep ?k1 D"
  proof (cases "D = []")
    case False
    with cdll_remove_first [OF D(1) False np(1,2)] n D(2) show ?thesis
      by (auto simp: delay_rep_def set_ecb_defs)
  qed (simp add: delay_rep_def)
  moreover have "sync_rep ?k1 h (S h)" for h
    by (rule sync_rep_cong [OF I(3) [of h]]) (auto simp: set_ecb_defs)
  ultimately have "kinv ?k1 R D S"
    unfolding kinv_def using I(4,5,6) by (auto simp: set_ecb_defs)
  moreover have "?k1\<lparr>ecbs := ecbs k, ptEventDelay := ptEventDelay k\<rparr> = k"
    by (auto simp: set_ecb_defs upd_ecb_def)
  ultimately show ?thesis using eq np self by (auto simp: set_ecb_defs)
qed

section \<open>The tick interrupt\<close>

text \<open>The interrupt changes queues only: the rest of the kernel and the threads of the events stay.\<close>

definition tick_frame :: "'a kernel_scheme \<Rightarrow> 'a kernel_scheme \<Rightarrow> bool" where
  "tick_frame k k' \<longleftrightarrow>
     k'\<lparr>ecbs := ecbs k, ptEventReady := ptEventReady k, ptEventDelay := ptEventDelay k, cells := cells k\<rparr> = k \<and> fld vm k' = fld vm k"

lemma tick_frame_refl [simp]: "tick_frame k k"
  by (simp add: tick_frame_def)

lemma tick_frame_trans:
  assumes "tick_frame k k1" "tick_frame k1 k2"
  shows "tick_frame k k2"
proof -
  have "k1 = k2\<lparr>ecbs := ecbs k1, ptEventReady := ptEventReady k1, ptEventDelay := ptEventDelay k1, cells := cells k1\<rparr>"
    using assms(2) by (simp add: tick_frame_def)
  then have "k1\<lparr>ecbs := ecbs k, ptEventReady := ptEventReady k, ptEventDelay := ptEventDelay k, cells := cells k\<rparr> =
      k2\<lparr>ecbs := ecbs k, ptEventReady := ptEventReady k, ptEventDelay := ptEventDelay k, cells := cells k\<rparr>" by (cases k1; cases k2; simp)
  then show ?thesis using assms by (simp add: tick_frame_def)
qed

lemma tick_frameD:
  assumes "tick_frame k k'"
  shows "fld vm k' = fld vm k" "ptEventRunning k' = ptEventRunning k" "nest_asyn_signal k' = nest_asyn_signal k"
    "en_asyn_signal_counter k' = en_asyn_signal_counter k" "ScheduleEnable k' = ScheduleEnable k" "kernel.more k' = kernel.more k"
    "MultiEventStarted k' = MultiEventStarted k"
  using assms unfolding tick_frame_def by (cases k; cases k'; simp)+

lemma relinked_tick_frame:
  assumes "relinked A k k'"
  shows "tick_frame k k'"
proof -
  have "k'\<lparr>ecbs := ecbs k, ptEventReady := ptEventReady k\<rparr> = k" using assms by (simp add: relinked_def)
  then have "k'\<lparr>ecbs := ecbs k, ptEventReady := ptEventReady k, ptEventDelay := ptEventDelay k, cells := cells k\<rparr> = k"
    by (cases k; cases k'; simp)
  then show ?thesis using relinked_data [OF assms] by (simp add: tick_frame_def)
qed

text \<open>One round of the loop on an expired first event.\<close>

lemma isr_wake_round:
  assumes inv: "kinv k R (e # D) S" and exp: "det k e \<le> OsTicks k"
  obtains k' where "isr_wake e k = (case D of [] \<Rightarrow> Some k' | d # _ \<Rightarrow> isr_wake d k')"
    "kinv k' (walk_insert (\<lambda>x. pr k x \<le> pr k e) e R) D (\<lambda>h. remove1 e (S h))"
    "pr k' = pr k" "det k' = det k" "OsTicks k' = OsTicks k" "ptEventRunning k' = ptEventRunning k"
    "RRS_Slice k' = RRS_Slice k" "shd k' = (shd k)(e := None)"
    "fld event_status k' = (fld event_status k)(e := CN_STS_EVENT_READY)"
    "fld wakeup_from k' = (fld wakeup_from k)(e := fld event_status k e)" "tick_frame k k'"
proof -
  obtain k1 where k1: "isr_leave_sync e k = Some k1" "kinv k1 R (e # D) (\<lambda>h. remove1 e (S h))" "left_sync e k k1"
    using isr_leave_sync_rep [OF inv, of e] by auto
  have k1k: "k1\<lparr>ecbs := ecbs k, cells := cells k\<rparr> = k" using k1(3) by (simp add: left_sync_def)
  define k2 where "k2 = set_fld event_status_update e CN_STS_EVENT_READY
    (set_fld wakeup_from_update e (fld event_status k1 e) k1)"
  have "kinv k2 R (e # D) (\<lambda>h. remove1 e (S h))"
    by (rule kinv_cong [OF k1(2)]) (auto simp: k2_def)
  then obtain k3 where k3: "delay_pop e k2 = Some k3" "kinv k3 R D (\<lambda>h. remove1 e (S h))"
      "nx k2 e = Some e \<longleftrightarrow> D = []" "pr k3 = pr k2" "det k3 = det k2" "shd k3 = shd k2"
      "fld event_status k3 = fld event_status k2" "fld wakeup_from k3 = fld wakeup_from k2"
      "k3\<lparr>ecbs := ecbs k2, ptEventDelay := ptEventDelay k2\<rparr> = k2" "fld vm k3 = fld vm k2"
    using kinv_delay_pop by metis
  have "shd k3 e = None" using k1(3) k3(6) by (simp add: k2_def left_sync_def)
  moreover have "e \<notin> set R" "e \<notin> set D" 
    using kinvD(4) [OF inv] delay_repD(5) [OF kinvD(2) [OF inv]] by auto
  ultimately obtain k4 where k4: "DJY_EventReady e k3 = Some k4"
      "kinv k4 (walk_insert (\<lambda>x. pr k3 x \<le> pr k3 e) e R) D (\<lambda>h. remove1 e (S h))"
      "relinked (insert e (set R)) k3 k4"
    using kinv_EventReady [OF k3(2), of e] by auto
  note rk = relinked_kernel [OF k4(3)] relinked_data [OF k4(3)] relinked_pr [OF k4(3)]
  have os: "OsTicks k3 = OsTicks k" "ptEventRunning k3 = ptEventRunning k" "RRS_Slice k3 = RRS_Slice k"
    using arg_cong [OF k3(9), of OsTicks] arg_cong [OF k1k, of OsTicks] arg_cong [OF k3(9), of ptEventRunning]
      arg_cong [OF k1k, of ptEventRunning] arg_cong [OF k3(9), of RRS_Slice] arg_cong [OF k1k, of RRS_Slice]
    by (auto simp: k2_def)
  have step: "isr_wake e k =
      (if nx k2 e = Some e then DJY_EventReady e (k2\<lparr>ptEventDelay := None\<rparr>)
       else unlink e (k2\<lparr>ptEventDelay := nx k2 e\<rparr>) \<bind>
         (\<lambda>k. DJY_EventReady e k \<bind> (\<lambda>k. ptEventDelay k \<bind> (\<lambda>d. isr_wake d k))))"
    by (subst isr_wake.simps) (simp add: exp k1(1) Let_def k2_def)
  have "isr_wake e k = (case D of [] \<Rightarrow> Some k4 | d # _ \<Rightarrow> isr_wake d k4)"
  proof (cases D)
    case Nil
    then show ?thesis using k3(1,3) k4(1) by (simp add: step delay_pop_def)
  next
    case (Cons d D')
    then have "ptEventDelay k4 = Some d" using delay_repD(2) [OF kinvD(2) [OF k4(2)]] by simp
    then show ?thesis using k3(1,3) k4(1) Cons by (simp add: step delay_pop_def)
  qed
  then show ?thesis
  proof (rule that)
    show "kinv k4 (walk_insert (\<lambda>x. pr k x \<le> pr k e) e R) D (\<lambda>h. remove1 e (S h))"
      using k4(2) k1(3) k3(4) by (simp add: k2_def left_sync_def)
    have "k2\<lparr>ecbs := ecbs k1\<rparr> = k1" by (simp add: k2_def upd_ecb_def)
    then have "tick_frame k k3" using k1k k3(9,10) k1(3) unfolding tick_frame_def left_sync_def
      by (cases k; cases k1; cases k2; cases k3) (simp add: k2_def)
    then show "tick_frame k k4" by (rule tick_frame_trans [OF _ relinked_tick_frame [OF k4(3)]])
    show "shd k4 = (shd k)(e := None)" 
      using k1(3) k3(6) by (auto simp: k2_def left_sync_def rk)
  qed (use k1(3) k3 os in \<open>auto simp: k2_def left_sync_def rk\<close>)
qed

text \<open>The whole loop: exactly the events whose alarm time has come are woken, in the order of their
  alarm times; each leaves the queue it waits in.\<close>

definition woken :: "nat list \<Rightarrow> 'a kernel_scheme \<Rightarrow> 'a kernel_scheme \<Rightarrow> bool" where
  "woken W k k' \<longleftrightarrow>
    (\<forall>e. if e \<in> set W
         then fld event_status k' e = CN_STS_EVENT_READY \<and> fld wakeup_from k' e = fld event_status k e \<and>
              shd k' e = None
         else fld event_status k' e = fld event_status k e \<and> fld wakeup_from k' e = fld wakeup_from k e \<and>
              shd k' e = shd k e)"

lemma isr_wake_all:
  assumes "kinv k R D S" "D \<noteq> []"
  shows "\<exists>k'. isr_wake (hd D) k = Some k' \<and>
    kinv k' (fold (\<lambda>e. walk_insert (\<lambda>x. pr k x \<le> pr k e) e) (takeWhile (\<lambda>e. det k e \<le> OsTicks k) D) R)
      (dropWhile (\<lambda>e. det k e \<le> OsTicks k) D)
      (\<lambda>h. fold remove1 (takeWhile (\<lambda>e. det k e \<le> OsTicks k) D) (S h)) \<and>
    pr k' = pr k \<and> ptEventRunning k' = ptEventRunning k \<and> OsTicks k' = OsTicks k \<and>
    RRS_Slice k' = RRS_Slice k \<and> woken (takeWhile (\<lambda>e. det k e \<le> OsTicks k) D) k k' \<and> tick_frame k k'"
  using assms
proof (induction D arbitrary: k R S)
  case (Cons e D)
  show ?case
  proof (cases "det k e \<le> OsTicks k")
    case False
    then show ?thesis using Cons.prems by (subst isr_wake.simps) (auto simp: woken_def)
  next
    case True
    obtain k1 where k1: "isr_wake e k = (case D of [] \<Rightarrow> Some k1 | d # _ \<Rightarrow> isr_wake d k1)"
      "kinv k1 (walk_insert (\<lambda>x. pr k x \<le> pr k e) e R) D (\<lambda>h. remove1 e (S h))"
      "pr k1 = pr k" "det k1 = det k" "OsTicks k1 = OsTicks k" "ptEventRunning k1 = ptEventRunning k"
      "RRS_Slice k1 = RRS_Slice k" "shd k1 = (shd k)(e := None)"
      "fld event_status k1 = (fld event_status k)(e := CN_STS_EVENT_READY)"
      "fld wakeup_from k1 = (fld wakeup_from k)(e := fld event_status k e)" "tick_frame k k1"
      using isr_wake_round [OF Cons.prems(1) True] .
    have "e \<notin> set D" using delay_repD(5) [OF kinvD(2) [OF Cons.prems(1)]] by auto
    then have eD: "e \<notin> set (takeWhile (\<lambda>e. det k e \<le> OsTicks k) D)" by (metis set_takeWhileD)
    show ?thesis
    proof (cases D)
      case Nil
      with k1 True show ?thesis by (auto simp: woken_def)
    next
      case (Cons d D')
      then have step: "isr_wake e k = isr_wake (hd D) k1" using k1(1) by simp
      have "D \<noteq> []" using Cons by simp
      from Cons.IH [OF k1(2) this] show ?thesis
        using True eD tick_frame_trans [OF k1(11)] by (auto simp: k1(3-10) step woken_def)
    qed
  qed
qed simp

section \<open>Round robin\<close>

lemma sorted_dropWhile_group:
  fixes f :: "'a \<Rightarrow> 'b::linorder"
  assumes "sorted (map f (us @ e # vs))"
  shows "dropWhile (\<lambda>x. f x \<le> f e) (us @ vs) = dropWhile (\<lambda>x. f x = f e) vs"
proof -
  have le: "\<And>x. x \<in> set us \<Longrightarrow> f x \<le> f e" "\<And>x. x \<in> set vs \<Longrightarrow> f e \<le> f x"
    using assms by (auto simp: sorted_append)
  have "dropWhile (\<lambda>x. f x \<le> f e) vs = dropWhile (\<lambda>x. f x = f e) vs"
    using le(2) by (intro dropWhile_cong) (auto simp: antisym)
  then show ?thesis using le(1) by (simp add: dropWhile_append)
qed

text \<open>The rotation of an event that is the first of its priority, has a successor in it, and is
  not alone with it in the ready queue.\<close>

lemma rrs_rotate_rep:
  assumes rep: "ready_rep k (us @ run # vs)" and run: "ptEventRunning k = run"
    and h: "us = [] \<or> pr k (last us) \<noteq> pr k run" and vs: "vs \<noteq> []" "pr k (hd vs) = pr k run"
    and two: "\<exists>x\<in>set (us @ vs). pr k x \<noteq> pr k run"
  shows "\<exists>k'. rrs_rotate k = Some k' \<and>
    ready_rep k' (walk_insert (\<lambda>x. pr k x \<le> pr k run) run (us @ vs)) \<and> relinked (set (us @ run # vs)) k k'"
proof -
  note R = ready_repD [OF rep]
  let ?P = "\<lambda>x. pr k x \<le> pr k run"
  let ?A = "gheads (pr k) us" and ?B = "gheads (pr k) (dropWhile (\<lambda>y. pr k y = pr k run) vs)"
  define pl where "pl = hd vs"
  have d: "distinct (us @ run # vs)" by (rule R(6))
  have dW: "dropWhile ?P (us @ vs) = dropWhile (\<lambda>x. pr k x = pr k run) vs"
    by (rule sorted_dropWhile_group [OF R(3)])
  have G: "gheads (pr k) (us @ run # vs) = ?A @ run # ?B" by (rule gheads_mid_head [OF h])
  have G': "gheads (pr k) (us @ vs) = ?A @ pl # ?B" using gheads_remove_same [OF h] vs by (simp add: pl_def)
  have AB: "?A @ ?B \<noteq> []"
  proof
    assume "?A @ ?B = []"
    then have "us = []" "dropWhile (\<lambda>y. pr k y = pr k run) vs = []" by (simp_all only: append_is_Nil_conv gheads_eq_Nil)
    then show False using two by auto
  qed
  have "distinct ((us @ [run]) @ pl # tl vs)" using d vs by (auto simp: pl_def)
  from in_gheads_iff [OF this, of "pr k"] have nG: "pl \<notin> set (?A @ run # ?B)" 
    using vs unfolding G [symmetric] by (auto simp: pl_def)
  have mring0: "cdll (mnx k) (mpv k) (?A @ run # ?B)" using R(5) G by simp
  obtain mn mp where m: "mnx k run = Some mn" "mpv k run = Some mp"
    "mn \<in> set (?A @ run # ?B)" "mp \<in> set (?A @ run # ?B)"
    using cdll_next_prev_Some [OF mring0, of run] by auto
  have rot: "cdll (mnx k) (mpv k) (run # ?B @ ?A)" using cdll_rotate [OF mring0] by simp
  have mn: "mn = hd (?B @ ?A)" using cdll_nextD [OF rot] m(1) AB by (cases "?B @ ?A") auto
  have "mp = last (?B @ ?A)" using cdll_prevD [OF rot] m(2) AB by (auto split: if_splits)
  then have mAB: "mp \<in> set (?B @ ?A)" "mn \<in> set (?B @ ?A)"
    using mn AB by (metis Nil_is_append_conv last_in_set, metis Nil_is_append_conv hd_in_set)
  have dG: "distinct (?A @ run # ?B)" using mring0 by (simp add: cdll_def)
  have mne: "mp \<noteq> run" "mn \<noteq> run" "mp \<noteq> pl" "mn \<noteq> pl" "pl \<noteq> run" using mAB dG nG by auto
  have mring: "cdll ((mnx k)(mp := Some pl, pl := Some mn)) ((mpv k)(pl := Some mp, mn := Some pl)) (?A @ pl # ?B)"
    by (rule cdll_replace [OF mring0 AB nG m(1,2)])
  have stop: "walk_stop ?P (us @ vs) = mn"
  proof (cases "dropWhile (\<lambda>x. pr k x = pr k run) vs")
    case Nil
    then have "us \<noteq> []" using AB by auto
    then show ?thesis using mn unfolding walk_stop_def dW Nil by simp
  next
    case (Cons b bs)
    then show ?thesis using mn unfolding walk_stop_def dW Cons by simp
  qed
  obtain n p where np: "nx k run = Some n" "pv k run = Some p" "p \<in> set (us @ run # vs)"
    using cdll_next_prev_Some [OF R(4), of run] by auto
  have rotn: "cdll (nx k) (pv k) (run # vs @ us)" using cdll_rotate [OF R(4)] by simp
  have n: "n = pl" using cdll_nextD [OF rotn] np vs by (simp add: pl_def)
  have "us @ run # vs \<noteq> [run]" using vs by (cases us) auto
  from cdll_remove [OF R(4) _ this np(1,2)]
  have ring1: "cdll ((nx k)(p := Some pl)) ((pv k)(pl := Some p)) (us @ vs)"
    using d n by (auto simp: remove1_append)
  have mnin: "mn \<in> set (us @ vs)" using walk_stop_in [of "us @ vs" ?P] stop vs by auto
  obtain q where q: "((pv k)(pl := Some p)) mn = Some q" "q \<in> set (us @ vs)"
    using cdll_next_prev_Some [OF ring1 mnin] by auto
  then have qk: "pv k mn = Some q" using mne by simp
  have run_out: "run \<notin> set (us @ vs)" using d by auto
  have ring: "cdll ((nx k)(p := Some pl, run := Some mn, q := Some run))
      ((pv k)(pl := Some p, run := Some q, mn := Some run)) (walk_insert ?P run (us @ vs))"
    using cdll_walk_insert [OF ring1 run_out, of ?P q] q stop by simp
  let ?mk = "set_multi_previous run None (set_multi_next run None (set_multi_next pl (Some mn)
       (set_multi_previous mn (Some pl) (set_multi_previous pl (Some mp) (set_multi_next mp (Some pl) k)))))"
  let ?rk = "if ptEventReady k = run then ?mk\<lparr>ptEventReady := pl\<rparr> else ?mk"
  let ?k' = "set_previous mn (Some run) (set_next q (Some run) (set_next run (Some mn)
       (set_previous run (Some q) (set_previous pl (Some p) (set_next p (Some pl) ?rk)))))"
  have "rrs_rotate k = Some ?k'"
    unfolding rrs_rotate_def by (simp add: run Let_def np n m mne qk set_ecb_defs if_distrib [of ecbs])
  moreover have "ready_rep ?k' (walk_insert ?P run (us @ vs))"
  proof -
    have le: "\<And>x. x \<in> set us \<Longrightarrow> ?P x" "\<And>x. x \<in> set vs \<Longrightarrow> pr k run \<le> pr k x"
      using R(3) by (auto simp: sorted_append)
    have "takeWhile ?P (us @ vs) = us @ takeWhile ?P vs" using le(1) by simp
    moreover have ne: "takeWhile ?P vs \<noteq> []" using vs by (cases vs) auto
    ultimately have takeW: "takeWhile ?P (us @ vs) \<noteq> []" "pr k (last (takeWhile ?P (us @ vs))) = pr k run"
      using set_takeWhileD [of "last (takeWhile ?P vs)" ?P vs] last_in_set [OF ne] le(2) by (auto simp: antisym)
    have GW: "gheads (pr k) (walk_insert ?P run (us @ vs)) = ?A @ pl # ?B"
      using gheads_walk_insert [of "\<lambda>v. v \<le> pr k run" "pr k" run "us @ vs"] takeW G' by simp
    have srt: "sorted (map (pr k) (walk_insert ?P run (us @ vs)))"
      by (rule sorted_walk_insert) (use R(3) in \<open>auto simp: sorted_append\<close>)
    have hd: "hd (walk_insert ?P run (us @ vs)) = (if ptEventReady k = run then pl else ptEventReady k)"
      using R(2) d vs le(1) by (cases us) (auto simp: hd_walk_insert pl_def)
    have "mnx ?k' x = None \<and> mpv ?k' x = None" if "x \<in> insert run (set (us @ vs))" "x \<notin> set (?A @ pl # ?B)" for x
      using that R(7) [of x] mAB mne unfolding G by (auto simp: set_ecb_defs)
    moreover have "cdll (mnx ?k') (mpv ?k') (?A @ pl # ?B)"
      using mring dG nG by (auto simp: set_ecb_defs cdll_frame mne mne(5) [symmetric])
    moreover have "walk_insert ?P run (us @ vs) \<noteq> []" by (simp add: walk_insert_def)
    moreover have "pr ?k' = pr k" "nx ?k' = (nx k)(p := Some pl, run := Some mn, q := Some run)"
      "pv ?k' = (pv k)(pl := Some p, run := Some q, mn := Some run)"
      "ptEventReady ?k' = (if ptEventReady k = run then pl else ptEventReady k)"
      by (simp_all add: set_ecb_defs)
    ultimately show ?thesis unfolding ready_rep_def using ring srt hd GW by simp
  qed
  moreover have "mp \<in> set (us @ run # vs)" "mn \<in> set (us @ run # vs)" "q \<in> set (us @ run # vs)" "pl \<in> set (us @ run # vs)"
    using m(3,4) q vs set_gheads [of "pr k" "us @ run # vs"] unfolding G by (auto simp: pl_def)
  then have "relinked (set (us @ run # vs)) k ?k'"
    using np(3) by (cases "ptEventReady k = run") (auto intro!: relinked_steps)
  ultimately show ?thesis by blast
qed

section \<open>Entering and leaving the alarm queue\<close>

lemma link_before_eq:
  "pv k y = Some p \<Longrightarrow> x \<noteq> y \<Longrightarrow> link_before x y k =
     Some (set_previous y (Some x) (set_next p (Some x) (set_previous x (Some p) (set_next x (Some y) k))))"
  by (simp add: link_before_def set_ecb_defs Let_def)

text \<open>What an operation on the queues leaves alone: the parts of the kernel that are no queue heads,
  and the fields of the control blocks that no queue uses.\<close>

definition ecb_core :: "EventECB \<Rightarrow> EventECB" where
  "ecb_core e = e\<lparr>ecb_next := None, ecb_previous := None, multi_next := None, multi_previous := None,
     sync_head := None, delay_start_tick := 0, delay_end_tick := 0, event_status := 0, wakeup_from := 0\<rparr>"

definition qframe :: "'a kernel_scheme \<Rightarrow> 'a kernel_scheme \<Rightarrow> bool" where
  "qframe k k' \<longleftrightarrow>
     k'\<lparr>ecbs := ecbs k, ptEventReady := ptEventReady k, ptEventDelay := ptEventDelay k, cells := cells k\<rparr> = k \<and>
     (\<forall>i. ecb_core (ecbs k' i) = ecb_core (ecbs k i))"

lemma qframe_refl [simp, relink]: "qframe k k"
  by (simp add: qframe_def)

lemma qframe_steps [relink]:
  "qframe k k1 \<Longrightarrow> qframe k (set_next i v k1)"
  "qframe k k1 \<Longrightarrow> qframe k (set_previous i v k1)"
  "qframe k k1 \<Longrightarrow> qframe k (set_multi_next i v k1)"
  "qframe k k1 \<Longrightarrow> qframe k (set_multi_previous i v k1)"
  "qframe k k1 \<Longrightarrow> qframe k (set_cell h v k1)"
  "qframe k k1 \<Longrightarrow> qframe k (k1\<lparr>ptEventReady := e\<rparr>)"
  "qframe k k1 \<Longrightarrow> qframe k (k1\<lparr>ptEventDelay := d\<rparr>)"
  "qframe k k1 \<Longrightarrow> qframe k (set_fld sync_head_update i sh k1)"
  "qframe k k1 \<Longrightarrow> qframe k (set_fld event_status_update i st k1)"
  "qframe k k1 \<Longrightarrow> qframe k (set_fld wakeup_from_update i st k1)"
  "qframe k k1 \<Longrightarrow> qframe k (set_fld delay_end_tick_update i t k1)"
  "qframe k k1 \<Longrightarrow> qframe k (set_fld delay_start_tick_update i t k1)"
  by (auto simp: qframe_def set_ecb_defs ecbs_upd_ecb ecb_core_def set_cell_def)

lemma qframe_trans:
  assumes "qframe k k1" "qframe k1 k2"
  shows "qframe k k2"
proof -
  have "k2\<lparr>ecbs := ecbs k, ptEventReady := ptEventReady k, ptEventDelay := ptEventDelay k, cells := cells k\<rparr> =
    (k2\<lparr>ecbs := ecbs k1, ptEventReady := ptEventReady k1, ptEventDelay := ptEventDelay k1, cells := cells k1\<rparr>)
      \<lparr>ecbs := ecbs k, ptEventReady := ptEventReady k, ptEventDelay := ptEventDelay k, cells := cells k\<rparr>"
    by simp
  with assms show ?thesis unfolding qframe_def by simp
qed

lemma qframe_kernel:
  assumes "qframe k k'"
  shows "ptEventRunning k' = ptEventRunning k"
    "OsTicks k' = OsTicks k" "evtts k' = evtts k" "vms k' = vms k" "ptEventFree k' = ptEventFree k"
    "RRS_Slice k' = RRS_Slice k" "SysTime k' = SysTime k" "ScheduleEnable k' = ScheduleEnable k"
    "en_asyn_signal_counter k' = en_asyn_signal_counter k" "nest_asyn_signal k' = nest_asyn_signal k"
    "kout k' = kout k" "RunningStartTime k' = RunningStartTime k" "cfg_tick_us k' = cfg_tick_us k"
    "cfg_event_limit k' = cfg_event_limit k" "cfg_evtt_limit k' = cfg_evtt_limit k"
    "kernel.more k' = kernel.more k"
proof -
  have *: "k = k'\<lparr>ecbs := ecbs k, ptEventReady := ptEventReady k, ptEventDelay := ptEventDelay k, cells := cells k\<rparr>"
    using assms by (simp add: qframe_def)
  show "ptEventRunning k' = ptEventRunning k"
    "OsTicks k' = OsTicks k" "evtts k' = evtts k" "vms k' = vms k" "ptEventFree k' = ptEventFree k"
    "RRS_Slice k' = RRS_Slice k" "SysTime k' = SysTime k" "ScheduleEnable k' = ScheduleEnable k"
    "en_asyn_signal_counter k' = en_asyn_signal_counter k" "nest_asyn_signal k' = nest_asyn_signal k"
    "kout k' = kout k" "RunningStartTime k' = RunningStartTime k" "cfg_tick_us k' = cfg_tick_us k"
    "cfg_event_limit k' = cfg_event_limit k" "cfg_evtt_limit k' = cfg_evtt_limit k"
    "kernel.more k' = kernel.more k"
    by (subst *, simp)+
qed

lemma qframe_fld:
  assumes "qframe k k'" "\<And>e. g (ecb_core e) = g e"
  shows "fld g k' = fld g k"
proof
  fix i
  have "ecb_core (ecbs k' i) = ecb_core (ecbs k i)" using assms(1) by (simp add: qframe_def)
  then show "fld g k' i = fld g k i" unfolding fld_def by (metis assms(2))
qed

lemma qframe_data:
  assumes "qframe k k'"
  shows "pr k' = pr k" "fld vm k' = fld vm k" "fld evtt_id k' = fld evtt_id k"
    "fld prio_base k' = fld prio_base k" "fld sync_counter k' = fld sync_counter k"
    "fld event_id k' = fld event_id k"
  by (rule qframe_fld [OF assms], simp add: ecb_core_def)+

lemma relinked_qframe:
  assumes "relinked A k k'"
  shows "qframe k k'"
proof -
  have eq: "k'\<lparr>ecbs := ecbs k, ptEventReady := ptEventReady k\<rparr> = k" using assms by (simp add: relinked_def)
  have "k'\<lparr>ecbs := ecbs k, ptEventReady := ptEventReady k, ptEventDelay := ptEventDelay k, cells := cells k\<rparr> = k"
    unfolding eq by simp
  moreover have "ecb_core (ecbs k' i) = ecb_core (ecbs k i)" for i
  proof -
    have "ecb_core e = ecb_core (ecb_data e)" for e by (simp add: ecb_core_def ecb_data_def)
    then show ?thesis using assms unfolding relinked_def by metis
  qed
  ultimately show ?thesis by (simp add: qframe_def)
qed

text \<open>What an operation on the alarm queue leaves alone.\<close>

definition alarm_frame :: "nat set \<Rightarrow> 'a kernel_scheme \<Rightarrow> 'a kernel_scheme \<Rightarrow> bool" where
  "alarm_frame A k k' \<longleftrightarrow> k'\<lparr>ecbs := ecbs k, ptEventDelay := ptEventDelay k\<rparr> = k \<and>
     mnx k' = mnx k \<and> mpv k' = mpv k \<and> pr k' = pr k \<and> shd k' = shd k \<and>
     fld event_status k' = fld event_status k \<and> fld wakeup_from k' = fld wakeup_from k \<and>
     (\<forall>x. x \<notin> A \<longrightarrow> ecbs k' x = ecbs k x) \<and> qframe k k'"

lemma alarm_frame_refl [simp, relink]: "alarm_frame A k k"
  by (simp add: alarm_frame_def)

lemma alarm_frame_steps [relink]:
  "alarm_frame A k k1 \<Longrightarrow> i \<in> A \<Longrightarrow> alarm_frame A k (set_next i v k1)"
  "alarm_frame A k k1 \<Longrightarrow> i \<in> A \<Longrightarrow> alarm_frame A k (set_previous i v k1)"
  "alarm_frame A k k1 \<Longrightarrow> i \<in> A \<Longrightarrow> alarm_frame A k (set_fld delay_end_tick_update i t k1)"
  "alarm_frame A k k1 \<Longrightarrow> i \<in> A \<Longrightarrow> alarm_frame A k (set_fld delay_start_tick_update i t k1)"
  "alarm_frame A k k1 \<Longrightarrow> alarm_frame A k (k1\<lparr>ptEventDelay := d\<rparr>)"
  by (auto simp: alarm_frame_def set_ecb_defs ecbs_upd_ecb intro!: qframe_steps [unfolded set_ecb_defs])

lemma alarm_frame_trans:
  assumes "alarm_frame A k k1" "alarm_frame A k1 k2"
  shows "alarm_frame A k k2"
proof -
  have "k2\<lparr>ecbs := ecbs k, ptEventDelay := ptEventDelay k\<rparr> =
    (k2\<lparr>ecbs := ecbs k1, ptEventDelay := ptEventDelay k1\<rparr>)\<lparr>ecbs := ecbs k, ptEventDelay := ptEventDelay k\<rparr>"
    by simp
  with assms qframe_trans [of k k1 k2] show ?thesis unfolding alarm_frame_def by simp
qed

lemma delay_link_rep:
  assumes rep: "delay_rep k D" and run: "ptEventRunning k = run" "run \<notin> set D"
  shows "\<exists>k'. delay_link k = Some k' \<and> delay_rep k' (walk_insert (\<lambda>x. det k x \<le> det k run) run D) \<and>
    alarm_frame (insert run (set D)) k k' \<and> det k' = det k"
proof (cases "D = []")
  case True
  then have "ptEventDelay k = None" using rep by (simp add: delay_rep_def)
  then have "delay_link k = Some ((set_previous run (Some run) (set_next run (Some run) k))\<lparr>ptEventDelay := Some run\<rparr>)"
    by (simp add: delay_link_def run)
  moreover have "alarm_frame (insert run (set D)) k ((set_previous run (Some run) (set_next run (Some run) k))\<lparr>ptEventDelay := Some run\<rparr>)"
    by (auto intro!: relink)
  ultimately show ?thesis using True
    by (auto simp: delay_rep_def walk_insert_def cdll_def set_ecb_defs)
next
  case False
  note A = delay_repD [OF rep]
  let ?P = "\<lambda>x. det k x \<le> det k run" and ?s = "walk_stop (\<lambda>x. det k x \<le> det k run) D"
  have c: "cdll (nx k) (pv k) D" and pd: "ptEventDelay k = Some (hd D)" using A False by auto
  have s1: "?s \<in> set D" by (rule walk_stop_in [OF False])
  moreover have "run \<noteq> ?s" using s1 run(2) by metis
  ultimately have s: "?s \<in> set D" "run \<noteq> ?s" .
  obtain q where q: "pv k ?s = Some q" "q \<in> set D" using cdll_next_prev_Some [OF c s(1)] by auto
  let ?k1 = "set_previous ?s (Some run) (set_next q (Some run) (set_previous run (Some q) (set_next run (Some ?s) k)))"
  have "delay_link k = Some (if det k run < det k (hd D) then ?k1\<lparr>ptEventDelay := Some run\<rparr> else ?k1)"
    using ring_walk_cdll [OF c, of ?P] link_before_eq [OF q(1) s(2)]
    by (simp add: delay_link_def run pd Let_def set_ecb_defs)
  moreover have "cdll ((nx k)(run := Some ?s, q := Some run)) ((pv k)(run := Some q, ?s := Some run)) (walk_insert ?P run D)"
    by (rule cdll_walk_insert [OF c run(2) q(1)])
  moreover have "hd (walk_insert ?P run D) = (if det k run < det k (hd D) then run else hd D)"
    using False by (auto simp: hd_walk_insert)
  moreover have "sorted (map (det k) (walk_insert ?P run D))" by (rule sorted_walk_insert [OF A(4)])
  moreover have "walk_insert ?P run D \<noteq> []" by (simp add: walk_insert_def)
  moreover have "alarm_frame (insert run (set D)) k (if det k run < det k (hd D) then ?k1\<lparr>ptEventDelay := Some run\<rparr> else ?k1)"
    using q s by (auto intro!: relink)
  ultimately show ?thesis using pd by (auto simp: delay_rep_def set_ecb_defs)
qed

lemma alarm_frame_kernel:
  assumes "alarm_frame A k k'"
  shows "ptEventReady k' = ptEventReady k" "cells k' = cells k" "ptEventRunning k' = ptEventRunning k"
    "OsTicks k' = OsTicks k" "kernel.more k' = kernel.more k"
proof -
  have *: "k = k'\<lparr>ecbs := ecbs k, ptEventDelay := ptEventDelay k\<rparr>"
    using assms by (simp add: alarm_frame_def)
  show "ptEventReady k' = ptEventReady k" "cells k' = cells k" "ptEventRunning k' = ptEventRunning k"
    "OsTicks k' = OsTicks k" "kernel.more k' = kernel.more k"
    by (subst *, simp)+
qed

text \<open>Any change that only concerns the alarm queue keeps the other queues.\<close>

lemma kinv_alarm_frame:
  assumes inv: "kinv k R D S" and fr: "alarm_frame A k k'" and A: "A \<inter> set R = {}"
    and D': "delay_rep k' D'" "set D' \<subseteq> A \<union> set D" "set D' \<inter> set R = {}"
    and sh: "\<And>e h. e \<in> set D' \<Longrightarrow> shd k e = Some h \<Longrightarrow> e \<in> set (S h)"
  shows "kinv k' R D' S"
proof -
  note I = kinvD [OF inv]
  note F = alarm_frame_kernel [OF fr]
  have G: "mnx k' = mnx k" "mpv k' = mpv k" "pr k' = pr k" "shd k' = shd k" "\<And>x. x \<notin> A \<Longrightarrow> ecbs k' x = ecbs k x"
    using fr by (auto simp: alarm_frame_def)
  have "x \<notin> A" if "x \<in> set R" for x using A that by auto
  then have "ready_rep k' R" by (intro ready_rep_cong [OF I(1) F(1)]) (simp add: fld_def G(5))
  moreover have "sync_rep k' h (S h)" for h by (rule sync_rep_cong [OF I(3)]) (simp_all add: F G)
  ultimately show ?thesis unfolding kinv_def using D'(1,3) I(5,6) sh by (auto simp: G)
qed

lemma kinv_delay_link:
  assumes inv: "kinv k R D S" and run: "ptEventRunning k = run" "run \<notin> set D" "run \<notin> set R"
    and sh: "\<And>h. shd k run = Some h \<Longrightarrow> run \<in> set (S h)"
  shows "\<exists>k'. delay_link k = Some k' \<and> kinv k' R (walk_insert (\<lambda>x. det k x \<le> det k run) run D) S \<and>
    alarm_frame (insert run (set D)) k k' \<and> det k' = det k"
proof -
  obtain k' where k': "delay_link k = Some k'" "delay_rep k' (walk_insert (\<lambda>x. det k x \<le> det k run) run D)"
    "alarm_frame (insert run (set D)) k k'" "det k' = det k"
    using delay_link_rep [OF kinvD(2) [OF inv] run(1,2)] by auto
  have "kinv k' R (walk_insert (\<lambda>x. det k x \<le> det k run) run D) S"
    by (rule kinv_alarm_frame [OF inv k'(3) _ k'(2)])
       (use kinvD(4,6) [OF inv] run sh in auto)
  with k' show ?thesis by blast
qed

text \<open>The fields the running event gets before it is inserted do not matter to the queues.\<close>

lemma kinv_AddToDelay:
  fixes us :: u32
  assumes inv: "kinv k R D S" and run: "ptEventRunning k = run" "run \<notin> set D" "run \<notin> set R"
    and sh: "\<And>h. shd k run = Some h \<Longrightarrow> run \<in> set (S h)"
  defines "t \<equiv> OsTicks k + delay_ticks us k"
  shows "\<exists>k'. DJY_AddToDelay us k = Some k' \<and> kinv k' R (walk_insert (\<lambda>x. det k x \<le> t) run D) S \<and>
    det k' = (det k)(run := t) \<and> alarm_frame (insert run (set D)) k k'"
proof -
  let ?k1 = "set_fld delay_end_tick_update run t (set_fld delay_start_tick_update run (OsTicks k) k)"
  have inv1: "kinv ?k1 R D S"
  proof -
    have "delay_rep ?k1 D" by (rule delay_rep_cong [OF kinvD(2) [OF inv]]) (use run(2) in auto)
    then show ?thesis using inv by (simp add: kinv_def ready_rep_def sync_rep_def)
  qed
  have "DJY_AddToDelay us k = delay_link ?k1"
    by (simp add: DJY_AddToDelay_def run Let_def DJY_GetSysTick_def t_def delay_ticks_def)
  moreover obtain k' where k': "delay_link ?k1 = Some k'"
      "kinv k' R (walk_insert (\<lambda>x. det ?k1 x \<le> det ?k1 run) run D) S"
      "alarm_frame (insert run (set D)) ?k1 k'" "det k' = det ?k1"
    using kinv_delay_link [OF inv1, of run] run sh by auto
  moreover have "walk_insert (\<lambda>x. det ?k1 x \<le> det ?k1 run) run D = walk_insert (\<lambda>x. det k x \<le> t) run D"
    by (rule walk_insert_cong) (use run(2) in auto)
  moreover have "alarm_frame (insert run (set D)) k k'"
    by (rule alarm_frame_trans [OF _ k'(3)]) (auto intro!: relink)
  ultimately show ?thesis by auto
qed

lemma kinv_ResumeDelay:
  assumes inv: "kinv k R D S" and e: "e \<in> set D"
  shows "\<exists>k'. DJY_ResumeDelay e k = Some k' \<and> kinv k' R (remove1 e D) S \<and>
    nx k' e = None \<and> pv k' e = None \<and> det k' = (det k)(e := OsTicks k) \<and> alarm_frame (set D) k k'"
proof -
  note I = kinvD [OF inv]
  note A = delay_repD [OF I(2)]
  have c: "cdll (nx k) (pv k) D" and pd: "ptEventDelay k = Some (hd D)" using A e by auto
  obtain n p where np: "nx k e = Some n" "pv k e = Some p" "n \<in> set D" "p \<in> set D"
    using cdll_next_prev_Some [OF c e] by auto
  have hdn: "nx k (hd D) = Some (hd (tl D @ [hd D]))"
    using cdll_nextD [of "nx k" "pv k" "hd D" "tl D"] c e by (cases D) auto
  have one: "nx k (hd D) = Some (hd D) \<longleftrightarrow> D = [e]"
    using hdn A(5) e by (cases D; cases "tl D") auto
  let ?fin = "\<lambda>k. set_fld delay_end_tick_update e (OsTicks k) (set_previous e None (set_next e None k))"
  let ?k1 = "if D = [e] then k\<lparr>ptEventDelay := None\<rparr>
     else set_next p (Some n) (set_previous n (Some p) (k\<lparr>ptEventDelay := Some (hd (remove1 e D))\<rparr>))"
  have hd': "hd (remove1 e D) = (if hd D = e then hd (tl D) else hd D)" "D \<noteq> [e] \<Longrightarrow> hd D = e \<Longrightarrow> tl D \<noteq> []"
    using e by (cases D; cases "tl D"; auto)+
  have kid: "k\<lparr>ptEventDelay := Some (hd D)\<rparr> = k" using pd by simp
  then have "DJY_ResumeDelay e k = Some (?fin ?k1)"
    using one hd' hdn pd np unlink_eq [of k e n p] unlink_eq [of "k\<lparr>ptEventDelay := Some (hd (tl D))\<rparr>" e n p]
    by (auto simp: DJY_ResumeDelay_def DJY_GetSysTick_def Let_def set_ecb_defs hd_append2 kid)
  moreover have rep': "delay_rep (?fin ?k1) (remove1 e D)"
  proof (cases "D = [e]")
    case False
    have "cdll ((nx k)(p := Some n)) ((pv k)(n := Some p)) (remove1 e D)"
      by (rule cdll_remove [OF c e False np(1,2)])
    moreover have "sorted (map (det k) (remove1 e D))" by (rule sorted_remove1_map [OF A(4)])
    moreover have "remove1 e D \<noteq> []" using e False by (cases D) (auto split: if_splits)
    moreover have "e \<notin> set (remove1 e D)" using A(5) by simp
    moreover from this have M: "map ((det k)(e := OsTicks k)) (remove1 e D) = map (det k) (remove1 e D)" by auto
    ultimately show ?thesis using False by (simp add: delay_rep_def set_ecb_defs cdll_frame M del: map_fun_upd)
  qed (simp add: delay_rep_def set_ecb_defs)
  moreover have fr: "alarm_frame (set D) k (?fin ?k1)"
    using np e by (cases "D = [e]") (auto intro!: relink)
  moreover have sub: "x \<in> set (remove1 e D) \<Longrightarrow> x \<in> set D" for x using notin_set_remove1 by metis
  then have "kinv (?fin ?k1) R (remove1 e D) S"
    by (intro kinv_alarm_frame [OF inv fr _ rep']) (use I(4,6) in \<open>auto simp: disjoint_iff\<close>)
  ultimately show ?thesis by (auto simp: set_ecb_defs)
qed

section \<open>Properties\<close>

definition enq_all :: "('e \<Rightarrow> 'p::linorder) \<Rightarrow> 'e list \<Rightarrow> 'e list \<Rightarrow> 'e list" where
  "enq_all f W R = fold (\<lambda>e. walk_insert (\<lambda>x. f x \<le> f e) e) W R"

lemma set_enq_all: "set (enq_all f W R) = set W \<union> set R"
  unfolding enq_all_def by (induction W arbitrary: R) auto

lemma gheads_enq_all: "set (gheads f R) \<subseteq> set (gheads f (enq_all f W R))"
  unfolding enq_all_def
proof (induction W arbitrary: R)
  case (Cons e W)
  have "set (gheads f R) \<subseteq> set (gheads f (walk_insert (\<lambda>x. f x \<le> f e) e R))"
    using gheads_walk_insert [of "\<lambda>v. v \<le> f e" f e R] by auto
  also have "\<dots> \<subseteq> set (gheads f (fold (\<lambda>e. walk_insert (\<lambda>x. f x \<le> f e) e) W (walk_insert (\<lambda>x. f x \<le> f e) e R)))"
    by (rule Cons.IH)
  finally show ?case by simp
qed simp

definition rotate_due :: "int \<Rightarrow> u32 \<Rightarrow> (nat \<Rightarrow> u8) \<Rightarrow> nat \<Rightarrow> nat list \<Rightarrow> bool" where
  "rotate_due t sl f run R \<longleftrightarrow> sl \<noteq> 0 \<and> (word_of_int t :: u32) mod sl = 0 \<and>
     (\<exists>x\<in>set R - {run}. f x = f run)"

lemma next_in_group:
  assumes rep: "ready_rep k R" and g: "run \<in> set (gheads (pr k) R)"
  obtains us vs n where "R = us @ run # vs" "us = [] \<or> pr k (last us) \<noteq> pr k run" "nx k run = Some n"
    "pr k run = pr k n \<and> run \<noteq> n \<longleftrightarrow> vs \<noteq> [] \<and> pr k (hd vs) = pr k run"
    "(\<exists>x\<in>set R - {run}. pr k x = pr k run) \<longleftrightarrow> vs \<noteq> [] \<and> pr k (hd vs) = pr k run"
proof -
  note A = ready_repD [OF rep]
  obtain us vs where R: "R = us @ run # vs" using g set_gheads split_list by fastforce
  have h: "us = [] \<or> pr k (last us) \<noteq> pr k run"
    using in_gheads_iff [of us run vs "pr k"] A(6) g R by simp
  have lt: "\<And>x. x \<in> set us \<Longrightarrow> pr k x < pr k run"
  proof -
    fix x assume x: "x \<in> set us"
    then have "pr k x \<le> pr k (last us)" using A(3) R by (cases us rule: rev_cases) (auto simp: sorted_append)
    also have "\<dots> < pr k run" using sorted_last_hd(1) [of "pr k" us run vs] A(3) R h x by auto
    finally show "pr k x < pr k run" .
  qed
  have ge: "\<And>x. x \<in> set vs \<Longrightarrow> pr k (hd vs) \<le> pr k x \<and> pr k run \<le> pr k x"
    using A(3) R by (cases vs) (auto simp: sorted_append)
  have "cdll (nx k) (pv k) (run # vs @ us)" using cdll_rotate [of "nx k" "pv k" us "run # vs"] A(4) R by simp
  from cdll_nextD [OF this] have n: "nx k run = Some (hd ((vs @ us) @ [run]))" .
  have d: "distinct R" by (rule A(6))
  have 1: "pr k run = pr k (hd ((vs @ us) @ [run])) \<and> run \<noteq> hd ((vs @ us) @ [run]) \<longleftrightarrow>
      vs \<noteq> [] \<and> pr k (hd vs) = pr k run"
    using d R lt [of "hd us"] by (cases vs; cases us) auto
  have 2: "(\<exists>x\<in>set R - {run}. pr k x = pr k run) \<longleftrightarrow> vs \<noteq> [] \<and> pr k (hd vs) = pr k run"
  proof
    assume "\<exists>x\<in>set R - {run}. pr k x = pr k run"
    then obtain x where x: "x \<in> set us \<union> set vs" "pr k x = pr k run" using R d by auto
    then have "x \<in> set vs" using lt by fastforce
    with x ge [of x] ge [of "hd vs"] show "vs \<noteq> [] \<and> pr k (hd vs) = pr k run" by (cases vs) auto
  next
    assume "vs \<noteq> [] \<and> pr k (hd vs) = pr k run"
    then show "\<exists>x\<in>set R - {run}. pr k x = pr k run" using R d by (intro bexI [of _ "hd vs"]) auto
  qed
  show ?thesis by (rule that [OF R h n 1 2])
qed

lemma kinv_relinked_ready:
  assumes inv: "kinv k R D S" and rep: "ready_rep k' R'" and fr: "relinked (set R) k k'" and R': "set R' = set R"
  shows "kinv k' R' D S"
proof -
  note I = kinvD [OF inv]
  note rk = relinked_kernel [OF fr] relinked_data [OF fr]
  have D: "x \<notin> set R" if "x \<in> set D" for x using that I(4) by auto
  have SS: "x \<notin> set R" if "x \<in> set (S h)" for x h using that I(5) [of h] by auto
  have "delay_rep k' D"
    by (rule delay_rep_cong [OF I(2)]) (simp_all add: relinked_outside [OF fr D] rk)
  moreover have "sync_rep k' h (S h)" for h
    by (rule sync_rep_cong [OF I(3) [of h]]) (simp_all add: relinked_outside [OF fr SS] rk)
  ultimately show ?thesis unfolding kinv_def using I(4-6) rep R' by (simp add: rk)
qed

lemma ScheduleIsr_rep:
  fixes inc_ticks :: u32
  assumes inv: "kinv k R D S" and run: "ptEventRunning k \<in> set (gheads (pr k) R)"
    and idle: "idle \<in> set R" "\<And>x. x \<in> set R \<union> set D \<Longrightarrow> x \<noteq> idle \<Longrightarrow> pr k x < pr k idle"
  defines "t \<equiv> OsTicks k + uint inc_ticks"
  defines "W \<equiv> takeWhile (\<lambda>e. det k e \<le> t) D"
  defines "R1 \<equiv> enq_all (pr k) W R"
  defines "R2 \<equiv> (if rotate_due t (RRS_Slice k) (pr k) (ptEventRunning k) R1
                 then enq_all (pr k) [ptEventRunning k] (remove1 (ptEventRunning k) R1) else R1)"
  shows "\<exists>k'. DJY_ScheduleIsr inc_ticks k = Some k' \<and> OsTicks k' = t \<and>
    kinv k' R2 (dropWhile (\<lambda>e. det k e \<le> t) D) (\<lambda>h. fold remove1 W (S h)) \<and> woken W k k' \<and> tick_frame (k\<lparr>OsTicks := t\<rparr>) k' \<and> pr k' = pr k"
proof -
  let ?k0 = "k\<lparr>OsTicks := t\<rparr>" and ?run = "ptEventRunning k"
  have inv0: "kinv ?k0 R D S" by (rule kinv_cong [OF inv]) simp_all
  obtain k1 where k1: "(case ptEventDelay ?k0 of None \<Rightarrow> Some ?k0 | Some d \<Rightarrow> isr_wake d ?k0) = Some k1"
      "kinv k1 R1 (dropWhile (\<lambda>e. det k e \<le> t) D) (\<lambda>h. fold remove1 W (S h))"
      "pr k1 = pr k" "ptEventRunning k1 = ?run" "OsTicks k1 = t" "RRS_Slice k1 = RRS_Slice k"
      "woken W ?k0 k1" "tick_frame ?k0 k1"
  proof (cases "D = []")
    case True
    then show ?thesis using that [of ?k0] inv0 delay_repD(1) [OF kinvD(2) [OF inv]]
      by (auto simp: W_def R1_def enq_all_def woken_def)
  next
    case False
    then have pd: "ptEventDelay ?k0 = Some (hd D)" using delay_repD(2) [OF kinvD(2) [OF inv]] by simp
    obtain k' where K: "isr_wake (hd D) ?k0 = Some k'"
        "kinv k' R1 (dropWhile (\<lambda>e. det k e \<le> t) D) (\<lambda>h. fold remove1 W (S h))"
        "pr k' = pr k" "ptEventRunning k' = ?run" "OsTicks k' = t" "RRS_Slice k' = RRS_Slice k" "woken W ?k0 k'" "tick_frame ?k0 k'"
      using isr_wake_all [OF inv0 False] by (auto simp: W_def R1_def enq_all_def)
    show ?thesis by (rule that [of k']) (use K pd in simp_all)
  qed
  have g1: "?run \<in> set (gheads (pr k1) R1)" using run gheads_enq_all [of "pr k" R W] by (auto simp: R1_def k1(3))
  obtain us vs n where n: "R1 = us @ ?run # vs" "us = [] \<or> pr k1 (last us) \<noteq> pr k1 ?run" "nx k1 ?run = Some n"
    "pr k1 ?run = pr k1 n \<and> ?run \<noteq> n \<longleftrightarrow> vs \<noteq> [] \<and> pr k1 (hd vs) = pr k1 ?run"
    "(\<exists>x\<in>set R1 - {?run}. pr k1 x = pr k1 ?run) \<longleftrightarrow> vs \<noteq> [] \<and> pr k1 (hd vs) = pr k1 ?run"
    by (rule next_in_group [OF kinvD(1) [OF k1(2)] g1])
  have step: "DJY_ScheduleIsr inc_ticks k =
      (if rotate_due t (RRS_Slice k) (pr k) ?run R1 then rrs_rotate k1 else Some k1)"
    unfolding DJY_ScheduleIsr_def Let_def t_def [symmetric] k1(1) using n(3-5)
    by (auto simp: rotate_due_def k1(3-6))
  show ?thesis
  proof (cases "rotate_due t (RRS_Slice k) (pr k) ?run R1")
    case False
    then show ?thesis using step k1 by (auto simp: R2_def woken_def)
  next
    case True
    then have vs: "vs \<noteq> []" "pr k1 (hd vs) = pr k1 ?run" using n(5) by (auto simp: rotate_due_def k1)
    have sW: "set R1 = set W \<union> set R" by (simp add: R1_def set_enq_all)
    have sR: "set R1 \<subseteq> set R \<union> set D" using sW set_takeWhileD by (fastforce simp: W_def)
    have d1: "distinct R1" using ready_repD(6) [OF kinvD(1) [OF k1(2)]] .
    have "?run \<noteq> idle"
    proof
      assume "?run = idle"
      moreover have "hd vs \<in> set R1" "hd vs \<noteq> ?run" using n(1) vs(1) d1 by (cases vs; auto)+
      ultimately show False using idle(2) [of "hd vs"] sR vs by (auto simp: k1)
    qed
    then have two: "\<exists>x\<in>set (us @ vs). pr k1 x \<noteq> pr k1 ?run"
      using idle n(1) sW sR by (intro bexI [of _ idle]) (fastforce simp: k1)+
    have Ru: "remove1 ?run R1 = us @ vs" using n(1) d1 by (simp add: remove1_append)
    obtain k2 where k2: "rrs_rotate k1 = Some k2" "ready_rep k2 R2" "relinked (set R1) k1 k2"
      using rrs_rotate_rep [of k1 us ?run vs] kinvD(1) [OF k1(2)] n(1,2) vs two True Ru
      by (auto simp: k1 R2_def enq_all_def)
    have "set R2 = set R1" using True n(1) Ru by (auto simp: R2_def set_enq_all)
    from kinv_relinked_ready [OF k1(2) k2(2,3) this]
    show ?thesis
      using step True k2 k1 tick_frame_trans [OF k1(8) relinked_tick_frame [OF k2(3)]] relinked_pr [OF k2(3)]
      by (auto simp: relinked_kernel [OF k2(3)] relinked_data [OF k2(3)] woken_def)
  qed
qed

text \<open>C3. The tick interrupt \<open>DJY_ScheduleIsr\<close>, for any number of ticks: the loop ends; exactly the events
  whose alarm time has come leave the alarm queue, in the order of their alarm times, and are
  inserted into the ready queue by priority; each also leaves the synchronisation queue it was
  waiting in, becomes ready and finds its former state in \<open>wakeup_from\<close>; then the running event
  goes behind the other events of its priority exactly when the time slice is over and there are
  such events.  All queues stay consistent.\<close>

theorem ScheduleIsr_wakes:
  fixes inc_ticks :: u32
  assumes inv: "kinv k R D S" and run: "ptEventRunning k \<in> set (gheads (pr k) R)"
    and idle: "idle \<in> set R" "\<And>x. x \<in> set R \<union> set D \<Longrightarrow> x \<noteq> idle \<Longrightarrow> pr k x < pr k idle"
  defines "t \<equiv> OsTicks k + uint inc_ticks"
  defines "W \<equiv> takeWhile (\<lambda>e. det k e \<le> t) D"
  defines "R1 \<equiv> enq_all (pr k) W R"
  defines "R2 \<equiv> (if rotate_due t (RRS_Slice k) (pr k) (ptEventRunning k) R1
                 then enq_all (pr k) [ptEventRunning k] (remove1 (ptEventRunning k) R1) else R1)"
  shows "\<exists>k'. DJY_ScheduleIsr inc_ticks k = Some k' \<and> OsTicks k' = t \<and>
    kinv k' R2 (dropWhile (\<lambda>e. det k e \<le> t) D) (\<lambda>h. fold remove1 W (S h)) \<and> woken W k k'"
  using ScheduleIsr_rep [OF inv run idle, of inc_ticks] unfolding t_def W_def R1_def R2_def by blast

lemma busy_kinv: "kinv (busy_kernel m) [1, 0] [2, 3] busy_syncs"
proof -
  note defs = busy_kernel_def busy_ecbs_def sample_ecbs_def ecb0_def fld_def cdll_def
  have "ready_rep (busy_kernel m) [1, 0]" by (simp add: ready_rep_def defs)
  moreover have "delay_rep (busy_kernel m) [2, 3]" by (simp add: delay_rep_def defs)
  moreover have "sync_rep (busy_kernel m) h (busy_syncs h)" for h
    by (auto simp: sync_rep_def busy_syncs_def busy_cells_def defs)
  moreover have "set [1, 0] \<inter> set (busy_syncs h) = {}" for h by (simp add: busy_syncs_def)
  moreover have "shd (busy_kernel m) e = Some h \<longrightarrow> e \<in> set (busy_syncs h)" if "e \<in> set [1, 0] \<union> set [2, 3]" for e h
    using that by (auto simp: busy_syncs_def defs)
  ultimately show ?thesis unfolding kinv_def by simp
qed

theorem ScheduleIsr_wakes_witness:
  "\<exists>k'. DJY_ScheduleIsr 6 (busy_kernel ()) = Some k' \<and> kinv k' [2, 1, 0] [3] (busy_syncs(SempSync 0 := []))"
proof -
  have g: "ptEventRunning (busy_kernel ()) \<in> set (gheads (pr (busy_kernel ())) [1, 0])"
    by (simp add: busy_kernel_def busy_ecbs_def sample_ecbs_def ecb0_def fld_def)
  have i: "pr (busy_kernel ()) x < pr (busy_kernel ()) 0" if "x \<in> set [1, 0] \<union> set [2, 3]" "x \<noteq> 0" for x
    using that by (auto simp: busy_kernel_def busy_ecbs_def sample_ecbs_def ecb0_def fld_def)
  let ?k = "busy_kernel ()"
  have v: "OsTicks ?k = 0" "RRS_Slice ?k = 1" "ptEventRunning ?k = 1" "det ?k 2 = 5" "det ?k 3 = 9"
      "pr ?k 0 = 250" "pr ?k (Suc 0) = 100" "pr ?k 2 = 100"
    by (simp_all add: busy_kernel_def busy_ecbs_def sample_ecbs_def ecb0_def fld_def)
  have "(\<lambda>h. fold remove1 [2] (busy_syncs h)) = busy_syncs(SempSync 0 := [])" by (auto simp: busy_syncs_def)
  moreover have "enq_all (pr ?k) [2] [1, 0] = [1, 2, 0]" "enq_all (pr ?k) [1] [2, 0] = [2, 1, 0]"
    by (simp_all add: v enq_all_def walk_insert_def)
  moreover have "rotate_due 6 1 (pr ?k) 1 [1, 2, 0]" by (simp add: v rotate_due_def)
  ultimately show ?thesis using ScheduleIsr_wakes [OF busy_kinv g, of 0 6, OF _ i] by (auto simp: v)
qed

end
