(* ===== verification/Djy_Sched.thy ===== *)
theory Djy_Sched
  imports Djy_Delay
begin

text \<open>
  Choosing the event to run and switching to it (\<open>__DJY_CreateThread\<close>, \<open>__DJY_SelectEventToRun\<close>,
  \<open>__DJY_Schedule\<close>, \<open>__DJY_ScheduleAsynSignal\<close> of \<open>src/djyos/core/djyos.c\<close>) and the nesting counter of
  the asynchronous signal that decides when that happens (\<open>src/djyos/int/int.c\<close>).

  The allocator of thread stacks is called through the function pointers \<open>__MallocStack\<close> and
  \<open>M_CheckSize\<close>, which the heap modules set; it is the argument \<open>E\<close> of the definitions.  The allocator
  may take the event out of the ready queue (when it has to wait for memory), so it acts on the
  kernel.  A thread is addressed by a natural number.

  \<open>__asm_switch_context\<close> does not return to its caller until the caller's event runs again.  The model
  of an operation that calls it ends with the switch, recorded in \<open>kout\<close>; what follows in the source
  is a definition of its own with the suffix \<open>_resume\<close>.
\<close>

record 'k stack_env =
  se_malloc :: "nat \<Rightarrow> u32 \<Rightarrow> 'k \<Rightarrow> ('k \<times> nat option) option"
  se_checksize :: "nat \<Rightarrow> u32"

definition sizeof_ThreadVm :: u32 where "sizeof_ThreadVm = 24"
definition CN_EVTT_ID_MASK :: u16 where "CN_EVTT_ID_MASK = 0x4000"

definition align_up_sys :: "u32 \<Rightarrow> u32" where
  "align_up_sys x = (x + 7) AND (NOT 7)"

definition evtt_index :: "u16 \<Rightarrow> nat" where
  "evtt_index i = unat (i AND (NOT CN_EVTT_ID_MASK))"

definition upd_evtt :: "nat \<Rightarrow> (EventType \<Rightarrow> EventType) \<Rightarrow> 'a kernel_scheme \<Rightarrow> 'a kernel_scheme" where
  "upd_evtt i f k = k\<lparr>evtts := (evtts k)(i := f (evtts k i))\<rparr>"

definition upd_vm :: "nat \<Rightarrow> (ThreadVm \<Rightarrow> ThreadVm) \<Rightarrow> 'a kernel_scheme \<Rightarrow> 'a kernel_scheme" where
  "upd_vm i f k = k\<lparr>vms := (vms k)(i := f (vms k i))\<rparr>"

definition DJY_SaveLastError :: "knl_error \<Rightarrow> 'a kernel_scheme \<Rightarrow> 'a kernel_scheme" where
  "DJY_SaveLastError err k = set_fld error_no_update (ptEventRunning k) err k"

definition DJY_GetLastError :: "'a kernel_scheme \<Rightarrow> knl_error" where
  "DJY_GetLastError k = fld error_no k (ptEventRunning k)"

definition DJY_SetRRS_Slice :: "u32 \<Rightarrow> 'a kernel_scheme \<Rightarrow> 'a kernel_scheme" where
  "DJY_SetRRS_Slice slices k = k\<lparr>RRS_Slice := (slices + cfg_tick_us k - 1) div cfg_tick_us k\<rparr>"

definition DJY_GetRRS_Slice :: "'a kernel_scheme \<Rightarrow> u32" where
  "DJY_GetRRS_Slice k = RRS_Slice k * cfg_tick_us k"

text \<open>A thread's block: the size is what \<open>M_CheckSize\<close> reports, the header is at its start.\<close>

definition init_vm :: "nat \<Rightarrow> u32 \<Rightarrow> 'a kernel_scheme \<Rightarrow> 'a kernel_scheme" where
  "init_vm v len k = upd_vm v (\<lambda>_. \<lparr>stack_top = word_of_nat v + len, stack_used = word_of_nat v + len,
     vm_next = None, vm_stack_size = len - sizeof_ThreadVm, host_vm = None\<rparr>) k"

definition DJY_CreateThread ::
    "'a kernel_scheme stack_env \<Rightarrow> nat \<Rightarrow> 'a kernel_scheme \<Rightarrow> ('a kernel_scheme \<times> nat option) option" where
  "DJY_CreateThread E evtt k = do {
     let len = align_up_sys (stack_size (evtts k evtt));
     let event = ptEventReady k;
     (k, result) \<leftarrow> se_malloc E event len k;
     let k = set_fld wait_mem_size_update event len k;
     case result of
       None \<Rightarrow> Some (DJY_SaveLastError EN_MEM_TRIED k, None)
     | Some v \<Rightarrow> Some (init_vm v (se_checksize E v) k, Some v) }"

partial_function (option) DJY_SelectEventToRun ::
    "'a kernel_scheme stack_env \<Rightarrow> 'a kernel_scheme \<Rightarrow> 'a kernel_scheme option" where
  "DJY_SelectEventToRun E k =
     (let event = ptEventReady k in
      if fld vm k event \<noteq> None then Some k
      else let pl_evtt = evtt_index (fld evtt_id k event) in
        case my_free_vm (evtts k pl_evtt) of
          Some v \<Rightarrow>
            (let k = init_vm v (vm_stack_size (vms k v) + sizeof_ThreadVm) k;
                 k = set_fld vm_update event (Some v) k;
                 k = upd_evtt pl_evtt (\<lambda>t. t\<lparr>my_free_vm := vm_next (vms k v)\<rparr>) k
             in DJY_SelectEventToRun E k)
        | None \<Rightarrow> do {
            r \<leftarrow> DJY_CreateThread E pl_evtt k;
            case snd r of
              None \<Rightarrow> DJY_SelectEventToRun E (fst r)
            | Some v \<Rightarrow>
                (let k = set_fld vm_update (ptEventReady (fst r)) (Some v) (fst r);
                     k = upd_evtt pl_evtt (\<lambda>t. t\<lparr>vpus := vpus t + 1\<rparr>) k
                 in DJY_SelectEventToRun E k) })"

definition SchHook_call :: "nat \<Rightarrow> bool \<Rightarrow> 'a kernel_scheme \<Rightarrow> 'a kernel_scheme" where
  "SchHook_call event is_in k =
     k\<lparr>kout := kout k @ [HookCall (SchHook (evtts k (evtt_index (fld evtt_id k event)))) is_in]\<rparr>"

text \<open>The switch itself: the consumed time of the event that leaves is brought up to date (from the
  low 32 bits of the clock), its hook runs, and the context is switched.\<close>

definition DJY_Schedule :: "'a kernel_scheme stack_env \<Rightarrow> 'a kernel_scheme \<Rightarrow> ('a kernel_scheme \<times> bool) option" where
  "DJY_Schedule E k = do {
     k \<leftarrow> DJY_SelectEventToRun E k;
     if ptEventReady k \<noteq> ptEventRunning k then do {
       let event = ptEventRunning k;
       let time = uint (word_of_int (SysTime k) :: u32);
       let k = set_fld consumed_time_update event (fld consumed_time k event + (time - RunningStartTime k)) k;
       let k = k\<lparr>RunningStartTime := time\<rparr>;
       let k = SchHook_call event False k;
       let k = k\<lparr>ptEventRunning := ptEventReady k\<rparr>;
       Some (k\<lparr>kout := kout k @ [SwitchContext (fld vm k (ptEventReady k)) (fld vm k event)]\<rparr>, True) }
     else Some (k, False) }"

definition DJY_Schedule_resume :: "'a kernel_scheme \<Rightarrow> 'a kernel_scheme" where
  "DJY_Schedule_resume k = SchHook_call (ptEventRunning k) True k"

definition DJY_ScheduleAsynSignal :: "'a kernel_scheme stack_env \<Rightarrow> 'a kernel_scheme \<Rightarrow> 'a kernel_scheme option" where
  "DJY_ScheduleAsynSignal E k = do {
     k \<leftarrow> DJY_SelectEventToRun E k;
     if ptEventReady k \<noteq> ptEventRunning k then do {
       let event = ptEventRunning k;
       let time = uint (word_of_int (SysTime k) :: u32);
       let k = set_fld consumed_time_update event (fld consumed_time k event + (time - RunningStartTime k)) k;
       let k = k\<lparr>RunningStartTime := time\<rparr>;
       let k = SchHook_call event False k;
       let k = k\<lparr>ptEventRunning := ptEventReady k\<rparr>;
       Some (k\<lparr>kout := kout k @ [SwitchContext (fld vm k (ptEventReady k)) (fld vm k event)]\<rparr>) }
     else Some k }"

definition DJY_QuerySch :: "'a kernel_scheme \<Rightarrow> bool" where
  "DJY_QuerySch k = ScheduleEnable k"

definition DJY_IsMultiEventStarted :: "'a kernel_scheme \<Rightarrow> bool" where
  "DJY_IsMultiEventStarted k = MultiEventStarted k"

section \<open>The asynchronous signal\<close>

definition CN_LIMIT_UCPU :: u32 where "CN_LIMIT_UCPU = 0xFFFFFFFF"

definition Int_SaveAsynSignal :: "'a kernel_scheme \<Rightarrow> 'a kernel_scheme" where
  "Int_SaveAsynSignal k =
     (if nest_asyn_signal k \<noteq> 0 then k
      else let k = (if en_asyn_signal_counter k \<noteq> CN_LIMIT_UCPU
                    then k\<lparr>en_asyn_signal_counter := en_asyn_signal_counter k + 1\<rparr> else k)
           in k\<lparr>ScheduleEnable := False\<rparr>)"

definition Int_ResetAsynSignal :: "'a kernel_scheme \<Rightarrow> 'a kernel_scheme" where
  "Int_ResetAsynSignal k = k\<lparr>en_asyn_signal_counter := 1, ScheduleEnable := False\<rparr>"

definition Int_GetRunLevel :: "'a kernel_scheme \<Rightarrow> u32" where
  "Int_GetRunLevel k = nest_asyn_signal k"

definition Int_RestoreAsynSignal :: "'a kernel_scheme stack_env \<Rightarrow> 'a kernel_scheme \<Rightarrow> 'a kernel_scheme option" where
  "Int_RestoreAsynSignal E k =
     (if nest_asyn_signal k \<noteq> 0 then Some k
      else let k = (if en_asyn_signal_counter k \<noteq> 0
                    then k\<lparr>en_asyn_signal_counter := en_asyn_signal_counter k - 1\<rparr> else k)
           in if en_asyn_signal_counter k = 0 then
                let k = k\<lparr>ScheduleEnable := True\<rparr>
                in if ptEventRunning k \<noteq> ptEventReady k then map_option fst (DJY_Schedule E k)
                   else Some k
              else Some (k\<lparr>ScheduleEnable := False\<rparr>))"

definition Int_HalfEnableAsynSignal :: "'a kernel_scheme \<Rightarrow> 'a kernel_scheme" where
  "Int_HalfEnableAsynSignal k = k\<lparr>ScheduleEnable := True, en_asyn_signal_counter := 0\<rparr>"

definition Int_CheckAsynSignal :: "'a kernel_scheme \<Rightarrow> bool" where
  "Int_CheckAsynSignal k = (en_asyn_signal_counter k = 0)"

section \<open>What the stack allocator promises\<close>

text \<open>Called for the first ready event, the allocator either hands out memory and leaves the queues
  alone, or it refuses and has taken the event out of the ready queue (it waits for memory or for
  the heap's mutex then).  In both cases no event gains or loses a thread.\<close>

definition stack_provider :: "'a kernel_scheme stack_env \<Rightarrow> bool" where
  "stack_provider E \<longleftrightarrow> (\<forall>k R D S len. kinv k R D S \<longrightarrow> tl R \<noteq> [] \<longrightarrow>
     (\<exists>k' r. se_malloc E (hd R) len k = Some (k', r) \<and> fld vm k' = fld vm k \<and>
        ptEventRunning k' = ptEventRunning k \<and> kernel.more k' = kernel.more k \<and>
        (case r of Some v \<Rightarrow> kinv k' R D S
         | None \<Rightarrow> \<exists>R' S'. kinv k' R' D S' \<and> set R' = set R - {hd R})))"

lemma stack_providerD:
  assumes "stack_provider E" "kinv k R D S" "tl R \<noteq> []"
  obtains k' r where "se_malloc E (hd R) len k = Some (k', r)" "fld vm k' = fld vm k"
    "ptEventRunning k' = ptEventRunning k" "kernel.more k' = kernel.more k"
    "case r of Some v \<Rightarrow> kinv k' R D S | None \<Rightarrow> \<exists>R' S'. kinv k' R' D S' \<and> set R' = set R - {hd R}"
  using assms unfolding stack_provider_def by blast

lemma upd_simps [simp]:
  "ptEventReady (upd_evtt i f k) = ptEventReady k" "ptEventReady (upd_vm i g k) = ptEventReady k"
  "ptEventDelay (upd_evtt i f k) = ptEventDelay k" "ptEventDelay (upd_vm i g k) = ptEventDelay k"
  "ptEventRunning (upd_evtt i f k) = ptEventRunning k" "ptEventRunning (upd_vm i g k) = ptEventRunning k"
  "cells (upd_evtt i f k) = cells k" "cells (upd_vm i g k) = cells k"
  "fld h (upd_evtt i f k) = fld h k" "fld h (upd_vm i g k) = fld h k"
  by (simp_all add: upd_evtt_def upd_vm_def)

lemma init_vm_simps [simp]:
  "ptEventReady (init_vm v l k) = ptEventReady k" "ptEventDelay (init_vm v l k) = ptEventDelay k"
  "ptEventRunning (init_vm v l k) = ptEventRunning k" "cells (init_vm v l k) = cells k"
  "fld h (init_vm v l k) = fld h k"
  by (simp_all add: init_vm_def)

text \<open>\<open>settled k R k' R' D\<close>: a scheduling step led from the ready queue \<open>R\<close> to \<open>R'\<close>, whose first event
  has a thread; the events it dropped had none, and no event lost its thread.\<close>

definition settled :: "'a kernel_scheme \<Rightarrow> nat list \<Rightarrow> 'a kernel_scheme \<Rightarrow> nat list \<Rightarrow> nat list \<Rightarrow> bool" where
  "settled k R k' R' D \<longleftrightarrow> (\<exists>S'. kinv k' R' D S') \<and> set R' \<subseteq> set R \<and>
     (\<forall>e\<in>set R - set R'. fld vm k e = None) \<and> (\<exists>v. fld vm k' (ptEventReady k') = Some v) \<and>
     (\<forall>e. fld vm k e \<noteq> None \<longrightarrow> fld vm k' e = fld vm k e) \<and> kernel.more k' = kernel.more k"

lemma more_simps [simp]:
  "kernel.more (upd_ecb i f k) = kernel.more k" "kernel.more (upd_evtt j g k) = kernel.more k"
  "kernel.more (init_vm v l k) = kernel.more k"
  by (simp_all add: upd_ecb_def upd_evtt_def init_vm_def upd_vm_def)

lemma more_SaveAsyn [simp]: "kernel.more (Int_SaveAsynSignal k) = kernel.more k"
  by (simp add: Int_SaveAsynSignal_def Let_def)

lemma SelectEventToRun_done:
  "fld vm k (ptEventReady k) \<noteq> None \<Longrightarrow> DJY_SelectEventToRun E k = Some k"
  by (subst DJY_SelectEventToRun.simps) (simp add: Let_def)

lemma SelectEventToRun_settles:
  assumes E: "stack_provider E"
  shows "kinv k R D S \<Longrightarrow> i \<in> set R \<Longrightarrow> fld vm k i \<noteq> None \<Longrightarrow>
    \<exists>k' R'. DJY_SelectEventToRun E k = Some k' \<and> settled k R k' R' D \<and> ptEventRunning k' = ptEventRunning k"
proof (induction "length R" arbitrary: k R S rule: less_induct)
  case less
  note I = kinvD [OF less.prems(1)]
  let ?e = "ptEventReady k"
  have R: "?e = hd R" "R \<noteq> []" "distinct R" using ready_repD [OF I(1)] by auto
  show ?case
  proof (cases "fld vm k ?e = None")
    case False
    then show ?thesis using SelectEventToRun_done [of k E] less.prems(1) by (fastforce simp: settled_def)
  next
    case True
    have tl: "tl R \<noteq> []" using less.prems(2,3) True R by (cases R; cases "tl R") auto
    let ?t = "evtt_index (fld evtt_id k ?e)"
    show ?thesis
    proof (cases "my_free_vm (evtts k ?t)")
      case (Some v)
      let ?k1 = "set_fld vm_update ?e (Some v) (init_vm v (vm_stack_size (vms k v) + sizeof_ThreadVm) k)"
      let ?k2 = "upd_evtt ?t (\<lambda>t. t\<lparr>my_free_vm := vm_next (vms ?k1 v)\<rparr>) ?k1"
      have "DJY_SelectEventToRun E k = DJY_SelectEventToRun E ?k2"
        by (subst DJY_SelectEventToRun.simps) (simp add: Let_def True Some)
      also have "\<dots> = Some ?k2" by (rule SelectEventToRun_done) simp
      finally have eq: "DJY_SelectEventToRun E k = Some ?k2" .
      have "kinv ?k2 R D S" by (rule kinv_cong [OF less.prems(1)]) simp_all
      then have "settled k R ?k2 R D" using True by (auto simp: settled_def)
      then show ?thesis using eq by auto
    next
      case None
      let ?len = "align_up_sys (stack_size (evtts k ?t))"
      obtain k1 r where k1: "se_malloc E (hd R) ?len k = Some (k1, r)" "fld vm k1 = fld vm k"
          "ptEventRunning k1 = ptEventRunning k" "kernel.more k1 = kernel.more k"
          "case r of Some v \<Rightarrow> kinv k1 R D S | None \<Rightarrow> \<exists>R' S'. kinv k1 R' D S' \<and> set R' = set R - {hd R}"
        by (rule stack_providerD [OF E less.prems(1) tl])
      let ?k2 = "set_fld wait_mem_size_update ?e ?len k1"
      show ?thesis
      proof (cases r)
        case (Some v)
        have rr: "ptEventReady k1 = ?e"
          using k1(5) Some R(1) ready_repD(2) [OF kinvD(1), of k1 R D S] by simp
        let ?k3 = "set_fld vm_update ?e (Some v) (init_vm v (se_checksize E v) ?k2)"
        let ?k4 = "upd_evtt ?t (\<lambda>t. t\<lparr>vpus := vpus t + 1\<rparr>) ?k3"
        have "DJY_SelectEventToRun E k = DJY_SelectEventToRun E ?k4"
          by (subst DJY_SelectEventToRun.simps)
             (simp add: Let_def True None DJY_CreateThread_def k1(1) [folded R(1)] Some rr)
        also have "\<dots> = Some ?k4" by (rule SelectEventToRun_done) (simp add: rr)
        finally have eq: "DJY_SelectEventToRun E k = Some ?k4" .
        have "kinv k1 R D S" using k1(5) Some by simp
        then have "kinv ?k4 R D S" by (rule kinv_cong) simp_all
        then have "settled k R ?k4 R D" using k1(2,4) True by (auto simp: settled_def rr)
        then show ?thesis using eq k1(3) by auto
      next
        case none: None
        obtain R' S' where R': "kinv k1 R' D S'" "set R' = set R - {hd R}" using k1(5) none by auto
        let ?k3 = "DJY_SaveLastError EN_MEM_TRIED ?k2"
        have eq3: "DJY_SelectEventToRun E k = DJY_SelectEventToRun E ?k3"
          by (subst DJY_SelectEventToRun.simps)
             (simp add: Let_def True None DJY_CreateThread_def k1(1) [folded R(1)] none)
        have inv3: "kinv ?k3 R' D S'" by (rule kinv_cong [OF R'(1)]) (simp_all add: DJY_SaveLastError_def)
        have len3: "length R' < length R"
        proof -
          have "length R' = card (set R - {hd R})"
            using R'(2) distinct_card [OF ready_repD(6) [OF kinvD(1) [OF R'(1)]]] by simp
          also have "\<dots> < card (set R)" using R(2) by (intro card_Diff1_less) auto
          also have "\<dots> = length R" by (rule distinct_card [OF R(3)])
          finally show ?thesis .
        qed
        have vm3: "fld vm ?k3 = fld vm k" using k1(2) by (simp add: DJY_SaveLastError_def)
        have "i \<noteq> hd R" using less.prems(3) True R(1) by metis
        then have i3: "i \<in> set R'" unfolding R'(2) using less.prems(2) by simp
        from less.hyps [OF len3 inv3 i3] less.prems(3)
        obtain k' R'' where k': "DJY_SelectEventToRun E k = Some k'" "settled ?k3 R' k' R'' D"
            "ptEventRunning k' = ptEventRunning ?k3"
          unfolding eq3 vm3 by blast
        have "settled k R k' R'' D"
          using k'(2) R'(2) True R(1) k1(4) unfolding settled_def vm3 by (auto simp: DJY_SaveLastError_def)
        then show ?thesis using k' k1(3) by (auto simp: DJY_SaveLastError_def)
      qed
    qed
  qed
qed

section \<open>Scheduling\<close>

lemma settled_cong:
  assumes "settled k R k1 R' D" "ptEventReady k2 = ptEventReady k1" "ptEventDelay k2 = ptEventDelay k1"
    "cells k2 = cells k1" "nx k2 = nx k1" "pv k2 = pv k1" "mnx k2 = mnx k1" "mpv k2 = mpv k1"
    "pr k2 = pr k1" "det k2 = det k1" "shd k2 = shd k1" "fld vm k2 = fld vm k1" "kernel.more k2 = kernel.more k1"
  shows "settled k R k2 R' D"
  using assms kinv_cong [of k1 R' D _ k2] unfolding settled_def by metis

lemma Schedule_settles:
  assumes E: "stack_provider E" and inv: "kinv k R D S" and i: "i \<in> set R" "fld vm k i \<noteq> None"
  shows "\<exists>k' b R'. DJY_Schedule E k = Some (k', b) \<and> settled k R k' R' D \<and>
    ptEventRunning k' = ptEventReady k' \<and> (b \<longleftrightarrow> ptEventRunning k' \<noteq> ptEventRunning k)"
proof -
  obtain k1 R' where k1: "DJY_SelectEventToRun E k = Some k1" "settled k R k1 R' D"
      "ptEventRunning k1 = ptEventRunning k"
    using SelectEventToRun_settles [OF E inv i] by blast
  show ?thesis
  proof (cases "ptEventReady k1 = ptEventRunning k1")
    case True
    then have "DJY_Schedule E k = Some (k1, False)" by (simp add: DJY_Schedule_def k1(1))
    then show ?thesis using k1 True by auto
  next
    case False
    let ?run = "ptEventRunning k1" and ?time = "uint (word_of_int (SysTime k1) :: u32)"
    let ?k2 = "(set_fld consumed_time_update ?run (fld consumed_time k1 ?run + (?time - RunningStartTime k1)) k1)
       \<lparr>RunningStartTime := ?time\<rparr>"
    let ?k3 = "(SchHook_call ?run False ?k2)\<lparr>ptEventRunning := ptEventReady k1\<rparr>"
    let ?k4 = "?k3\<lparr>kout := kout ?k3 @ [SwitchContext (fld vm k1 (ptEventReady k1)) (fld vm k1 ?run)]\<rparr>"
    have "DJY_Schedule E k = Some (?k4, True)"
      using False by (simp add: DJY_Schedule_def k1(1) Let_def SchHook_call_def)
    moreover have "settled k R ?k4 R' D"
      by (rule settled_cong [OF k1(2)]) (simp_all add: SchHook_call_def)
    moreover have "ptEventRunning ?k4 = ptEventReady ?k4" by (simp add: SchHook_call_def)
    ultimately show ?thesis using False k1(3) by fastforce
  qed
qed


text \<open>If the first ready event has a thread, the scheduler changes no queue and no event.\<close>

definition kept :: "'a kernel_scheme \<Rightarrow> 'a kernel_scheme \<Rightarrow> bool" where
  "kept k k' \<longleftrightarrow> ptEventReady k' = ptEventReady k \<and> ptEventDelay k' = ptEventDelay k \<and> cells k' = cells k \<and>
     nx k' = nx k \<and> pv k' = pv k \<and> mnx k' = mnx k \<and> mpv k' = mpv k \<and> pr k' = pr k \<and> det k' = det k \<and> shd k' = shd k \<and>
     fld vm k' = fld vm k \<and> fld event_status k' = fld event_status k \<and> fld wakeup_from k' = fld wakeup_from k \<and>
     nest_asyn_signal k' = nest_asyn_signal k \<and> MultiEventStarted k' = MultiEventStarted k \<and> kernel.more k' = kernel.more k"

lemma kept_kinv: "kept k k' \<Longrightarrow> kinv k R D S \<Longrightarrow> kinv k' R D S"
  by (erule kinv_cong) (simp_all add: kept_def)

lemma Schedule_keeps:
  assumes "fld vm k (ptEventReady k) \<noteq> None"
  shows "\<exists>k' b. DJY_Schedule E k = Some (k', b) \<and> kept k k' \<and> ptEventRunning k' = ptEventReady k \<and>
    en_asyn_signal_counter k' = en_asyn_signal_counter k \<and> ScheduleEnable k' = ScheduleEnable k"
  using SelectEventToRun_done [OF assms, of E] by (auto simp: DJY_Schedule_def kept_def Let_def SchHook_call_def)

lemma ScheduleAsyn_keeps:
  assumes "fld vm k (ptEventReady k) \<noteq> None"
  shows "\<exists>k'. DJY_ScheduleAsynSignal E k = Some k' \<and> kept k k' \<and> ptEventRunning k' = ptEventReady k \<and>
    en_asyn_signal_counter k' = en_asyn_signal_counter k"
  using SelectEventToRun_done [OF assms, of E] by (auto simp: DJY_ScheduleAsynSignal_def kept_def Let_def SchHook_call_def)

text \<open>\<open>resumed\<close>: the outermost restore.  In addition to \<^const>\<open>settled\<close>, if the first ready event has a thread the queues stay, and the
  scheduler is on again.\<close>

definition resumed :: "'a kernel_scheme \<Rightarrow> nat list \<Rightarrow> 'a kernel_scheme \<Rightarrow> nat list \<Rightarrow> nat list \<Rightarrow> bool" where
  "resumed k R k' R' D \<longleftrightarrow> settled k R k' R' D \<and>
     (fld vm k (hd R) \<noteq> None \<longrightarrow> R' = R \<and> kept k k' \<and> en_asyn_signal_counter k' = 0 \<and> DJY_QuerySch k')"

lemma Restore_settles:
  assumes E: "stack_provider E" and inv: "kinv k R D S" and i: "i \<in> set R" "fld vm k i \<noteq> None"
    and run: "fld vm k (ptEventRunning k) \<noteq> None"
    and one: "nest_asyn_signal k = 0" "en_asyn_signal_counter k = 1"
  shows "\<exists>k' R'. Int_RestoreAsynSignal E k = Some k' \<and> resumed k R k' R' D \<and>
    ptEventRunning k' = ptEventReady k'"
proof -
  let ?k1 = "k\<lparr>en_asyn_signal_counter := 0, ScheduleEnable := True\<rparr>"
  have inv1: "kinv ?k1 R D S" by (rule kinv_cong [OF inv]) simp_all
  have rdy: "ptEventReady k = hd R" using ready_repD(2) [OF kinvD(1) [OF inv]] .
  have K1: "kept k ?k1" by (simp add: kept_def)
  show ?thesis
  proof (cases "ptEventRunning k = ptEventReady k")
    case True
    then have "Int_RestoreAsynSignal E k = Some ?k1"
      using one by (simp add: Int_RestoreAsynSignal_def Let_def)
    moreover have "resumed k R ?k1 R D" using inv1 run True K1 by (auto simp: resumed_def settled_def DJY_QuerySch_def)
    ultimately show ?thesis using True by auto
  next
    case False
    then have rs: "Int_RestoreAsynSignal E k = map_option fst (DJY_Schedule E ?k1)" using one by (simp add: Int_RestoreAsynSignal_def Let_def)
    show ?thesis
    proof (cases "fld vm k (hd R) = None")
      case True
      obtain k' b R' where k': "DJY_Schedule E ?k1 = Some (k', b)" "settled ?k1 R k' R' D" "ptEventRunning k' = ptEventReady k'"
        using Schedule_settles [OF E inv1 i(1)] i(2) by auto
      have "resumed k R k' R' D" using k'(2) True by (simp add: resumed_def settled_def)
      then show ?thesis using rs k'(1,3) by auto
    next
      case False
      then obtain k' b where k': "DJY_Schedule E ?k1 = Some (k', b)" "kept ?k1 k'" "ptEventRunning k' = ptEventReady ?k1"
          "en_asyn_signal_counter k' = 0" "ScheduleEnable k'"
        using Schedule_keeps [of ?k1 E] rdy by auto
      have "kept k k'" using k'(2) by (simp add: kept_def)
      moreover have "settled k R k' R D" using kept_kinv [OF k'(2) inv1] \<open>kept k k'\<close> False rdy by (auto simp: settled_def kept_def)
      ultimately have "resumed k R k' R D" using k'(4,5) by (simp add: resumed_def DJY_QuerySch_def)
      then show ?thesis using rs k' by (auto simp: kept_def)
    qed
  qed
qed

text \<open>The nesting of \<open>Int_SaveAsynSignal\<close> and \<open>Int_RestoreAsynSignal\<close>: between a save and
  its matching restore the scheduler is off, a restore that does not reach the outermost level
  changes neither the queues nor the running event, and an enclosed pair restores the counter.\<close>

theorem SaveRestore_nested:
  assumes "nest_asyn_signal k = 0" "en_asyn_signal_counter k \<noteq> 0" "en_asyn_signal_counter k \<noteq> CN_LIMIT_UCPU"
  shows "\<not> DJY_QuerySch (Int_SaveAsynSignal k) \<and>
    Int_RestoreAsynSignal E (Int_SaveAsynSignal k) = Some (k\<lparr>ScheduleEnable := False\<rparr>)"
proof -
  have "en_asyn_signal_counter k + 1 \<noteq> 0"
  proof
    assume "en_asyn_signal_counter k + 1 = 0"
    then have "en_asyn_signal_counter k = - 1" by (simp add: add_eq_0_iff2)
    then show False using assms(3) by (simp add: CN_LIMIT_UCPU_def)
  qed
  then show ?thesis using assms
    by (simp add: Int_SaveAsynSignal_def Int_RestoreAsynSignal_def DJY_QuerySch_def Let_def)
qed

text \<open>An allocator that always succeeds, for the witnesses.\<close>

definition sample_env :: "'k stack_env" where
  "sample_env = \<lparr>se_malloc = (\<lambda>_ _ k. Some (k, Some 16384)), se_checksize = (\<lambda>_. 1024)\<rparr>"

lemma sample_provider: "stack_provider sample_env"
  by (simp add: stack_provider_def sample_env_def)

lemmas busy_defs = busy_kernel_def busy_ecbs_def sample_ecbs_def ecb0_def fld_def


theorem SaveRestore_nested_witness:
  "Int_RestoreAsynSignal sample_env (Int_SaveAsynSignal (sample_kernel\<lparr>en_asyn_signal_counter := 1\<rparr>)) =
     Some (sample_kernel\<lparr>en_asyn_signal_counter := 1, ScheduleEnable := False\<rparr>)"
  using SaveRestore_nested [of "sample_kernel\<lparr>en_asyn_signal_counter := 1\<rparr>" sample_env]
  by (simp add: sample_kernel_def CN_LIMIT_UCPU_def)

end
