(* ===== verification/Djy_Block.thy ===== *)
theory Djy_Block
  imports Djy_Sched
begin

text \<open>
  Blocking the running event and changing priorities (\<open>src/djyos/core/djyos.c\<close>): the synchronisation
  queues in priority or arrival order, \<open>__DJY_ChangeBlockQueue\<close> and the functions that change a
  priority, the delays, and waiting for the completion or the pop of events.

  A blocking call ends, in the model, where it gives up the processor: its value is \<open>Blocked\<close> and
  the definition with the suffix \<open>_resume\<close> gives what the call returns once its event runs again.
  A call that returns at once has the value \<open>Ret\<close>.
\<close>

datatype 'r call = Ret 'r | Blocked

datatype sync_ret = CN_SYNC_SUCCESS | CN_SYNC_TIMEOUT | CN_SYNC_ERROR | CN_EVENT_ID_INVALID
  | SyncExpExit        \<comment> \<open>the number \<open>CN_STS_EVENT_EXP_EXIT\<close>\<close>
  | SyncErr knl_error

section \<open>Operations\<close>

text \<open>\<open>x->multi_next = y; x->multi_previous = y->multi_previous; y->multi_previous->multi_next = x;
  y->multi_previous = x;\<close>\<close>

definition mlink_before :: "nat \<Rightarrow> nat \<Rightarrow> 'a kernel_scheme \<Rightarrow> 'a kernel_scheme option" where
  "mlink_before x y k = do {
     let k = set_multi_next x (Some y) k;
     let k = set_multi_previous x (mpv k y) k;
     p \<leftarrow> mpv k y;
     let k = set_multi_next p (Some x) k;
     Some (set_multi_previous y (Some x) k) }"

text \<open>\<open>x->multi_next = x; x->multi_previous = x; *h = x;\<close>\<close>

definition sync_single :: "qhead \<Rightarrow> nat \<Rightarrow> 'a kernel_scheme \<Rightarrow> 'a kernel_scheme" where
  "sync_single h x k = set_cell h (Some x) (set_multi_previous x (Some x) (set_multi_next x (Some x) k))"

definition or_status :: "nat \<Rightarrow> u32 \<Rightarrow> 'a kernel_scheme \<Rightarrow> 'a kernel_scheme" where
  "or_status e s k = set_fld event_status_update e (fld event_status k e OR s) k"

text \<open>The insertion into the queue at \<open>Head\<close>, in priority order or at the end.\<close>

definition block_link :: "qhead \<Rightarrow> bool \<Rightarrow> nat \<Rightarrow> 'a kernel_scheme \<Rightarrow> 'a kernel_scheme option" where
  "block_link Head Qsort run k =
     (case cells k Head of
        None \<Rightarrow> Some (sync_single Head run k)
      | Some h \<Rightarrow>
          if Qsort then do {
            event \<leftarrow> ring_walk (mnx k) (\<lambda>x. pr k x \<le> pr k run) h h;
            let k = or_status run CN_BLOCK_PRIO_SORT k;
            k \<leftarrow> mlink_before run event k;
            Some (if pr k run < pr k h then set_cell Head (Some run) k else k) }
          else do {
            let k = set_fld event_status_update run (fld event_status k run AND NOT CN_BLOCK_PRIO_SORT) k;
            mlink_before run h k })"

definition DJY_AddRunningToBlock ::
    "qhead \<Rightarrow> bool \<Rightarrow> u32 \<Rightarrow> u32 \<Rightarrow> 'a kernel_scheme \<Rightarrow> 'a kernel_scheme option" where
  "DJY_AddRunningToBlock Head Qsort timeout Status k = do {
     let run = ptEventRunning k;
     k \<leftarrow> DJY_CutReadyEvent run k;
     let k = set_previous run None k;
     let k = set_next run None k;
     let k = set_fld sync_head_update run (Some Head) k;
     k \<leftarrow> block_link Head Qsort run k;
     if timeout \<noteq> CN_TIMEOUT_FOREVER then
       DJY_AddToDelay timeout (or_status run (Status + CN_STS_SYNC_TIMEOUT) k)
     else Some (or_status run Status k) }"

definition DJY_AddToBlockForStack ::
    "qhead \<Rightarrow> bool \<Rightarrow> u32 \<Rightarrow> 'a kernel_scheme \<Rightarrow> 'a kernel_scheme option" where
  "DJY_AddToBlockForStack Head Qsort Status k = do {
     let event = ptEventReady k;
     k \<leftarrow> DJY_CutReadyEvent event k;
     let k = set_previous event None k;
     let k = set_next event None k;
     let k = set_fld sync_head_update event (Some Head) k;
     k \<leftarrow> (case cells k Head of
            None \<Rightarrow> Some (sync_single Head event k)
          | Some h \<Rightarrow>
              if Qsort then do {
                current \<leftarrow> ring_walk (mnx k) (\<lambda>x. pr k x \<le> pr k event) h h;
                let k = set_fld event_status_update event (CN_BLOCK_PRIO_SORT + CN_STS_WAIT_STACK) k;
                k \<leftarrow> mlink_before event current k;
                Some (if pr k event < pr k h then set_cell Head (Some event) k else k) }
              else do {
                let k = set_fld event_status_update event (NOT CN_BLOCK_PRIO_SORT + CN_STS_WAIT_STACK) k;
                mlink_before event h k });
     Some (or_status event Status k) }"

text \<open>\<open>__DJY_ChangeBlockQueue\<close>: first the conditions under which the event is in place (the conjunctions
  are evaluated from left to right, as in C), then the move.\<close>

definition change_block_move :: "nat \<Rightarrow> qhead \<Rightarrow> nat \<Rightarrow> 'a kernel_scheme \<Rightarrow> 'a kernel_scheme option" where
  "change_block_move Event sh Head k = do {
     k \<leftarrow> munlink Event k;
     pl_ecb \<leftarrow> ring_walk (mnx k) (\<lambda>x. pr k x < pr k Event) Head Head;
     let k = set_multi_next Event (Some pl_ecb) k;
     let k = set_multi_previous Event (mpv k pl_ecb) k;
     q \<leftarrow> mpv k pl_ecb;
     let k = set_multi_next q (Some Event) k;
     let k = set_multi_previous pl_ecb (Some pl_ecb) k;
     Some (if pr k Event < pr k Head then set_cell sh (Some Event) k else k) }"

definition DJY_ChangeBlockQueue :: "nat \<Rightarrow> 'a kernel_scheme \<Rightarrow> 'a kernel_scheme option" where
  "DJY_ChangeBlockQueue Event k = do {
     sh \<leftarrow> shd k Event;
     Head \<leftarrow> cells k sh;
     c1 \<leftarrow> (if Event = Head then do { n \<leftarrow> mnx k Event; Some (pr k Event \<le> pr k n) } else Some False);
     c2 \<leftarrow> (if c1 then Some True
           else do { p \<leftarrow> mpv k Event;
             if pr k Event \<ge> pr k p then do { n \<leftarrow> mnx k Event; Some (pr k Event \<le> pr k n) } else Some False });
     c3 \<leftarrow> (if c2 then Some True
           else do { hp \<leftarrow> mpv k Head;
             if Event = hp then do { p \<leftarrow> mpv k Event; Some (pr k Event \<ge> pr k p) } else Some False });
     if c3 then Some k
     else change_block_move Event sh Head k }"

text \<open>The common body of the functions that change a priority.\<close>

definition change_prio :: "nat \<Rightarrow> ('a kernel_scheme \<Rightarrow> u8) \<Rightarrow> 'a kernel_scheme \<Rightarrow> 'a kernel_scheme option" where
  "change_prio e newp k =
     (if fld event_status k e = CN_STS_EVENT_READY then do {
        k \<leftarrow> DJY_CutReadyEvent e k;
        let k = set_fld prio_update e (newp k) k;
        DJY_EventReady e k }
      else if fld event_status k e AND CN_BLOCK_PRIO_SORT \<noteq> 0 then
        DJY_ChangeBlockQueue e (set_fld prio_update e (newp k) k)
      else Some (set_fld prio_update e (newp k) k))"

definition DJY_RaiseTempPrioForStack :: "nat \<Rightarrow> 'a kernel_scheme \<Rightarrow> 'a kernel_scheme option" where
  "DJY_RaiseTempPrioForStack pl_ecb k =
     (if pr k (ptEventReady k) < pr k pl_ecb then change_prio pl_ecb (\<lambda>k. pr k (ptEventReady k)) k
      else Some k)"

definition DJY_SetEventPrio ::
    "'a kernel_scheme stack_env \<Rightarrow> u16 \<Rightarrow> u32 \<Rightarrow> 'a kernel_scheme \<Rightarrow> ('a kernel_scheme \<times> bool) option" where
  "DJY_SetEventPrio E eid new_prio k =
     (if new_prio \<ge> 250 \<or> new_prio = 0 \<or> unat eid \<ge> cfg_event_limit k then Some (k, False)
      else do {
        let k = Int_SaveAsynSignal k;
        let pl_ecb = unat eid;
        let k = set_fld prio_base_update pl_ecb (ucast new_prio) k;
        k \<leftarrow> (if new_prio \<noteq> ucast (pr k pl_ecb) then change_prio pl_ecb (\<lambda>_. ucast new_prio) k else Some k);
        k \<leftarrow> Int_RestoreAsynSignal E k;
        Some (k, True) })"

definition DJY_FollowUpPrio ::
    "'a kernel_scheme stack_env \<Rightarrow> nat option \<Rightarrow> 'a kernel_scheme \<Rightarrow> ('a kernel_scheme \<times> bool) option" where
  "DJY_FollowUpPrio E pl_ecb k =
     (case pl_ecb of None \<Rightarrow> Some (k, False)
      | Some e \<Rightarrow> do {
          let k = Int_SaveAsynSignal k;
          k \<leftarrow> (if pr k (ptEventRunning k) < pr k e then change_prio e (\<lambda>k. pr k (ptEventRunning k)) k else Some k);
          k \<leftarrow> Int_RestoreAsynSignal E k;
          Some (k, True) })"

definition DJY_RestorePrio ::
    "'a kernel_scheme stack_env \<Rightarrow> nat option \<Rightarrow> 'a kernel_scheme \<Rightarrow> ('a kernel_scheme \<times> bool) option" where
  "DJY_RestorePrio E pl_ecb k =
     (case pl_ecb of None \<Rightarrow> Some (k, False)
      | Some e \<Rightarrow> do {
          let k = Int_SaveAsynSignal k;
          k \<leftarrow> (if pr k e \<noteq> fld prio_base k e then change_prio e (\<lambda>k. fld prio_base k e) k else Some k);
          k \<leftarrow> Int_RestoreAsynSignal E k;
          Some (k, True) })"

section \<open>Delays\<close>

definition DJY_EventDelay ::
    "'a kernel_scheme stack_env \<Rightarrow> u32 \<Rightarrow> 'a kernel_scheme \<Rightarrow> ('a kernel_scheme \<times> u32 call) option" where
  "DJY_EventDelay E us k =
     (if \<not> DJY_QuerySch k then Some (k\<lparr>kout := kout k @ [BusyDelay us]\<rparr>, Ret us)
      else do {
        let k = Int_SaveAsynSignal k;
        let run = ptEventRunning k;
        if us = 0 then do {
          n \<leftarrow> nx k run;
          if pr k run = pr k n \<and> run \<noteq> n then do {
            let k = set_fld delay_start_tick_update run (DJY_GetSysTick k) k;
            k \<leftarrow> DJY_CutReadyEvent run k;
            k \<leftarrow> DJY_EventReady run k;
            k \<leftarrow> Int_RestoreAsynSignal E k;
            Some (k, Blocked) }
          else do {
            k \<leftarrow> Int_RestoreAsynSignal E k;
            Some (k, Ret 0) } }
        else do {
          let k = set_fld delay_start_tick_update run (DJY_GetSysTick k) k;
          let k = set_fld delay_end_tick_update run (fld delay_start_tick k run + delay_ticks us k) k;
          k \<leftarrow> DJY_CutReadyEvent run k;
          let k = set_fld event_status_update run CN_STS_EVENT_DELAY k;
          k \<leftarrow> delay_link k;
          k \<leftarrow> Int_RestoreAsynSignal E k;
          Some (k, Blocked) } })"

definition DJY_EventDelay_resume :: "'a kernel_scheme \<Rightarrow> u32" where
  "DJY_EventDelay_resume k =
     word_of_int ((DJY_GetSysTick k - fld delay_start_tick k (ptEventRunning k)) * uint (cfg_tick_us k))"

text \<open>C division truncates towards zero.\<close>

definition c_div :: "int \<Rightarrow> int \<Rightarrow> int" where
  "c_div a b = sgn a * sgn b * (abs a div abs b)"

definition DJY_EventDelayTo ::
    "'a kernel_scheme stack_env \<Rightarrow> int \<Rightarrow> 'a kernel_scheme \<Rightarrow> ('a kernel_scheme \<times> int call) option" where
  "DJY_EventDelayTo E s64us k =
     (if \<not> DJY_QuerySch k then
        Some (k\<lparr>kout := kout k @ [BusyDelay (word_of_int (s64us - SysTime k))]\<rparr>, Ret 0)
      else do {
        let k = Int_SaveAsynSignal k;
        let run = ptEventRunning k;
        let k = set_fld delay_start_tick_update run (DJY_GetSysTick k) k;
        let k = set_fld delay_end_tick_update run
                  (c_div (s64us + uint (cfg_tick_us k) - 1) (uint (cfg_tick_us k))) k;
        if det k run \<le> fld delay_start_tick k run then do {
          k \<leftarrow> Int_RestoreAsynSignal E k;
          Some (k, Ret 0) }
        else do {
          k \<leftarrow> DJY_CutReadyEvent run k;
          let k = set_fld event_status_update run CN_STS_EVENT_DELAY k;
          k \<leftarrow> delay_link k;
          k \<leftarrow> Int_RestoreAsynSignal E k;
          Some (k, Blocked) } })"

definition DJY_EventDelayTo_resume :: "'a kernel_scheme \<Rightarrow> int" where
  "DJY_EventDelayTo_resume k =
     (DJY_GetSysTick k - fld delay_start_tick k (ptEventRunning k)) * uint (cfg_tick_us k)"

section \<open>Waiting for events\<close>

text \<open>\<open>*h != NULL\<close>: search the first waiting event with at least the same counter and insert before
  it; the event becomes the head when the old head has a larger counter.\<close>

definition sync_by_counter :: "qhead \<Rightarrow> nat \<Rightarrow> 'a kernel_scheme \<Rightarrow> 'a kernel_scheme option" where
  "sync_by_counter Head run k =
     (case cells k Head of
        Some h \<Rightarrow> do {
          pl_ecb \<leftarrow> ring_walk (mnx k) (\<lambda>x. fld sync_counter k x < fld sync_counter k run) h h;
          k \<leftarrow> mlink_before run pl_ecb k;
          Some (if fld sync_counter k run < fld sync_counter k h then set_cell Head (Some run) k else k) }
      | None \<Rightarrow> Some (sync_single Head run k))"

definition wait_status :: "u32 \<Rightarrow> u32 \<Rightarrow> 'a kernel_scheme \<Rightarrow> 'a kernel_scheme option" where
  "wait_status sts timeout k = (let run = ptEventRunning k in
     if timeout \<noteq> CN_TIMEOUT_FOREVER then
       DJY_AddToDelay timeout (set_fld event_status_update run (sts + CN_STS_SYNC_TIMEOUT) k)
     else Some (set_fld event_status_update run sts k))"

definition DJY_WaitEventCompleted ::
    "'a kernel_scheme stack_env \<Rightarrow> u16 \<Rightarrow> u32 \<Rightarrow> 'a kernel_scheme \<Rightarrow> ('a kernel_scheme \<times> sync_ret call) option" where
  "DJY_WaitEventCompleted E eid timeout k = do {
     let pl_ecb = unat eid;
     let run = ptEventRunning k;
     if eid = fld event_id k run then Some (k, Ret CN_EVENT_ID_INVALID)
     else if DJY_QuerySch k = False then Some (k, Ret (SyncErr EN_KNL_CANT_SCHED))
     else if timeout = 0 then Some (k, Ret CN_SYNC_TIMEOUT)
     else do {
       let k = Int_SaveAsynSignal k;
       if pv k pl_ecb = Some ev_free_addr then do {
         k \<leftarrow> Int_RestoreAsynSignal E k;
         Some (k, Ret (SyncErr EN_KNL_EVENT_FREE)) }
       else do {
         k \<leftarrow> DJY_CutReadyEvent run k;
         let k = set_next run None k;
         let k = set_previous run None k;
         let k = set_fld sync_head_update run (Some (EcbSync pl_ecb)) k;
         k \<leftarrow> (case cells k (EcbSync pl_ecb) of
                Some h \<Rightarrow> mlink_before run h k
              | None \<Rightarrow> Some (sync_single (EcbSync pl_ecb) run k));
         k \<leftarrow> wait_status CN_STS_WAIT_EVENT_DONE timeout k;
         k \<leftarrow> Int_RestoreAsynSignal E k;
         Some (k, Blocked) } } }"

definition DJY_WaitEventCompleted_resume :: "'a kernel_scheme \<Rightarrow> sync_ret" where
  "DJY_WaitEventCompleted_resume k = (let w = fld wakeup_from k (ptEventRunning k) in
     if w AND CN_STS_SYNC_TIMEOUT \<noteq> 0 then CN_SYNC_TIMEOUT
     else if w AND CN_STS_EVENT_EXP_EXIT \<noteq> 0 then SyncErr EN_KNL_EVENT_SYNC_EXIT
     else CN_SYNC_SUCCESS)"

definition DJY_WaitEvttCompleted ::
    "'a kernel_scheme stack_env \<Rightarrow> u16 \<Rightarrow> u16 \<Rightarrow> u32 \<Rightarrow> 'a kernel_scheme \<Rightarrow> ('a kernel_scheme \<times> sync_ret call) option" where
  "DJY_WaitEvttCompleted E tid done_times timeout k = do {
     let evttoffset = evtt_index tid;
     let run = ptEventRunning k;
     if evttoffset \<ge> cfg_evtt_limit k then Some (k, Ret (SyncErr EN_KNL_EVTTID_LIMIT))
     else if DJY_QuerySch k = False then Some (k, Ret (SyncErr EN_KNL_CANT_SCHED))
     else if timeout = 0 then Some (k, Ret CN_SYNC_TIMEOUT)
     else do {
       let k = Int_SaveAsynSignal k;
       if \<not> registered (evtts k evttoffset) \<or> deleting (evtts k evttoffset) then do {
         k \<leftarrow> Int_RestoreAsynSignal E k;
         Some (k, Ret (SyncErr EN_KNL_EVTT_FREE)) }
       else do {
         k \<leftarrow> DJY_CutReadyEvent run k;
         let k = set_next run None k;
         let k = set_previous run None k;
         let k = set_fld sync_counter_update run done_times k;
         let k = set_fld sync_head_update run (Some (EvttDone evttoffset)) k;
         k \<leftarrow> sync_by_counter (EvttDone evttoffset) run k;
         k \<leftarrow> wait_status CN_STS_WAIT_EVTT_DONE timeout k;
         k \<leftarrow> Int_RestoreAsynSignal E k;
         Some (k, Blocked) } } }"

definition DJY_WaitEvttCompleted_resume :: "'a kernel_scheme \<Rightarrow> sync_ret" where
  "DJY_WaitEvttCompleted_resume k = (let w = fld wakeup_from k (ptEventRunning k) in
     if w AND CN_STS_SYNC_TIMEOUT \<noteq> 0 then CN_SYNC_TIMEOUT
     else if w AND CN_STS_EVENT_EXP_EXIT \<noteq> 0 then SyncErr EN_KNL_EVENT_SYNC_EXIT
     else CN_SYNC_SUCCESS)"

text \<open>The pointer \<open>base_times\<close> is the value it points to, or \<^const>\<open>None\<close> for \<open>NULL\<close>; the second component of
  the result is what it points to afterwards.\<close>

definition DJY_WaitEvttPop ::
    "'a kernel_scheme stack_env \<Rightarrow> u16 \<Rightarrow> u32 option \<Rightarrow> u32 \<Rightarrow> 'a kernel_scheme \<Rightarrow>
     ('a kernel_scheme \<times> u32 option \<times> sync_ret call) option" where
  "DJY_WaitEvttPop E tid base_times timeout k = do {
     let evttoffset = evtt_index tid;
     let run = ptEventRunning k;
     if tid AND CN_EVTT_ID_MASK = 0 then Some (k, base_times, Ret CN_SYNC_ERROR)
     else if evttoffset \<ge> cfg_evtt_limit k then Some (k, base_times, Ret CN_SYNC_ERROR)
     else if DJY_QuerySch k = False then Some (k, base_times, Ret CN_SYNC_ERROR)
     else if timeout = 0 then Some (k, base_times, Ret CN_SYNC_TIMEOUT)
     else do {
       let k = Int_SaveAsynSignal k;
       if \<not> registered (evtts k evttoffset) \<or> deleting (evtts k evttoffset) then do {
         k \<leftarrow> Int_RestoreAsynSignal E k;
         Some (k, base_times, Ret CN_SYNC_ERROR) }
       else do {
         let pops = pop_times (evtts k evttoffset);
         let popt = (case base_times of Some b \<Rightarrow> b - pops + 1 | None \<Rightarrow> 1);
         if popt \<ge> 0x80000000 \<or> popt = 0 then do {
           k \<leftarrow> Int_RestoreAsynSignal E k;
           Some (k, map_option (\<lambda>_. pops) base_times, Ret CN_SYNC_SUCCESS) }
         else do {
           k \<leftarrow> DJY_CutReadyEvent run k;
           let k = set_next run None k;
           let k = set_previous run None k;
           let k = set_fld sync_counter_update run (ucast popt) k;
           let k = set_fld sync_head_update run (Some (EvttPop evttoffset)) k;
           k \<leftarrow> sync_by_counter (EvttPop evttoffset) run k;
           k \<leftarrow> wait_status CN_STS_WAIT_EVTT_POP timeout k;
           k \<leftarrow> Int_RestoreAsynSignal E k;
           Some (k, base_times, Blocked) } } } }"

definition DJY_WaitEvttPop_resume :: "u16 \<Rightarrow> u32 option \<Rightarrow> 'a kernel_scheme \<Rightarrow> u32 option \<times> sync_ret" where
  "DJY_WaitEvttPop_resume tid base_times k =
     (map_option (\<lambda>_. pop_times (evtts k (evtt_index tid))) base_times,
      if fld wakeup_from k (ptEventRunning k) AND CN_STS_SYNC_TIMEOUT \<noteq> 0 then CN_SYNC_TIMEOUT
      else CN_SYNC_SUCCESS)"

section \<open>Entering a synchronisation queue\<close>

text \<open>The pointers after \<open>x\<close> has been linked in front of the stopping point of a search, or has become
  the only element.\<close>

definition ins_next :: "('a \<Rightarrow> 'a option) \<Rightarrow> ('a \<Rightarrow> 'a option) \<Rightarrow> ('a \<Rightarrow> bool) \<Rightarrow> 'a \<Rightarrow> 'a list \<Rightarrow> 'a \<Rightarrow> 'a option" where
  "ins_next n p P x Q = (if Q = [] then n(x := Some x)
     else n(x := Some (walk_stop P Q), the (p (walk_stop P Q)) := Some x))"

definition ins_prev :: "('a \<Rightarrow> 'a option) \<Rightarrow> ('a \<Rightarrow> bool) \<Rightarrow> 'a \<Rightarrow> 'a list \<Rightarrow> 'a \<Rightarrow> 'a option" where
  "ins_prev p P x Q = (if Q = [] then p(x := Some x)
     else p(x := p (walk_stop P Q), walk_stop P Q := Some x))"

lemma cdll_ins:
  assumes "Q \<noteq> [] \<Longrightarrow> cdll n p Q" "x \<notin> set Q"
  shows "cdll (ins_next n p P x Q) (ins_prev p P x Q) (walk_insert P x Q)"
proof (cases "Q = []")
  case True
  then show ?thesis by (simp add: ins_next_def ins_prev_def walk_insert_def cdll_def)
next
  case False
  obtain q where q: "p (walk_stop P Q) = Some q"
    using cdll_next_prev_Some [OF assms(1) [OF False] walk_stop_in [OF False]] by auto
  then show ?thesis using cdll_walk_insert [OF assms(1) [OF False] assms(2) q] False
    by (simp add: ins_next_def ins_prev_def)
qed

lemma ins_outside:
  assumes "Q \<noteq> [] \<Longrightarrow> cdll n p Q" "y \<noteq> x" "y \<notin> set Q"
  shows "ins_next n p P x Q y = n y" "ins_prev p P x Q y = p y"
proof -
  have w: "walk_stop P Q \<in> set Q" if "Q \<noteq> []" by (rule walk_stop_in [OF that])
  have "the (p (walk_stop P Q)) \<in> set Q" if "Q \<noteq> []"
    using cdll_next_prev_Some [OF assms(1) [OF that] w [OF that]] by auto
  then have "the (p (walk_stop P Q)) \<noteq> y" "walk_stop P Q \<noteq> y" if "Q \<noteq> []"
    using w assms(3) that by metis+
  with assms(2) show "ins_next n p P x Q y = n y" "ins_prev p P x Q y = p y"
    by (auto simp: ins_next_def ins_prev_def)
qed

definition entered :: "qhead \<Rightarrow> (nat \<Rightarrow> bool) \<Rightarrow> nat \<Rightarrow> nat list \<Rightarrow> 'a kernel_scheme \<Rightarrow> 'a kernel_scheme \<Rightarrow> bool" where
  "entered h P x Q k k' \<longleftrightarrow> ptEventReady k' = ptEventReady k \<and> ptEventDelay k' = ptEventDelay k \<and>
     cells k' = (cells k)(h := Some (hd (walk_insert P x Q))) \<and>
     mnx k' = ins_next (mnx k) (mpv k) P x Q \<and> mpv k' = ins_prev (mpv k) P x Q \<and>
     shd k' = (shd k)(x := Some h) \<and> pr k' = pr k \<and> det k' = det k \<and>
     (\<forall>y. y \<noteq> x \<longrightarrow> nx k' y = nx k y \<and> pv k' y = pv k y)"

lemma kinv_entered:
  assumes inv: "kinv k R D S" and x: "x \<notin> set R" "x \<notin> set D" "\<And>h. x \<notin> set (S h)"
    and ent: "entered h P x (S h) k k'"
  shows "kinv k' R D (S(h := walk_insert P x (S h)))"
proof -
  note I = kinvD [OF inv]
  have Q: "S h \<noteq> [] \<Longrightarrow> cdll (mnx k) (mpv k) (S h)" using I(3) [of h] by (simp add: sync_rep_def)
  note out = ins_outside [OF Q]
  have e: "ptEventReady k' = ptEventReady k" "ptEventDelay k' = ptEventDelay k"
    "cells k' = (cells k)(h := Some (hd (walk_insert P x (S h))))"
    "mnx k' = ins_next (mnx k) (mpv k) P x (S h)" "mpv k' = ins_prev (mpv k) P x (S h)"
    "shd k' = (shd k)(x := Some h)" "pr k' = pr k" "det k' = det k"
    "\<And>y. y \<noteq> x \<Longrightarrow> nx k' y = nx k y \<and> pv k' y = pv k y"
    using ent by (auto simp: entered_def)
  have ne: "y \<noteq> x" if "y \<in> set R \<or> y \<in> set D \<or> y \<in> set (S h')" for y h' using that x by auto
  have "ready_rep k' R"
    by (rule ready_rep_cong [OF I(1) e(1)])
       (use I(5) [of h] ne in \<open>auto simp: e out disjoint_iff\<close>)
  moreover have "delay_rep k' D"
    by (rule delay_rep_cong [OF I(2) e(2)]) (use ne in \<open>auto simp: e\<close>)
  moreover have "sync_rep k' h' ((S(h := walk_insert P x (S h))) h')" for h'
  proof (cases "h' = h")
    case True
    have "cdll (mnx k') (mpv k') (walk_insert P x (S h))" unfolding e by (rule cdll_ins [OF Q x(3)])
    moreover have "walk_insert P x (S h) \<noteq> []" by (simp add: walk_insert_def)
    ultimately show ?thesis using True I(7) x by (auto simp: sync_rep_def e)
  next
    case False
    have "y \<notin> set (S h)" if "y \<in> set (S h')" for y using that False I(8) [of h h'] by auto
    moreover have "y \<noteq> x" if "y \<in> set (S h')" for y using that x by auto
    ultimately have "sync_rep k' h' (S h')"
      by (intro sync_rep_cong [OF I(3)]) (simp_all add: e out False)
    then show ?thesis using False by simp
  qed
  moreover have "set R \<inter> set ((S(h := walk_insert P x (S h))) h') = {}" for h' using I(5) x by auto
  moreover have "y \<in> set ((S(h := walk_insert P x (S h))) h')"
    if "y \<in> set R \<union> set D" "shd k' y = Some h'" for y h'
    using that I(6) [of y h'] x by (auto simp: e split: if_splits)
  ultimately show ?thesis unfolding kinv_def using I(4) by blast
qed

lemma mlink_before_eq:
  "mpv k y = Some p \<Longrightarrow> x \<noteq> y \<Longrightarrow> mlink_before x y k =
     Some (set_multi_previous y (Some x) (set_multi_next p (Some x) (set_multi_previous x (Some p) (set_multi_next x (Some y) k))))"
  by (simp add: mlink_before_def set_ecb_defs Let_def)

text \<open>The state before the links are set: the event has left the other queues and knows its new one.\<close>

definition prepared :: "qhead \<Rightarrow> nat \<Rightarrow> 'a kernel_scheme \<Rightarrow> 'a kernel_scheme \<Rightarrow> bool" where
  "prepared h x k k' \<longleftrightarrow> ptEventReady k' = ptEventReady k \<and> ptEventDelay k' = ptEventDelay k \<and>
     cells k' = cells k \<and> mnx k' = mnx k \<and> mpv k' = mpv k \<and> shd k' = (shd k)(x := Some h) \<and>
     pr k' = pr k \<and> det k' = det k \<and> (\<forall>y. y \<noteq> x \<longrightarrow> nx k' y = nx k y \<and> pv k' y = pv k y)"

lemma entered_single:
  "prepared h x k k' \<Longrightarrow> entered h P x [] k (sync_single h x k')"
  by (auto simp: prepared_def entered_def sync_single_def set_ecb_defs ins_next_def ins_prev_def walk_insert_def)

lemma entered_link:
  assumes pre: "prepared h x k k'" and Q: "Q \<noteq> []" "cdll (mnx k) (mpv k) Q" "x \<notin> set Q"
    and hd: "cells k h = Some (hd Q)"
  shows "\<exists>k2. mlink_before x (walk_stop P Q) k' = Some k2 \<and> qframe k' k2 \<and> pr k2 = pr k' \<and>
    fld sync_counter k2 = fld sync_counter k' \<and> fld event_status k2 = fld event_status k' \<and>
    fld wakeup_from k2 = fld wakeup_from k' \<and>
    entered h P x Q k (if P (hd Q) then k2 else set_cell h (Some x) k2)"
proof -
  have s: "walk_stop P Q \<in> set Q" by (rule walk_stop_in [OF Q(1)])
  obtain p where p: "mpv k (walk_stop P Q) = Some p" using cdll_next_prev_Some [OF Q(2) s] by auto
  have ne: "x \<noteq> walk_stop P Q" using s Q(3) by metis
  have p': "mpv k' (walk_stop P Q) = Some p" using p pre by (simp add: prepared_def)
  let ?k2 = "set_multi_previous (walk_stop P Q) (Some x) (set_multi_next p (Some x)
       (set_multi_previous x (Some p) (set_multi_next x (Some (walk_stop P Q)) k')))"
  have "mlink_before x (walk_stop P Q) k' = Some ?k2" by (rule mlink_before_eq [OF p' ne])
  moreover have "qframe k' ?k2" by (intro relink)
  moreover have "entered h P x Q k (if P (hd Q) then ?k2 else set_cell h (Some x) ?k2)"
    using pre Q(1) p hd by (auto simp: entered_def prepared_def set_ecb_defs ins_next_def ins_prev_def hd_walk_insert)
  ultimately show ?thesis by (auto simp: set_ecb_defs)
qed

lemma entered_cong:
  assumes "entered h P x Q k k1" "ptEventReady k2 = ptEventReady k1" "ptEventDelay k2 = ptEventDelay k1"
    "cells k2 = cells k1" "nx k2 = nx k1" "pv k2 = pv k1" "mnx k2 = mnx k1" "mpv k2 = mpv k1"
    "pr k2 = pr k1" "det k2 = det k1" "shd k2 = shd k1"
  shows "entered h P x Q k k2"
  using assms by (simp add: entered_def)

lemma while_true [simp]: "dropWhile (\<lambda>x. True) Q = []" "takeWhile (\<lambda>x. True) Q = Q"
  by (induction Q) auto

lemma walk_true [simp]: "walk_stop (\<lambda>x. True) Q = hd Q" "walk_insert (\<lambda>x. True) e Q = Q @ [e]"
  by (simp_all only: walk_stop_def walk_insert_def while_true list.case)

text \<open>The order of a synchronisation queue: by priority, or by arrival.\<close>

definition block_order :: "bool \<Rightarrow> (nat \<Rightarrow> u8) \<Rightarrow> nat \<Rightarrow> nat \<Rightarrow> bool" where
  "block_order Qsort f e = (if Qsort then (\<lambda>x. f x \<le> f e) else (\<lambda>x. True))"

definition block_status :: "bool \<Rightarrow> nat list \<Rightarrow> u32 \<Rightarrow> u32" where
  "block_status Qsort Q s = (if Q = [] then s else if Qsort then s OR CN_BLOCK_PRIO_SORT else s AND NOT CN_BLOCK_PRIO_SORT)"

lemma block_link_rep:
  assumes pre: "prepared h x k k'" and rep: "sync_rep k h Q" and x: "x \<notin> set Q"
  shows "\<exists>k2. block_link h Qsort x k' = Some k2 \<and> entered h (block_order Qsort (pr k) x) x Q k k2 \<and> qframe k' k2 \<and>
    fld event_status k2 = (fld event_status k')(x := block_status Qsort Q (fld event_status k' x)) \<and>
    fld wakeup_from k2 = fld wakeup_from k'"
proof (cases "Q = []")
  case True
  then have "cells k' h = None" using rep pre by (simp add: sync_rep_def prepared_def)
  then have "block_link h Qsort x k' = Some (sync_single h x k')" by (simp add: block_link_def)
  moreover have "entered h (block_order Qsort (pr k) x) x Q k (sync_single h x k')"
    using entered_single [OF pre] True by simp
  moreover have "qframe k' (sync_single h x k')" unfolding sync_single_def by (intro relink)
  ultimately show ?thesis using True by (auto simp: block_status_def sync_single_def set_ecb_defs)
next
  case False
  have c: "cells k h = Some (hd Q)" "cdll (mnx k) (mpv k) Q" using rep False by (auto simp: sync_rep_def)
  have p: "cells k' h = Some (hd Q)" "mnx k' = mnx k" "pr k' = pr k" using pre c by (auto simp: prepared_def)
  let ?st = "block_status Qsort Q (fld event_status k' x)"
  let ?k1 = "set_fld event_status_update x ?st k'"
  let ?P = "block_order Qsort (pr k) x"
  have pre1: "prepared h x k ?k1" using pre by (simp add: prepared_def)
  obtain k2 where k2: "mlink_before x (walk_stop ?P Q) ?k1 = Some k2" "qframe ?k1 k2" "pr k2 = pr ?k1"
      "fld event_status k2 = fld event_status ?k1" "fld wakeup_from k2 = fld wakeup_from ?k1"
      "entered h ?P x Q k (if ?P (hd Q) then k2 else set_cell h (Some x) k2)"
    using entered_link [OF pre1 False c(2) x c(1), of ?P] by auto
  have fr: "qframe k' k2" by (rule qframe_trans [OF _ k2(2)]) (intro relink)
  then have fr2: "qframe k' (if ?P (hd Q) then k2 else set_cell h (Some x) k2)" by (auto intro: relink)
  have "block_link h Qsort x k' = Some (if ?P (hd Q) then k2 else set_cell h (Some x) k2)"
  proof (cases Qsort)
    case True
    have "ring_walk (mnx k) (\<lambda>y. pr k y \<le> pr k x) (hd Q) (hd Q) = Some (walk_stop ?P Q)"
      using ring_walk_cdll [OF c(2), of "\<lambda>y. pr k y \<le> pr k x"] True by (simp add: block_order_def)
    then show ?thesis using True False k2(1,3) p
      by (auto simp: block_link_def block_order_def block_status_def or_status_def Let_def not_le)
  next
    case q: False
    then show ?thesis using False k2(1) p by (simp add: block_link_def block_order_def block_status_def Let_def)
  qed
  moreover have "fld event_status (if ?P (hd Q) then k2 else set_cell h (Some x) k2) =
      (fld event_status k')(x := ?st)" using k2(4) by auto
  ultimately show ?thesis using k2(5,6) fr2 by auto
qed

text \<open>Blocking the running event: it leaves the ready queue, joins the queue at \<open>h\<close> and, unless it
  waits forever, the alarm queue.\<close>

lemma kinv_AddRunningToBlock:
  fixes timeout Status :: u32 and h :: qhead and Qsort :: bool
  assumes inv: "kinv k R D S" and run: "ptEventRunning k = run" "run \<in> set R" "R \<noteq> [run]"
  defines "D' \<equiv> (if timeout = CN_TIMEOUT_FOREVER then D
             else walk_insert (\<lambda>x. det k x \<le> OsTicks k + delay_ticks timeout k) run D)"
    and "st \<equiv> block_status Qsort (S h) (fld event_status k run) OR
            (if timeout = CN_TIMEOUT_FOREVER then Status else Status + CN_STS_SYNC_TIMEOUT)"
  shows "\<exists>k'. DJY_AddRunningToBlock h Qsort timeout Status k = Some k' \<and>
    kinv k' (remove1 run R) D' (S(h := walk_insert (block_order Qsort (pr k) run) run (S h))) \<and>
    fld event_status k' = (fld event_status k)(run := st) \<and>
    fld wakeup_from k' = fld wakeup_from k \<and> qframe k k'"
proof -
  let ?P = "block_order Qsort (pr k) run"
  obtain k1 where k1: "DJY_CutReadyEvent run k = Some k1" "kinv k1 (remove1 run R) D S" "relinked (set R) k k1"
    using kinv_CutReadyEvent [OF inv run(2,3)] by auto
  note rk = relinked_kernel [OF k1(3)] relinked_data [OF k1(3)] relinked_pr [OF k1(3)]
  note I = kinvD [OF inv]
  have rR: "run \<notin> set (remove1 run R)" using ready_repD(6) [OF I(1)] by simp
  have rD: "run \<notin> set D" "\<And>h. run \<notin> set (S h)" using run(2) I(4,5) by auto
  define k2 where "k2 = set_fld sync_head_update run (Some h) (set_next run None (set_previous run None k1))"
  have pre: "prepared h run k1 k2" by (simp add: prepared_def k2_def set_ecb_defs)
  obtain k3 where k3: "block_link h Qsort run k2 = Some k3" "entered h (block_order Qsort (pr k1) run) run (S h) k1 k3"
      "qframe k2 k3" "fld wakeup_from k3 = fld wakeup_from k2"
      "fld event_status k3 = (fld event_status k2)(run := block_status Qsort (S h) (fld event_status k2 run))"
    using block_link_rep [OF pre kinvD(3) [OF k1(2)] rD(2)] by blast
  let ?S = "S(h := walk_insert ?P run (S h))"
  have inv3: "kinv k3 (remove1 run R) D ?S"
    using kinv_entered [OF k1(2) rR rD k3(2)] by (simp add: rk)
  have fr2: "qframe k k2" unfolding k2_def
    by (rule qframe_trans [OF relinked_qframe [OF k1(3)]]) (intro relink)
  have fr3: "qframe k k3" by (rule qframe_trans [OF fr2 k3(3)])
  have run3: "ptEventRunning k3 = run" "OsTicks k3 = OsTicks k" "cfg_tick_us k3 = cfg_tick_us k"
    using qframe_kernel [OF fr3] run(1) by simp_all
  have sh3: "shd k3 run = Some h" and det3: "det k3 = det k" using k3(2) by (simp_all add: entered_def rk)
  have st3: "fld event_status k3 = (fld event_status k)(run := block_status Qsort (S h) (fld event_status k run))"
    "fld wakeup_from k3 = fld wakeup_from k"
    using k3(4,5) by (simp_all add: k2_def set_ecb_defs rk)
  have step: "DJY_AddRunningToBlock h Qsort timeout Status k =
      (if timeout \<noteq> CN_TIMEOUT_FOREVER then DJY_AddToDelay timeout (or_status run (Status + CN_STS_SYNC_TIMEOUT) k3)
       else Some (or_status run Status k3))"
    by (simp add: DJY_AddRunningToBlock_def run(1) k1(1) k3(1) flip: k2_def)
  let ?k4 = "or_status run (if timeout = CN_TIMEOUT_FOREVER then Status else Status + CN_STS_SYNC_TIMEOUT) k3"
  have inv4: "kinv ?k4 (remove1 run R) D ?S" by (rule kinv_cong [OF inv3]) (simp_all add: or_status_def)
  have fr4: "qframe k ?k4" unfolding or_status_def by (intro relink fr3)
  have st4: "fld event_status ?k4 = (fld event_status k)(run := st)" "fld wakeup_from ?k4 = fld wakeup_from k"
    by (simp_all add: or_status_def st3 st_def)
  show ?thesis
  proof (cases "timeout = CN_TIMEOUT_FOREVER")
    case True
    then show ?thesis using step inv4 fr4 st4 by (simp add: D'_def)
  next
    case False
    have "shd ?k4 run = Some h' \<Longrightarrow> run \<in> set (?S h')" for h' using sh3 by (simp add: or_status_def)
    then obtain k5 where k5: "DJY_AddToDelay timeout ?k4 = Some k5" 
        "kinv k5 (remove1 run R) (walk_insert (\<lambda>x. det ?k4 x \<le> OsTicks ?k4 + delay_ticks timeout ?k4) run D) ?S"
        "alarm_frame (insert run (set D)) ?k4 k5"
      using kinv_AddToDelay [OF inv4 _ rD(1) rR, of timeout] run3 by (auto simp: or_status_def)
    have "qframe k k5" using qframe_trans [OF fr4] k5(3) by (simp add: alarm_frame_def)
    moreover have "fld event_status k5 = fld event_status ?k4" "fld wakeup_from k5 = fld wakeup_from ?k4"
      using k5(3) by (simp_all add: alarm_frame_def)
    moreover have "delay_ticks timeout ?k4 = delay_ticks timeout k" "OsTicks ?k4 = OsTicks k" "det ?k4 = det k"
      by (simp_all add: delay_ticks_def or_status_def run3 det3)
    ultimately show ?thesis using False step k5 st4 by (simp add: D'_def)
  qed
qed

section \<open>Changing priorities\<close>

lemma kinv_set_prio:
  assumes inv: "kinv k R D S" and e: "e \<notin> set R"
  shows "kinv (set_fld prio_update e v k) R D S"
proof -
  have "ready_rep (set_fld prio_update e v k) R"
    by (rule ready_rep_cong [OF kinvD(1) [OF inv]]) (use e in auto)
  then show ?thesis using inv by (simp add: kinv_def delay_rep_def sync_rep_def)
qed

lemma change_prio_ready:
  assumes inv: "kinv k R D S" and e: "e \<in> set R" "R \<noteq> [e]" and st: "fld event_status k e = CN_STS_EVENT_READY"
    and v: "\<And>k1. relinked (set R) k k1 \<Longrightarrow> newp k1 = v"
  shows "\<exists>k'. change_prio e newp k = Some k' \<and>
    kinv k' (walk_insert (\<lambda>x. pr k x \<le> v) e (remove1 e R)) D S \<and> pr k' = (pr k)(e := v) \<and>
    fld event_status k' = fld event_status k \<and> fld vm k' = fld vm k \<and> fld prio_base k' = fld prio_base k \<and>
    ptEventRunning k' = ptEventRunning k \<and> nest_asyn_signal k' = nest_asyn_signal k \<and>
    en_asyn_signal_counter k' = en_asyn_signal_counter k"
proof -
  obtain k1 where k1: "DJY_CutReadyEvent e k = Some k1" "kinv k1 (remove1 e R) D S" "relinked (set R) k k1"
    using kinv_CutReadyEvent [OF inv e] by auto
  note rk = relinked_kernel [OF k1(3)] relinked_data [OF k1(3)] relinked_pr [OF k1(3)]
  have eR: "e \<notin> set (remove1 e R)" using ready_repD(6) [OF kinvD(1) [OF inv]] by simp
  have eD: "e \<notin> set D" and eS: "shd k e = None" using kinvD(4,9) [OF inv] e(1) by auto
  let ?k2 = "set_fld prio_update e v k1"
  have inv2: "kinv ?k2 (remove1 e R) D S" by (rule kinv_set_prio [OF k1(2) eR])
  obtain k3 where k3: "DJY_EventReady e ?k2 = Some k3"
      "kinv k3 (walk_insert (\<lambda>x. pr ?k2 x \<le> pr ?k2 e) e (remove1 e R)) D S" "relinked (insert e (set (remove1 e R))) ?k2 k3"
    using kinv_EventReady [OF inv2 eR eD] eS by (auto simp: rk)
  note rk3 = relinked_kernel [OF k3(3)] relinked_data [OF k3(3)] relinked_pr [OF k3(3)]
  have w: "walk_insert (\<lambda>x. pr ?k2 x \<le> pr ?k2 e) e (remove1 e R) = walk_insert (\<lambda>x. pr k x \<le> v) e (remove1 e R)"
    by (rule walk_insert_cong) (use eR in \<open>auto simp: rk\<close>)
  have "change_prio e newp k = Some k3" using st k1(1) k3(1) v [OF k1(3)] by (simp add: change_prio_def)
  then show ?thesis using k3(2) [unfolded w] by (simp add: rk rk3)
qed

lemma SaveAsyn_simps [simp]:
  "fld g (Int_SaveAsynSignal k) = fld g k" "ptEventRunning (Int_SaveAsynSignal k) = ptEventRunning k"
  "ptEventReady (Int_SaveAsynSignal k) = ptEventReady k" "ptEventDelay (Int_SaveAsynSignal k) = ptEventDelay k"
  "cells (Int_SaveAsynSignal k) = cells k" "nest_asyn_signal (Int_SaveAsynSignal k) = nest_asyn_signal k"
  "OsTicks (Int_SaveAsynSignal k) = OsTicks k" "cfg_tick_us (Int_SaveAsynSignal k) = cfg_tick_us k"
  "cfg_event_limit (Int_SaveAsynSignal k) = cfg_event_limit k" "evtts (Int_SaveAsynSignal k) = evtts k"
  by (simp_all add: Int_SaveAsynSignal_def Let_def)

lemma SaveAsyn_counter:
  "nest_asyn_signal k = 0 \<Longrightarrow> en_asyn_signal_counter k = 0 \<Longrightarrow> en_asyn_signal_counter (Int_SaveAsynSignal k) = 1"
  by (simp add: Int_SaveAsynSignal_def CN_LIMIT_UCPU_def Let_def)

lemma kinv_SaveAsyn: "kinv k R D S \<Longrightarrow> kinv (Int_SaveAsynSignal k) R D S"
  by (erule kinv_cong) simp_all

text \<open>The state in which a service of the kernel is called: the scheduler is on, the running event is
  the most urgent ready one and has a thread, and so has the always ready system service event.\<close>

definition calling :: "'a kernel_scheme \<Rightarrow> nat list \<Rightarrow> nat list \<Rightarrow> (qhead \<Rightarrow> nat list) \<Rightarrow> nat \<Rightarrow> bool" where
  "calling k R D S idle \<longleftrightarrow> kinv k R D S \<and> ptEventRunning k = hd R \<and> idle \<in> set (tl R) \<and>
     fld vm k idle \<noteq> None \<and> fld vm k (ptEventRunning k) \<noteq> None \<and>
     DJY_QuerySch k \<and> nest_asyn_signal k = 0 \<and> en_asyn_signal_counter k = 0"

lemma callingD:
  assumes "calling k R D S idle"
  shows "kinv k R D S" "ptEventRunning k = hd R" "hd R \<in> set R" "R \<noteq> [hd R]" "idle \<in> set R" "idle \<noteq> hd R"
    "fld vm k idle \<noteq> None" "fld vm k (hd R) \<noteq> None" "DJY_QuerySch k" "nest_asyn_signal k = 0"
    "en_asyn_signal_counter k = 0" "R \<noteq> []" "shd k (hd R) = None" "hd R \<notin> set D" "\<And>h. hd R \<notin> set (S h)"
    "idle \<in> set (remove1 (hd R) R)"
proof -
  have inv: "kinv k R D S" "idle \<in> set (tl R)" using assms by (simp_all add: calling_def)
  then have 1: "kinv k R D S" "idle \<in> set (tl R)" "distinct R"
    using ready_repD(6) [OF kinvD(1)] by auto
  then show h: "hd R \<in> set R" and "idle \<in> set R" "idle \<noteq> hd R" "R \<noteq> []" "R \<noteq> [hd R]" "idle \<in> set (remove1 (hd R) R)"
    by (cases R; auto)+
  show "shd k (hd R) = None" "hd R \<notin> set D" "\<And>h. hd R \<notin> set (S h)"
    using kinvD(4,5,9) [OF 1(1)] h by (auto simp: disjoint_iff)
qed (use assms in \<open>auto simp: calling_def\<close>)

text \<open>C5. Priority inheritance: \<open>__DJY_FollowUpPrio\<close> raises a ready event to the priority of the running one
  (the head of the ready queue) and puts it behind the events of that priority, if the running event
  is more urgent, and does nothing otherwise; the base priority is kept, all queues stay
  consistent, and the running event goes on running because the raise creates no more urgent event.\<close>

theorem FollowUpPrio_inherits:
  assumes c: "calling k R D S idle" and e: "e \<in> set R" "fld event_status k e = CN_STS_EVENT_READY"
  shows "\<exists>k'. DJY_FollowUpPrio E (Some e) k = Some (k', True) \<and> ptEventRunning k' = hd R \<and>
    (if pr k (hd R) < pr k e
     then kinv k' (walk_insert (\<lambda>x. pr k x \<le> pr k (hd R)) e (remove1 e R)) D S \<and> pr k' = (pr k)(e := pr k (hd R))
     else kinv k' R D S \<and> pr k' = pr k) \<and> fld prio_base k' = fld prio_base k"
proof -
  note C = callingD [OF c]
  let ?k1 = "Int_SaveAsynSignal k"
  have inv1: "kinv ?k1 R D S" by (rule kinv_SaveAsyn [OF C(1)])
  note cnt = SaveAsyn_counter [OF C(10,11)]
  have restore: "Int_RestoreAsynSignal E k2 = Some (k2\<lparr>en_asyn_signal_counter := 0, ScheduleEnable := True\<rparr>)"
    if "nest_asyn_signal k2 = 0" "en_asyn_signal_counter k2 = 1" "ptEventRunning k2 = ptEventReady k2" for k2
    using that by (simp add: Int_RestoreAsynSignal_def Let_def)
  show ?thesis
  proof (cases "pr k (hd R) < pr k e")
    case True
    then have "e \<noteq> hd R" by auto
    then have Re: "R \<noteq> [e]" using C(3) by auto
    have v: "pr k1 (ptEventRunning k1) = pr k (hd R)" if "relinked (set R) ?k1 k1" for k1
      using C(2) by (simp add: relinked_kernel [OF that] relinked_pr [OF that])
    obtain k2 where k2: "change_prio e (\<lambda>k. pr k (ptEventRunning k)) ?k1 = Some k2"
        "kinv k2 (walk_insert (\<lambda>x. pr ?k1 x \<le> pr k (hd R)) e (remove1 e R)) D S" "pr k2 = (pr ?k1)(e := pr k (hd R))"
        "fld prio_base k2 = fld prio_base ?k1" "ptEventRunning k2 = ptEventRunning ?k1"
        "nest_asyn_signal k2 = nest_asyn_signal ?k1" "en_asyn_signal_counter k2 = en_asyn_signal_counter ?k1"
      using change_prio_ready [OF inv1 e(1) Re, of "\<lambda>k. pr k (ptEventRunning k)" "pr k (hd R)"] e(2) v by auto
    have "hd (remove1 e R) = hd R" "remove1 e R \<noteq> []" using \<open>e \<noteq> hd R\<close> C(12) Re by (cases R; auto)+
    then have "ptEventReady k2 = hd R"
      using ready_repD(2) [OF kinvD(1) [OF k2(2)]] by (simp add: hd_walk_insert)
    then have rdy: "ptEventRunning k2 = ptEventReady k2" using k2(5) C(2) by simp
    have "DJY_FollowUpPrio E (Some e) k = Some (k2\<lparr>en_asyn_signal_counter := 0, ScheduleEnable := True\<rparr>, True)"
      using True k2 C restore [OF _ _ rdy] cnt by (simp add: DJY_FollowUpPrio_def Let_def)
    moreover have "kinv (k2\<lparr>en_asyn_signal_counter := 0, ScheduleEnable := True\<rparr>)
        (walk_insert (\<lambda>x. pr k x \<le> pr k (hd R)) e (remove1 e R)) D S"
      using k2(2) by (intro kinv_cong [OF k2(2) [unfolded SaveAsyn_simps]]) simp_all
    ultimately show ?thesis using True k2 C(2) by simp
  next
    case False
    have rdy: "ptEventRunning ?k1 = ptEventReady ?k1" using C(2) ready_repD(2) [OF kinvD(1) [OF C(1)]] by simp
    have "DJY_FollowUpPrio E (Some e) k = Some (?k1\<lparr>en_asyn_signal_counter := 0, ScheduleEnable := True\<rparr>, True)"
      using False C restore [OF _ cnt rdy] by (simp add: DJY_FollowUpPrio_def Let_def)
    moreover have "kinv (?k1\<lparr>en_asyn_signal_counter := 0, ScheduleEnable := True\<rparr>) R D S"
      by (rule kinv_cong [OF inv1]) simp_all
    ultimately show ?thesis using False C(2) by simp
  qed
qed


section \<open>Delays\<close>

lemma EventDelay_rep:
  assumes c: "calling k R D S idle" and E: "stack_provider E" and us: "us \<noteq> 0"
  shows "\<exists>k2 k' R' t. DJY_EventDelay E us k = Some (k', Blocked) \<and>
    kinv k2 (remove1 (hd R) R) (walk_insert (\<lambda>x. det k x \<le> t) (hd R) D) S \<and> det k2 (hd R) = t \<and>
    fld event_status k2 (hd R) = CN_STS_EVENT_DELAY \<and>
    (cfg_tick_us k \<noteq> 0 \<longrightarrow> uint us \<le> (t - OsTicks k) * uint (cfg_tick_us k) \<and>
      (t - OsTicks k) * uint (cfg_tick_us k) < uint us + uint (cfg_tick_us k)) \<and>
    resumed k2 (remove1 (hd R) R) k' R' (walk_insert (\<lambda>x. det k x \<le> t) (hd R) D) \<and>
    ptEventRunning k' = ptEventReady k' \<and>
    fld vm k2 = fld vm k \<and> pr k2 = pr k \<and> fld event_status k2 = (fld event_status k)(hd R := CN_STS_EVENT_DELAY) \<and>
    nest_asyn_signal k2 = 0 \<and> kernel.more k2 = kernel.more k"
proof -
  note C = callingD [OF c]
  define run where "run = hd R"
  define t where "t = OsTicks k + delay_ticks us k"
  let ?k0 = "Int_SaveAsynSignal k"
  let ?k1 = "set_fld delay_end_tick_update run t (set_fld delay_start_tick_update run (OsTicks k) ?k0)"
  have runD: "run \<notin> set D" using C(14) by (simp add: run_def)
  have inv1: "kinv ?k1 R D S"
  proof -
    have "delay_rep ?k1 D" by (rule delay_rep_cong [OF kinvD(2) [OF C(1)]]) (use runD in auto)
    then show ?thesis using C(1) by (simp add: kinv_def ready_rep_def sync_rep_def)
  qed
  obtain k2 where k2: "DJY_CutReadyEvent run ?k1 = Some k2" "kinv k2 (remove1 run R) D S" "relinked (set R) ?k1 k2"
    using kinv_CutReadyEvent [OF inv1, of run] C(3,4) by (auto simp: run_def)
  note rk = relinked_kernel [OF k2(3)] relinked_data [OF k2(3)]
  let ?k3 = "set_fld event_status_update run CN_STS_EVENT_DELAY k2"
  have inv3: "kinv ?k3 (remove1 run R) D S" by (rule kinv_cong [OF k2(2)]) simp_all
  have nR: "run \<notin> set (remove1 run R)" using ready_repD(6) [OF kinvD(1) [OF C(1)]] by simp
  have run3: "ptEventRunning ?k3 = run" using C(2) by (simp add: rk run_def)
  have "shd ?k3 run = None" using C(13) by (simp add: rk run_def)
  then obtain k4 where k4: "delay_link ?k3 = Some k4"
      "kinv k4 (remove1 run R) (walk_insert (\<lambda>x. det ?k3 x \<le> det ?k3 run) run D) S"
      "alarm_frame (insert run (set D)) ?k3 k4" "det k4 = det ?k3"
    using kinv_delay_link [OF inv3 run3 runD nR] by auto
  have w: "walk_insert (\<lambda>x. det ?k3 x \<le> det ?k3 run) run D = walk_insert (\<lambda>x. det k x \<le> t) run D"
    by (rule walk_insert_cong) (use runD in \<open>auto simp: rk\<close>)
  have fr4: "qframe ?k3 k4" using k4(3) by (simp add: alarm_frame_def)
  note fk = qframe_kernel [OF fr4] qframe_data [OF fr4]
  have fr: "fld vm k4 = fld vm k" "ptEventRunning k4 = run" "nest_asyn_signal k4 = 0" "en_asyn_signal_counter k4 = 1"
    "pr k4 = pr k" "kernel.more k4 = kernel.more k"
    using SaveAsyn_counter [OF C(10,11)] C(2,10) relinked_pr [OF k2(3)] by (simp_all add: fk rk run_def)
  then obtain k' R' where k': "Int_RestoreAsynSignal E k4 = Some k'"
      "resumed k4 (remove1 run R) k' R' (walk_insert (\<lambda>x. det k x \<le> t) run D)" "ptEventRunning k' = ptEventReady k'"
    using Restore_settles [OF E k4(2) [unfolded w], of idle] C(7,8,16) by (auto simp: run_def)
  have "DJY_EventDelay E us k = Some (k', Blocked)"
    using us C(2,9) k2(1) k4(1) k'(1)
    by (simp add: DJY_EventDelay_def Let_def DJY_GetSysTick_def run_def t_def delay_ticks_def)
  moreover have "uint us \<le> delay_ticks us k * uint (cfg_tick_us k)"
    "delay_ticks us k * uint (cfg_tick_us k) < uint us + uint (cfg_tick_us k)" if tick: "cfg_tick_us k \<noteq> 0"
  proof -
    let ?u = "uint us" and ?c = "uint (cfg_tick_us k)"
    have "?c \<noteq> 0" using tick by (simp add: uint_0_iff)
    then have c: "?c > 0" using uint_ge_0 [of "cfg_tick_us k"] by linarith
    have eq: "(?u + ?c - 1) = (?u + ?c - 1) div ?c * ?c + (?u + ?c - 1) mod ?c" by simp
    have "0 \<le> (?u + ?c - 1) mod ?c" "(?u + ?c - 1) mod ?c < ?c" using c by auto
    with eq show "?u \<le> delay_ticks us k * ?c" "delay_ticks us k * ?c < ?u + ?c"
      unfolding delay_ticks_def by linarith+
  qed
  moreover have "fld event_status k4 = (fld event_status k)(run := CN_STS_EVENT_DELAY)" using k4(3) by (simp add: alarm_frame_def rk)
  ultimately show ?thesis using k4(2) [unfolded w] k' k4(4) fr(1,3,5,6)
    by (intro exI [of _ k4] exI [of _ k'] exI [of _ R'] exI [of _ t]) (simp add: run_def t_def rk)
qed


section \<open>Repositioning in a priority ordered queue\<close>

lemma cdll_next_prev:
  assumes "cdll n p Q" "x \<in> set Q" "n x = Some y"
  shows "p y = Some x"
proof -
  obtain us vs where Q: "Q = us @ x # vs" using assms(2) by (meson split_list)
  have c: "cdll n p (x # vs @ us)" using cdll_rotate [of n p us "x # vs"] assms(1) Q by simp
  show ?thesis
  proof (cases "vs @ us")
    case Nil
    then show ?thesis using c assms(3) by (auto simp: cdll_def)
  next
    case (Cons z zs)
    then show ?thesis using c assms(3) by (auto simp: cdll_def)
  qed
qed

text \<open>C8. \<open>__DJY_ChangeBlockQueue\<close> corrupts the queue whenever it has to move an event that is not at
  its head: its last assignment writes \<open>pl_ecb->multi_previous = pl_ecb\<close> where the event itself is
  meant, so that afterwards no circular queue contains the event.\<close>

theorem ChangeBlockQueue_breaks_queue:
  assumes inv: "kinv k R D S" and e: "e \<in> set (S h)" "e \<noteq> hd (S h)"
    and move: "DJY_ChangeBlockQueue e k \<noteq> Some k"
  shows "\<exists>k'. DJY_ChangeBlockQueue e k = Some k' \<and> \<not> (\<exists>Q. e \<in> set Q \<and> sync_rep k' h Q)"
proof -
  note I = kinvD [OF inv]
  have ne: "S h \<noteq> [e]" "S h \<noteq> []" using e by auto
  have sh: "shd k e = Some h" by (rule I(7) [OF e(1)])
  have c: "cells k h = Some (hd (S h))" "cdll (mnx k) (mpv k) (S h)"
    using I(3) [of h] e(1) by (auto simp: sync_rep_def split: if_splits)
  obtain n p where np: "mnx k e = Some n" "mpv k e = Some p" "n \<in> set (S h)" "p \<in> set (S h)"
    using cdll_next_prev_Some [OF c(2) e(1)] by auto
  obtain hp where hp: "mpv k (hd (S h)) = Some hp" using cdll_prevD [OF c(2)] by simp
  let ?k1 = "set_multi_previous n (Some p) (set_multi_next p (Some n) k)"
  have ring1: "cdll (mnx ?k1) (mpv ?k1) (remove1 e (S h))"
    using cdll_remove [OF c(2) e(1) ne(1) np(1,2)] by (simp add: set_ecb_defs)
  have hd1: "hd (remove1 e (S h)) = hd (S h)" using e by (cases "S h") auto
  define s where "s = walk_stop (\<lambda>x. pr k x < pr k e) (remove1 e (S h))"
  have walk: "ring_walk (mnx ?k1) (\<lambda>x. pr k x < pr k e) (hd (S h)) (hd (S h)) = Some s"
    using ring_walk_cdll [OF ring1] hd1 unfolding s_def by metis
  have "remove1 e (S h) \<noteq> []" using ring1 by (simp add: cdll_def)
  then have s_in: "s \<in> set (remove1 e (S h))" unfolding s_def by (rule walk_stop_in)
  have "e \<notin> set (remove1 e (S h))" using c(2) by (simp add: cdll_def)
  then have se: "s \<noteq> e" using s_in by metis
  obtain q where q: "mpv ?k1 s = Some q" "q \<in> set (remove1 e (S h))"
    using cdll_next_prev_Some [OF ring1 s_in] by auto
  then have qe: "q \<noteq> e" using c(2) by (auto simp: cdll_def)
  let ?k2 = "set_multi_previous s (Some s) (set_multi_next q (Some e) (set_multi_previous e (Some q) (set_multi_next e (Some s) ?k1)))"
  have "DJY_ChangeBlockQueue e k = Some (if pr k e < pr k (hd (S h)) then set_cell h (Some e) ?k2 else ?k2)"
    (is "_ = Some ?k3")
  proof -
    have "DJY_ChangeBlockQueue e k = Some k \<or> DJY_ChangeBlockQueue e k = change_block_move e h (hd (S h)) k"
      using hp by (cases "hp = e") (auto simp: DJY_ChangeBlockQueue_def sh c(1) np(1,2) hp e(2))
    then have "DJY_ChangeBlockQueue e k = change_block_move e h (hd (S h)) k" using move by simp
    then show ?thesis
      using munlink_eq [OF np(2,1)] walk q(1) se
      by (simp add: change_block_move_def Let_def set_ecb_defs)
  qed
  moreover have "\<not> sync_rep ?k3 h Q" if "e \<in> set Q" for Q
  proof
    assume "sync_rep ?k3 h Q"
    then have ring: "cdll (mnx ?k3) (mpv ?k3) Q" using that by (auto simp: sync_rep_def split: if_splits)
    have "mnx ?k3 e = Some s" using qe by (simp add: set_ecb_defs)
    from cdll_next_prev [OF ring that this] show False using se by (simp add: set_ecb_defs split: if_splits)
  qed
  ultimately show ?thesis by blast
qed

lemma busy_calling: "calling (busy_kernel m) [1, 0] [2, 3] busy_syncs 0"
  using busy_kinv [of m] by (simp add: calling_def busy_defs DJY_QuerySch_def)

theorem FollowUpPrio_inherits_witness:
  "\<exists>k'. DJY_FollowUpPrio sample_env (Some 0) (busy_kernel ()) = Some (k', True) \<and> kinv k' [1, 0] [2, 3] busy_syncs \<and> pr k' 0 = 100"
proof -
  have "pr (busy_kernel ()) 0 = 250" "pr (busy_kernel ()) (Suc 0) = 100"
    "fld event_status (busy_kernel ()) 0 = CN_STS_EVENT_READY" by (simp_all add: busy_defs)
  with FollowUpPrio_inherits [OF busy_calling, of 0 "()" sample_env] show ?thesis
    by (auto simp: walk_insert_def)
qed



theorem ChangeBlockQueue_breaks_queue_witness:
  "\<exists>k'. DJY_ChangeBlockQueue 5 (busy_kernel ()) = Some k' \<and> \<not> (\<exists>Q. 5 \<in> set Q \<and> sync_rep k' (SempSync 1) Q)"
proof -
  let ?k = "busy_kernel ()"
  have v: "shd ?k 5 = Some (SempSync 1)" "cells ?k (SempSync 1) = Some 4" "mnx ?k 5 = Some 4" "mpv ?k 5 = Some 4"
      "mnx ?k 4 = Some 5" "mpv ?k 4 = Some 5" "pr ?k 4 = 100" "pr ?k 5 = 50"
    by (simp_all add: busy_cells_def busy_defs)
  have "map_option (\<lambda>k. cells k (SempSync 1)) (DJY_ChangeBlockQueue 5 ?k) = Some (Some 5)"
    using v by (simp add: DJY_ChangeBlockQueue_def change_block_move_def munlink_def set_ecb_defs Let_def ring_walk.simps)
  then have "DJY_ChangeBlockQueue 5 ?k \<noteq> Some ?k" using v(2) by auto
  with ChangeBlockQueue_breaks_queue [OF busy_kinv, of 5 "SempSync 1" "()"] show ?thesis
    by (auto simp: busy_syncs_def)
qed

end
