(* ===== verification/Djy_Lock.thy ===== *)
theory Djy_Lock
  imports Djy_Block
begin

text \<open>
  Semaphores and mutexes (\<open>src/djyos/lock/lock.c\<close>).  The state extends the kernel's by the control
  blocks, addressed by a number; the heads of their waiting queues are cells of the kernel
  (\<open>SempSync\<close>, \<open>MutexSync\<close>), and the lists of registered locks are lists of these numbers, most recent
  first.  \<open>s32\<close> members are integers; where the source relies on wrap-around, \<open>wrap32\<close> makes it explicit.
  The control block pool \<open>Mb_Malloc(g_ptLockPool, ...)\<close> is the argument \<open>block\<close>: the block it returned.
\<close>

record SemaphoreLCB =
  sync_order :: bool       \<comment> \<open>\<open>True\<close> is \<open>CN_BLOCK_PRIO\<close>\<close>
  lamps_limit :: int
  lamp_counter :: int
  semp_name :: string

record MutexLCB =
  enable :: int
  owner :: "nat option"
  mutex_name :: string

record lkernel = kernel +
  semps :: "nat \<Rightarrow> SemaphoreLCB"
  mutexes :: "nat \<Rightarrow> MutexLCB"
  semp_list :: "nat list"
  mutex_list :: "nat list"

definition CN_LIMIT_SINT32 :: int where "CN_LIMIT_SINT32 = 0x7FFFFFFF"

definition wrap32 :: "int \<Rightarrow> int" where
  "wrap32 x = sint (word_of_int x :: u32)"

definition upd_semp :: "nat \<Rightarrow> (SemaphoreLCB \<Rightarrow> SemaphoreLCB) \<Rightarrow> 'a lkernel_scheme \<Rightarrow> 'a lkernel_scheme" where
  "upd_semp s f k = k\<lparr>semps := (semps k)(s := f (semps k s))\<rparr>"

definition upd_mutex :: "nat \<Rightarrow> (MutexLCB \<Rightarrow> MutexLCB) \<Rightarrow> 'a lkernel_scheme \<Rightarrow> 'a lkernel_scheme" where
  "upd_mutex m f k = k\<lparr>mutexes := (mutexes k)(m := f (mutexes k m))\<rparr>"

section \<open>Semaphores\<close>

definition Lock_SempCreate_s ::
    "nat option \<Rightarrow> int \<Rightarrow> int \<Rightarrow> bool \<Rightarrow> string \<Rightarrow> 'a lkernel_scheme \<Rightarrow> 'a lkernel_scheme \<times> nat option" where
  "Lock_SempCreate_s semp limit init order name k =
     (case semp of None \<Rightarrow> (k, None)
      | Some s \<Rightarrow>
          if init > limit then (k, None)
          else let k = upd_semp s (\<lambda>_. \<lparr>sync_order = order, lamps_limit = limit, lamp_counter = init, semp_name = name\<rparr>) k;
                   k = set_cell (SempSync s) None k
               in (k\<lparr>semp_list := s # semp_list k\<rparr>, Some s))"

definition Lock_SempCreate ::
    "nat option \<Rightarrow> int \<Rightarrow> int \<Rightarrow> bool \<Rightarrow> string \<Rightarrow> 'a lkernel_scheme \<Rightarrow> 'a lkernel_scheme \<times> nat option" where
  "Lock_SempCreate block limit init order name k =
     (if init > limit then (k, None)
      else case block of None \<Rightarrow> (k, None)
      | Some s \<Rightarrow>
          let k = upd_semp s (\<lambda>_. \<lparr>sync_order = order, lamps_limit = limit, lamp_counter = init, semp_name = name\<rparr>) k;
              k = set_cell (SempSync s) None k
          in (k\<lparr>semp_list := s # semp_list k\<rparr>, Some s))"

text \<open>The statements that take the first waiting event out of a queue.\<close>

definition sync_pop :: "qhead \<Rightarrow> nat \<Rightarrow> 'a kernel_scheme \<Rightarrow> 'a kernel_scheme option" where
  "sync_pop h event k =
     (if mnx k event = Some event then Some (set_cell h None k)
      else do {
        let k = set_cell h (mnx k event) k;
        n \<leftarrow> mnx k event;
        let k = set_multi_previous n (mpv k event) k;
        p \<leftarrow> mpv k event;
        let k = set_multi_next p (mnx k event) k;
        let k = set_multi_next event None k;
        Some (set_multi_previous event None k) })"

definition leave_delay :: "nat \<Rightarrow> 'a kernel_scheme \<Rightarrow> 'a kernel_scheme option" where
  "leave_delay event k =
     (if fld event_status k event AND CN_STS_SYNC_TIMEOUT \<noteq> 0 then DJY_ResumeDelay event k else Some k)"

definition semp_wake :: "nat \<Rightarrow> nat \<Rightarrow> 'a lkernel_scheme \<Rightarrow> 'a lkernel_scheme option" where
  "semp_wake s event k = do {
     k \<leftarrow> sync_pop (SempSync s) event k;
     k \<leftarrow> leave_delay event k;
     let k = set_fld wakeup_from_update event CN_STS_WAIT_SEMP k;
     let k = set_fld event_status_update event CN_STS_EVENT_READY k;
     DJY_EventReady event k }"

definition Lock_SempPost ::
    "'a lkernel_scheme stack_env \<Rightarrow> nat option \<Rightarrow> 'a lkernel_scheme \<Rightarrow> 'a lkernel_scheme option" where
  "Lock_SempPost E semp k =
     (case semp of None \<Rightarrow> Some k
      | Some s \<Rightarrow> do {
          let k = Int_SaveAsynSignal k;
          k \<leftarrow> (case cells k (SempSync s) of
                 None \<Rightarrow>
                   Some (if lamps_limit (semps k s) = -1 then
                           (if lamp_counter (semps k s) \<noteq> CN_LIMIT_SINT32
                            then upd_semp s (\<lambda>l. l\<lparr>lamp_counter := lamp_counter l + 1\<rparr>) k else k)
                         else if lamp_counter (semps k s) < lamps_limit (semps k s)
                         then upd_semp s (\<lambda>l. l\<lparr>lamp_counter := lamp_counter l + 1\<rparr>) k else k)
               | Some event \<Rightarrow> semp_wake s event (set_fld sync_head_update event None k));
          Int_RestoreAsynSignal E k })"

text \<open>The loop of \<open>Lock_SempExpand\<close>: the local variable \<open>event\<close> keeps its first value.\<close>

partial_function (option) expand_wake :: "nat \<Rightarrow> nat \<Rightarrow> int \<Rightarrow> 'a lkernel_scheme \<Rightarrow> ('a lkernel_scheme \<times> int) option" where
  "expand_wake s event num k = do {
     k \<leftarrow> semp_wake s event k;
     let num = num - 1;
     if num = 0 \<or> cells k (SempSync s) = None then Some (k, num) else expand_wake s event num k }"

definition Lock_SempExpand ::
    "'a lkernel_scheme stack_env \<Rightarrow> nat option \<Rightarrow> int \<Rightarrow> 'a lkernel_scheme \<Rightarrow> 'a lkernel_scheme option" where
  "Lock_SempExpand E semp Num k =
     (if semp = None \<or> Num \<le> 0 then Some k
      else do {
        s \<leftarrow> semp;
        let k = Int_SaveAsynSignal k;
        let limit = lamps_limit (semps k s);
        let num = (if limit \<noteq> -1 \<and> \<not> CN_LIMIT_SINT32 - limit \<ge> Num then CN_LIMIT_SINT32 - limit else Num);
        let k = (if limit \<noteq> -1 then
                   (if CN_LIMIT_SINT32 - limit \<ge> Num then upd_semp s (\<lambda>l. l\<lparr>lamps_limit := limit + Num\<rparr>) k
                    else upd_semp s (\<lambda>l. l\<lparr>lamps_limit := CN_LIMIT_SINT32\<rparr>) k)
                 else k);
        (k, num) \<leftarrow> (case cells k (SempSync s) of
                 None \<Rightarrow> Some (k, num)
               | Some EventHead \<Rightarrow> expand_wake s EventHead num k);
        let k = upd_semp s (\<lambda>l. l\<lparr>lamp_counter := wrap32 (lamp_counter l + num)\<rparr>) k;
        let k = (if lamp_counter (semps k s) < 0 then upd_semp s (\<lambda>l. l\<lparr>lamp_counter := CN_LIMIT_SINT32\<rparr>) k else k);
        Int_RestoreAsynSignal E k })"

definition Lock_SempPend ::
    "'a lkernel_scheme stack_env \<Rightarrow> nat option \<Rightarrow> u32 \<Rightarrow> 'a lkernel_scheme \<Rightarrow> ('a lkernel_scheme \<times> bool call) option" where
  "Lock_SempPend E semp timeout k =
     (case semp of
        None \<Rightarrow> Some (DJY_SaveLastError EN_LOCK_PARA_ERROR k, Ret False)
      | Some s \<Rightarrow> do {
          let sch = DJY_QuerySch k;
          let k = Int_SaveAsynSignal k;
          let cnt = lamp_counter (semps k s);
          let lamp = (lamps_limit (semps k s) = -1 \<or> cnt > 0);
          let k = (if (if lamps_limit (semps k s) = -1 then cnt \<noteq> 0 else cnt > 0)
                   then upd_semp s (\<lambda>l. l\<lparr>lamp_counter := cnt - 1\<rparr>) k else k);
          if lamp then do {
            k \<leftarrow> Int_RestoreAsynSignal E k;
            Some (k, Ret True) }
          else if \<not> sch \<or> timeout = 0 then do {
            k \<leftarrow> Int_RestoreAsynSignal E k;
            Some (k, Ret False) }
          else do {
            k \<leftarrow> DJY_AddRunningToBlock (SempSync s) (sync_order (semps k s)) timeout CN_STS_WAIT_SEMP k;
            k \<leftarrow> Int_RestoreAsynSignal E k;
            Some (k, Blocked) } })"

definition Lock_SempPend_resume :: "'a lkernel_scheme \<Rightarrow> bool" where
  "Lock_SempPend_resume k = (fld wakeup_from k (ptEventRunning k) AND CN_STS_SYNC_TIMEOUT = 0)"

definition Lock_SempDelete_s ::
    "'a lkernel_scheme stack_env \<Rightarrow> nat option \<Rightarrow> 'a lkernel_scheme \<Rightarrow> ('a lkernel_scheme \<times> bool) option" where
  "Lock_SempDelete_s E semp k =
     (case semp of None \<Rightarrow> Some (k, False)
      | Some s \<Rightarrow> do {
          let k = Int_SaveAsynSignal k;
          let result = (cells k (SempSync s) = None);
          let k = (if result then k\<lparr>semp_list := remove1 s (semp_list k)\<rparr> else k);
          k \<leftarrow> Int_RestoreAsynSignal E k;
          Some (k, result) })"

definition Lock_SempQueryCapacital :: "nat option \<Rightarrow> 'a lkernel_scheme \<Rightarrow> u32" where
  "Lock_SempQueryCapacital semp k = (case semp of None \<Rightarrow> 0 | Some s \<Rightarrow> word_of_int (lamps_limit (semps k s)))"

definition Lock_SempQueryFree :: "nat option \<Rightarrow> 'a lkernel_scheme \<Rightarrow> u32" where
  "Lock_SempQueryFree semp k = (case semp of None \<Rightarrow> 0 | Some s \<Rightarrow> word_of_int (lamp_counter (semps k s)))"

definition Lock_SempCheckBlock :: "nat option \<Rightarrow> 'a lkernel_scheme \<Rightarrow> bool" where
  "Lock_SempCheckBlock semp k = (case semp of None \<Rightarrow> False | Some s \<Rightarrow> cells k (SempSync s) \<noteq> None)"

definition Lock_SempSetSyncSort :: "nat option \<Rightarrow> bool \<Rightarrow> 'a lkernel_scheme \<Rightarrow> 'a lkernel_scheme" where
  "Lock_SempSetSyncSort semp order k =
     (case semp of None \<Rightarrow> k | Some s \<Rightarrow> upd_semp s (\<lambda>l. l\<lparr>sync_order := order\<rparr>) k)"

section \<open>Mutexes\<close>

definition Lock_MutexCreate_s ::
    "nat option \<Rightarrow> string \<Rightarrow> 'a lkernel_scheme \<Rightarrow> 'a lkernel_scheme \<times> nat option" where
  "Lock_MutexCreate_s mutex name k =
     (case mutex of None \<Rightarrow> (k, None)
      | Some m \<Rightarrow>
          let k = upd_mutex m (\<lambda>_. \<lparr>enable = 0, owner = None, mutex_name = name\<rparr>) k;
              k = set_cell (MutexSync m) None k
          in (k\<lparr>mutex_list := m # mutex_list k\<rparr>, Some m))"

text \<open>\<open>Lock_MutexCreate\<close> differs only in where the block comes from.\<close>

definition Lock_MutexCreate ::
    "nat option \<Rightarrow> string \<Rightarrow> 'a lkernel_scheme \<Rightarrow> 'a lkernel_scheme \<times> nat option" where
  "Lock_MutexCreate block name k =
     (case block of None \<Rightarrow> (k, None)
      | Some m \<Rightarrow>
          let k = upd_mutex m (\<lambda>_. \<lparr>enable = 0, owner = None, mutex_name = name\<rparr>) k;
              k = set_cell (MutexSync m) None k
          in (k\<lparr>mutex_list := m # mutex_list k\<rparr>, Some m))"

definition DJY_GetIdle :: nat where "DJY_GetIdle = 0"

definition mutex_hand_over ::
    "'a lkernel_scheme stack_env \<Rightarrow> nat \<Rightarrow> nat \<Rightarrow> 'a lkernel_scheme \<Rightarrow> 'a lkernel_scheme option" where
  "mutex_hand_over E m event k = do {
     let k = set_fld sync_head_update event None k;
     let k = upd_mutex m (\<lambda>x. x\<lparr>owner := Some event, enable := 1\<rparr>) k;
     k \<leftarrow> sync_pop (MutexSync m) event k;
     k \<leftarrow> leave_delay event k;
     let k = set_fld event_status_update event CN_STS_EVENT_READY k;
     let k = set_fld wakeup_from_update event CN_STS_WAIT_MUTEX k;
     (k, _) \<leftarrow> DJY_RestorePrio E (Some (ptEventRunning k)) k;
     DJY_EventReady event k }"

definition Lock_MutexPost ::
    "'a lkernel_scheme stack_env \<Rightarrow> nat option \<Rightarrow> 'a lkernel_scheme \<Rightarrow> 'a lkernel_scheme option" where
  "Lock_MutexPost E mutex k =
     (case mutex of None \<Rightarrow> Some k
      | Some m \<Rightarrow>
          if \<not> DJY_IsMultiEventStarted k then Some k
          else if Int_GetRunLevel k > 0 then
            Some (if enable (mutexes k m) = -1 then upd_mutex m (\<lambda>x. x\<lparr>enable := 0\<rparr>) k else k)
          else if enable (mutexes k m) = -1 then Some k
          else if owner (mutexes k m) \<noteq> Some (ptEventRunning k) \<and> owner (mutexes k m) \<noteq> Some DJY_GetIdle then Some k
          else do {
            let k = Int_SaveAsynSignal k;
            let k = (if enable (mutexes k m) > 0 then upd_mutex m (\<lambda>x. x\<lparr>enable := enable x - 1\<rparr>) k else k);
            k \<leftarrow> (if enable (mutexes k m) = 0 then
                   (case cells k (MutexSync m) of
                      None \<Rightarrow> Some (upd_mutex m (\<lambda>x. x\<lparr>owner := None\<rparr>) k)
                    | Some event \<Rightarrow> mutex_hand_over E m event k)
                 else Some k);
            Int_RestoreAsynSignal E k })"

definition Lock_MutexPend ::
    "'a lkernel_scheme stack_env \<Rightarrow> nat option \<Rightarrow> u32 \<Rightarrow> 'a lkernel_scheme \<Rightarrow> ('a lkernel_scheme \<times> bool call) option" where
  "Lock_MutexPend E mutex timeout k =
     (if \<not> DJY_IsMultiEventStarted k then Some (k, Ret True)
      else case mutex of
        None \<Rightarrow> Some (if Int_GetRunLevel k = 0 then DJY_SaveLastError EN_LOCK_PARA_ERROR k else k, Ret False)
      | Some m \<Rightarrow>
          if Int_GetRunLevel k > 0 then
            (if enable (mutexes k m) = 0 then Some (upd_mutex m (\<lambda>x. x\<lparr>enable := -1\<rparr>) k, Ret True)
             else Some (DJY_SaveLastError EN_LOCK_BLOCK_IN_INT k, Ret False))
          else if enable (mutexes k m) = -1 then Some (k, Ret False)
          else if owner (mutexes k m) = Some (ptEventRunning k) then
            Some (upd_mutex m (\<lambda>x. x\<lparr>enable := enable x + 1\<rparr>) k, Ret True)
          else do {
            let sch = DJY_QuerySch k;
            let k = Int_SaveAsynSignal k;
            if enable (mutexes k m) = 0 then do {
              let k = upd_mutex m (\<lambda>x. x\<lparr>enable := 1, owner := Some (ptEventRunning k)\<rparr>) k;
              k \<leftarrow> Int_RestoreAsynSignal E k;
              Some (k, Ret True) }
            else if \<not> sch \<or> timeout = 0 then do {
              k \<leftarrow> Int_RestoreAsynSignal E k;
              Some (k, Ret False) }
            else do {
              k \<leftarrow> DJY_AddRunningToBlock (MutexSync m) True timeout CN_STS_WAIT_MUTEX k;
              (k, _) \<leftarrow> DJY_FollowUpPrio E (owner (mutexes k m)) k;
              k \<leftarrow> Int_RestoreAsynSignal E k;
              Some (k, Blocked) } })"

text \<open>\<open>pl_ecb\<close> is the owner the call had found.\<close>

definition Lock_MutexPend_resume ::
    "'a lkernel_scheme stack_env \<Rightarrow> nat option \<Rightarrow> 'a lkernel_scheme \<Rightarrow> ('a lkernel_scheme \<times> bool) option" where
  "Lock_MutexPend_resume E pl_ecb k =
     (if fld wakeup_from k (ptEventRunning k) AND CN_STS_SYNC_TIMEOUT \<noteq> 0 then do {
        (k, _) \<leftarrow> DJY_RestorePrio E pl_ecb k;
        Some (k, False) }
      else Some (k, True))"

definition Lock_MutexDelete_s ::
    "'a lkernel_scheme stack_env \<Rightarrow> nat option \<Rightarrow> 'a lkernel_scheme \<Rightarrow> ('a lkernel_scheme \<times> bool) option" where
  "Lock_MutexDelete_s E mutex k =
     (case mutex of None \<Rightarrow> Some (k, False)
      | Some m \<Rightarrow> do {
          let k = Int_SaveAsynSignal k;
          let result = (cells k (MutexSync m) = None);
          let k = (if result then k\<lparr>mutex_list := remove1 m (mutex_list k)\<rparr> else k);
          k \<leftarrow> Int_RestoreAsynSignal E k;
          Some (k, result) })"

definition Lock_MutexQuery :: "nat option \<Rightarrow> 'a lkernel_scheme \<Rightarrow> bool" where
  "Lock_MutexQuery mutex k = (case mutex of None \<Rightarrow> False | Some m \<Rightarrow> enable (mutexes k m) = 0)"

definition Lock_MutexCheckBlock :: "nat option \<Rightarrow> 'a lkernel_scheme \<Rightarrow> bool" where
  "Lock_MutexCheckBlock mutex k = (case mutex of None \<Rightarrow> False | Some m \<Rightarrow> cells k (MutexSync m) \<noteq> None)"

definition CN_EVENT_ID_INVALID_ID :: u16 where "CN_EVENT_ID_INVALID_ID = 0xFFFF"

definition Lock_MutexGetOwner :: "nat option \<Rightarrow> 'a lkernel_scheme \<Rightarrow> u16" where
  "Lock_MutexGetOwner mutex k =
     (case mutex of None \<Rightarrow> CN_EVENT_ID_INVALID_ID
      | Some m \<Rightarrow> (case owner (mutexes k m) of Some e \<Rightarrow> fld event_id k e | None \<Rightarrow> CN_EVENT_ID_INVALID_ID))"

section \<open>Waking the first waiting event\<close>

lemma upd_lock_simps [simp]:
  "fld g (upd_semp s f k) = fld g k" "cells (upd_semp s f k) = cells k"
  "ptEventReady (upd_semp s f k) = ptEventReady k" "ptEventRunning (upd_semp s f k) = ptEventRunning k"
  "ptEventDelay (upd_semp s f k) = ptEventDelay k" "nest_asyn_signal (upd_semp s f k) = nest_asyn_signal k"
  "en_asyn_signal_counter (upd_semp s f k) = en_asyn_signal_counter k"
  "semps (upd_semp s f k) = (semps k)(s := f (semps k s))"
  "fld g (upd_mutex m f' k) = fld g k" "cells (upd_mutex m f' k) = cells k"
  "ptEventReady (upd_mutex m f' k) = ptEventReady k" "ptEventRunning (upd_mutex m f' k) = ptEventRunning k"
  "ptEventDelay (upd_mutex m f' k) = ptEventDelay k" "nest_asyn_signal (upd_mutex m f' k) = nest_asyn_signal k"
  "en_asyn_signal_counter (upd_mutex m f' k) = en_asyn_signal_counter k"
  "mutexes (upd_mutex m f' k) = (mutexes k)(m := f' (mutexes k m))"
  by (simp_all add: upd_semp_def upd_mutex_def fld_def)

lemma lkernel_upd_ecb [simp]:
  "semps (upd_ecb i f k) = semps k" "mutexes (upd_ecb i f k) = mutexes k"
  "semps (Int_SaveAsynSignal k) = semps k" "mutexes (Int_SaveAsynSignal k) = mutexes k"
  "semps (set_cell h v k) = semps k" "mutexes (set_cell h v k) = mutexes k"
  by (simp_all add: upd_ecb_def Int_SaveAsynSignal_def set_cell_def Let_def)

lemma qframe_lkernel:
  fixes k k' :: "'a lkernel_scheme"
  assumes "qframe k k'"
  shows "semps k' = semps k" "mutexes k' = mutexes k"
proof -
  have *: "k = k'\<lparr>ecbs := ecbs k, ptEventReady := ptEventReady k, ptEventDelay := ptEventDelay k, cells := cells k\<rparr>"
    using assms by (simp add: qframe_def)
  show "semps k' = semps k" "mutexes k' = mutexes k" by (subst *, simp)+
qed

text \<open>The invariant of the queues with the states of the events: ready events have the ready state,
  and a waiting event is in the alarm queue exactly if its state says so.\<close>

definition kwf :: "'a kernel_scheme \<Rightarrow> nat list \<Rightarrow> nat list \<Rightarrow> (qhead \<Rightarrow> nat list) \<Rightarrow> bool" where
  "kwf k R D S \<longleftrightarrow> kinv k R D S \<and> (\<forall>e\<in>set R. fld event_status k e = CN_STS_EVENT_READY) \<and>
     (\<forall>h. \<forall>e\<in>set (S h). fld event_status k e AND CN_STS_SYNC_TIMEOUT \<noteq> 0 \<longleftrightarrow> e \<in> set D)"

lemma kwf_kinv: "kwf k R D S \<Longrightarrow> kinv k R D S"
  by (simp add: kwf_def)

lemma sync_pop_rep:
  assumes inv: "kinv k R D S" and Q: "S h = e # Q"
  defines "k0 \<equiv> set_fld sync_head_update e None k"
  shows "\<exists>k'. sync_pop h e k0 = Some k' \<and> kinv k' R D (S(h := Q)) \<and> qframe k k' \<and> shd k' e = None \<and>
    fld event_status k' = fld event_status k \<and> fld wakeup_from k' = fld wakeup_from k \<and> det k' = det k"
proof -
  note I = kinvD [OF inv]
  have eh: "e \<in> set (S h)" using Q by simp
  have c: "cdll (mnx k) (mpv k) (e # Q)" using I(3) [of h] Q by (auto simp: sync_rep_def)
  obtain n p where np: "mnx k e = Some n" "mpv k e = Some p" using cdll_next_prev_Some [OF c, of e] by auto
  have n: "n = hd (Q @ [e])" using cdll_nextD [OF c] np by simp
  have self: "n = e \<longleftrightarrow> Q = []" using n c by (cases Q) (auto simp: cdll_def)
  have pe: "p = e \<longleftrightarrow> Q = []" using cdll_prevD [OF c] np c by (auto simp: cdll_def split: if_splits)
  let ?k1 = "if Q = [] then set_cell h None k0
     else set_multi_previous e None (set_multi_next e None (set_multi_next p (Some n) (set_multi_previous n (Some p) (set_cell h (Some n) k0))))"
  have eq: "sync_pop h e k0 = Some ?k1"
    using np self pe by (auto simp: sync_pop_def k0_def Let_def set_ecb_defs)
  have others: "(\<lambda>h'. remove1 e (S h')) = S(h := Q)"
  proof
    fix h' show "remove1 e (S h') = (S(h := Q)) h'"
      using I(8) [of h h'] Q by (cases "h' = h") (auto simp: remove1_idem)
  qed
  have "kinv ?k1 R D (\<lambda>h'. remove1 e (S h'))"
    by (rule kinv_left [OF inv eh np]) (use Q n in \<open>auto simp: k0_def set_ecb_defs\<close>)
  moreover have "qframe k ?k1" unfolding k0_def by (auto intro!: relink)
  ultimately show ?thesis using eq unfolding others by (auto simp: k0_def set_ecb_defs)
qed

lemma leave_delay_rep:
  assumes inv: "kinv k R D S" and st: "fld event_status k e AND CN_STS_SYNC_TIMEOUT \<noteq> 0 \<longleftrightarrow> e \<in> set D"
  shows "\<exists>k'. leave_delay e k = Some k' \<and> kinv k' R (remove1 e D) S \<and> qframe k k' \<and> shd k' = shd k \<and>
    fld event_status k' = fld event_status k \<and> fld wakeup_from k' = fld wakeup_from k"
proof (cases "e \<in> set D")
  case True
  then show ?thesis using kinv_ResumeDelay [OF inv True] st
    by (auto simp: leave_delay_def alarm_frame_def)
next
  case False
  then have "leave_delay e k = Some k" using st by (simp add: leave_delay_def)
  then show ?thesis using inv False by (auto simp: remove1_idem)
qed

text \<open>An event that waits in no queue becomes ready.\<close>

lemma wake_rep:
  fixes w :: u32
  assumes inv: "kinv k R D S" and e: "e \<notin> set R" "e \<notin> set D" "shd k e = None"
  defines "k1 \<equiv> set_fld event_status_update e CN_STS_EVENT_READY (set_fld wakeup_from_update e w k)"
  shows "\<exists>k'. DJY_EventReady e k1 = Some k' \<and> kinv k' (walk_insert (\<lambda>x. pr k x \<le> pr k e) e R) D S \<and> qframe k k' \<and>
    fld event_status k' = (fld event_status k)(e := CN_STS_EVENT_READY) \<and> fld wakeup_from k' = (fld wakeup_from k)(e := w)"
proof -
  have inv1: "kinv k1 R D S" unfolding k1_def by (rule kinv_cong [OF inv]) simp_all
  obtain k' where k': "DJY_EventReady e k1 = Some k'" "kinv k' (walk_insert (\<lambda>x. pr k1 x \<le> pr k1 e) e R) D S"
      "relinked (insert e (set R)) k1 k'"
    using kinv_EventReady [OF inv1 e(1,2)] e(3) by (auto simp: k1_def)
  have "qframe k k1" unfolding k1_def by (intro relink)
  then have "qframe k k'" by (rule qframe_trans [OF _ relinked_qframe [OF k'(3)]])
  then show ?thesis using k' by (auto simp: k1_def relinked_data [OF k'(3)])
qed

lemma semp_wake_rep:
  fixes k :: "'a lkernel_scheme"
  assumes wf: "kwf k R D S" and Q: "S (SempSync s) = e # Q"
  shows "\<exists>k'. semp_wake s e (set_fld sync_head_update e None k) = Some k' \<and>
    kwf k' (walk_insert (\<lambda>x. pr k x \<le> pr k e) e R) (remove1 e D) (S(SempSync s := Q)) \<and> qframe k k' \<and>
    fld wakeup_from k' e = CN_STS_WAIT_SEMP"
proof -
  let ?h = "SempSync s" and ?S = "S(SempSync s := Q)"
  note inv = kwf_kinv [OF wf]
  note I = kinvD [OF inv]
  have eh: "e \<in> set (S ?h)" using Q by simp
  have dist: "distinct (e # Q)" using I(3) [of ?h] Q by (auto simp: sync_rep_def cdll_def)
  obtain k1 where k1: "sync_pop ?h e (set_fld sync_head_update e None k) = Some k1" "kinv k1 R D ?S" "qframe k k1"
      "shd k1 e = None" "fld event_status k1 = fld event_status k" "fld wakeup_from k1 = fld wakeup_from k"
    using sync_pop_rep [OF inv Q] by auto
  have "fld event_status k1 e AND CN_STS_SYNC_TIMEOUT \<noteq> 0 \<longleftrightarrow> e \<in> set D"
    using wf eh k1(5) unfolding kwf_def by metis
  then obtain k2 where k2: "leave_delay e k1 = Some k2" "kinv k2 R (remove1 e D) ?S" "qframe k1 k2" "shd k2 = shd k1"
      "fld event_status k2 = fld event_status k1" "fld wakeup_from k2 = fld wakeup_from k1"
    using leave_delay_rep [OF k1(2)] by auto
  have dD: "distinct D" by (rule delay_repD(5) [OF I(2)])
  have eR: "e \<notin> set R" using I(5) [of ?h] eh by auto
  have eD: "e \<notin> set (remove1 e D)" using dD by simp
  have fr2: "qframe k k2" by (rule qframe_trans [OF k1(3) k2(3)])
  obtain k3 where k3: "DJY_EventReady e (set_fld event_status_update e CN_STS_EVENT_READY (set_fld wakeup_from_update e CN_STS_WAIT_SEMP k2)) = Some k3"
      "kinv k3 (walk_insert (\<lambda>x. pr k2 x \<le> pr k2 e) e R) (remove1 e D) ?S" "qframe k2 k3"
      "fld event_status k3 = (fld event_status k2)(e := CN_STS_EVENT_READY)" "fld wakeup_from k3 = (fld wakeup_from k2)(e := CN_STS_WAIT_SEMP)"
    using wake_rep [OF k2(2) eR eD, of CN_STS_WAIT_SEMP] k2(4) k1(4) by auto
  have "semp_wake s e (set_fld sync_head_update e None k) = Some k3"
    using k1(1) k2(1) k3(1) by (simp add: semp_wake_def Let_def)
  moreover have "kwf k3 (walk_insert (\<lambda>x. pr k x \<le> pr k e) e R) (remove1 e D) ?S"
    unfolding kwf_def
  proof (intro conjI allI ballI)
    show "kinv k3 (walk_insert (\<lambda>x. pr k x \<le> pr k e) e R) (remove1 e D) ?S"
      using k3(2) by (simp add: qframe_data [OF fr2])
    show "fld event_status k3 x = CN_STS_EVENT_READY" if "x \<in> set (walk_insert (\<lambda>x. pr k x \<le> pr k e) e R)" for x
      using that wf by (auto simp: k3(4) k2(5) k1(5) kwf_def)
    show "(fld event_status k3 x AND CN_STS_SYNC_TIMEOUT \<noteq> 0) = (x \<in> set (remove1 e D))" if "x \<in> set (?S h)" for h x
    proof -
      have "x \<in> set (S h)" "x \<noteq> e" using that Q dist I(8) [of ?h h] by (auto split: if_splits)
      then show ?thesis using wf dD by (simp add: k3(4) k2(5) k1(5) kwf_def)
    qed
  qed
  ultimately show ?thesis using qframe_trans [OF fr2 k3(3)] k3(5) by simp
qed

section \<open>Blocking on a lock\<close>

lemma more_lkernel:
  fixes k k' :: "'a lkernel_scheme"
  assumes "kernel.more k' = kernel.more k"
  shows "semps k' = semps k" "mutexes k' = mutexes k" "lkernel.more k' = lkernel.more k"
  using assms by (cases k; cases k'; simp)+

lemma lock_status:
  fixes st :: u32
  assumes "Status = CN_STS_WAIT_SEMP \<or> Status = CN_STS_WAIT_MUTEX"
  shows "(block_status Qsort Q 0 OR (if forever then Status else Status + CN_STS_SYNC_TIMEOUT)) AND CN_STS_SYNC_TIMEOUT \<noteq> 0
     \<longleftrightarrow> \<not> forever"
  using assms by (auto simp: block_status_def)

text \<open>\<open>blocked_at k R D S h b timeout k2 D'\<close>: the running event, the head of \<open>R\<close>, has been moved to the queue
  \<open>h\<close> and, with a finite timeout, to the alarm queue.\<close>

lemma kwf_AddRunningToBlock:
  fixes timeout Status :: u32 and k :: "'a kernel_scheme"
  assumes wf: "kwf k R D S" and run: "ptEventRunning k = run" "run \<in> set R" "R \<noteq> [run]"
    and st: "Status = CN_STS_WAIT_SEMP \<or> Status = CN_STS_WAIT_MUTEX"
  shows "\<exists>k' D'. DJY_AddRunningToBlock h Qsort timeout Status k = Some k' \<and>
    kwf k' (remove1 run R) D' (S(h := walk_insert (block_order Qsort (pr k) run) run (S h))) \<and>
    D' = (if timeout = CN_TIMEOUT_FOREVER then D
          else walk_insert (\<lambda>x. det k x \<le> OsTicks k + delay_ticks timeout k) run D) \<and> qframe k k'"
proof -
  note inv = kwf_kinv [OF wf]
  let ?D = "if timeout = CN_TIMEOUT_FOREVER then D
          else walk_insert (\<lambda>x. det k x \<le> OsTicks k + delay_ticks timeout k) run D"
  let ?S = "S(h := walk_insert (block_order Qsort (pr k) run) run (S h))"
  let ?st = "block_status Qsort (S h) (fld event_status k run) OR
            (if timeout = CN_TIMEOUT_FOREVER then Status else Status + CN_STS_SYNC_TIMEOUT)"
  obtain k' where k': "DJY_AddRunningToBlock h Qsort timeout Status k = Some k'" "kinv k' (remove1 run R) ?D ?S"
      "fld event_status k' = (fld event_status k)(run := ?st)" "qframe k k'"
    using kinv_AddRunningToBlock [OF inv run, of h Qsort timeout Status] by blast
  have s0: "fld event_status k run = 0" using wf run(2) by (simp add: kwf_def)
  have dR: "distinct R" using ready_repD(6) [OF kinvD(1) [OF inv]] .
  have nr: "run \<notin> set (S h')" "run \<notin> set D" for h' using kinvD(4,5) [OF inv] run(2) by auto
  have "kwf k' (remove1 run R) ?D ?S"
    unfolding kwf_def
  proof (intro conjI allI ballI)
    show "fld event_status k' e = CN_STS_EVENT_READY" if "e \<in> set (remove1 run R)" for e
      using that wf dR by (simp add: k'(3) kwf_def)
    show "(fld event_status k' e AND CN_STS_SYNC_TIMEOUT \<noteq> 0) = (e \<in> set ?D)" if "e \<in> set (?S h')" for h' e
    proof (cases "e = run")
      case True
      have "(fld event_status k' run AND CN_STS_SYNC_TIMEOUT \<noteq> 0) = (timeout \<noteq> CN_TIMEOUT_FOREVER)"
        unfolding k'(3) using lock_status [OF st, of Qsort "S h" "timeout = CN_TIMEOUT_FOREVER"] s0 by simp
      then show ?thesis using True nr(2) by simp
    next
      case False
      then have "e \<in> set (S h')" using that by (auto split: if_splits)
      then show ?thesis using False wf by (simp add: k'(3) kwf_def)
    qed
  qed (rule k'(2))
  then show ?thesis using k' by auto
qed

text \<open>The end of a service: from any consistent state that differs from the calling state in the queues
  only, the outermost restore leads to the most urgent event.\<close>

lemma service_restore_gen:
  assumes c: "calling k R D S idle" and E: "stack_provider E"
    and fr: "fld vm k2 = fld vm k" "ptEventRunning k2 = ptEventRunning k" "nest_asyn_signal k2 = 0" "en_asyn_signal_counter k2 = 1"
    and inv: "kinv k2 R2 D2 S2" and idle: "idle \<in> set R2"
  obtains k' R' where "Int_RestoreAsynSignal E k2 = Some k'" "resumed k2 R2 k' R' D2"
    "ptEventRunning k' = ptEventReady k'"
proof -
  note C = callingD [OF c]
  have "fld vm k2 idle \<noteq> None" "fld vm k2 (ptEventRunning k2) \<noteq> None"
    using C(2,7,8) by (simp_all add: fr)
  from Restore_settles [OF E inv idle this fr(3,4)] that show ?thesis by blast
qed

lemma service_restore:
  assumes c: "calling k R D S idle" and E: "stack_provider E"
    and fr: "qframe (Int_SaveAsynSignal k) k2" and inv: "kinv k2 R2 D2 S2" and idle: "idle \<in> set R2"
  obtains k' R' where "Int_RestoreAsynSignal E k2 = Some k'" "resumed k2 R2 k' R' D2"
    "ptEventRunning k' = ptEventReady k'"
proof -
  note C = callingD [OF c]
  note f = qframe_kernel [OF fr] qframe_data [OF fr]
  have "fld vm k2 = fld vm k" "ptEventRunning k2 = ptEventRunning k" "nest_asyn_signal k2 = 0" "en_asyn_signal_counter k2 = 1"
    using C(10) SaveAsyn_counter [OF C(10,11)] by (simp_all add: f)
  from service_restore_gen [OF c E this inv idle] that show ?thesis by blast
qed

section \<open>Properties of semaphores\<close>

text \<open>The abstract semaphore: the number of lit lamps and the waiting events.\<close>

definition asem_post :: "int \<Rightarrow> int \<times> nat list \<Rightarrow> int \<times> nat list" where
  "asem_post limit cq = (case cq of
     (c, []) \<Rightarrow> (if (if limit = -1 then c \<noteq> CN_LIMIT_SINT32 else c < limit) then c + 1 else c, [])
   | (c, e # q) \<Rightarrow> (c, q))"

definition lamp_inv :: "int \<Rightarrow> int \<times> nat list \<Rightarrow> bool" where
  "lamp_inv limit cq \<longleftrightarrow> 0 \<le> fst cq \<and> (limit \<noteq> -1 \<longrightarrow> fst cq \<le> limit \<and> (fst cq > 0 \<longrightarrow> snd cq = []))"

lemma SempPost_rep:
  fixes k :: "'a lkernel_scheme"
  assumes c: "calling k R D S idle" and wf: "kwf k R D S" and E: "stack_provider E"
    and l: "lamp_inv (lamps_limit (semps k s)) (lamp_counter (semps k s), S (SempSync s))"
  shows "\<exists>k2 k' R2 D2 R' Q. Lock_SempPost E (Some s) k = Some k' \<and>
    kwf k2 R2 D2 (S(SempSync s := Q)) \<and> resumed k2 R2 k' R' D2 \<and> ptEventRunning k' = ptEventReady k' \<and>
    (lamp_counter (semps k' s), Q) = asem_post (lamps_limit (semps k s)) (lamp_counter (semps k s), S (SempSync s)) \<and>
    lamp_inv (lamps_limit (semps k' s)) (lamp_counter (semps k' s), Q) \<and>
    (case S (SempSync s) of
       [] \<Rightarrow> R2 = R \<and> D2 = D
     | e # _ \<Rightarrow> R2 = walk_insert (\<lambda>x. pr k x \<le> pr k e) e R \<and> D2 = remove1 e D \<and> fld wakeup_from k2 e = CN_STS_WAIT_SEMP) \<and>
    semps k' = (semps k)(s := (semps k s)\<lparr>lamp_counter := fst (asem_post (lamps_limit (semps k s)) (lamp_counter (semps k s), S (SempSync s)))\<rparr>) \<and>
    lkernel.more k' = lkernel.more k \<and> fld vm k2 = fld vm k \<and> pr k2 = pr k \<and> nest_asyn_signal k2 = 0"
proof -
  note C = callingD [OF c]
  let ?k1 = "Int_SaveAsynSignal k" and ?h = "SempSync s"
  have wf1: "kwf ?k1 R D S" using wf kinv_SaveAsyn by (auto simp: kwf_def)
  note rep = kinvD(3) [OF C(1), of ?h]
  note cnt = SaveAsyn_counter [OF C(10,11)]
  show ?thesis
  proof (cases "S ?h")
    case Nil
    then have cell: "cells ?k1 ?h = None" using rep by (simp add: sync_rep_def)
    let ?c = "fst (asem_post (lamps_limit (semps k s)) (lamp_counter (semps k s), []))"
    let ?k2 = "upd_semp s (\<lambda>l. l\<lparr>lamp_counter := ?c\<rparr>) ?k1"
    have id: "upd_semp s (\<lambda>l. l\<lparr>lamp_counter := lamp_counter (semps k s)\<rparr>) ?k1 = ?k1"
      by (simp add: upd_semp_def)
    let ?light = "if lamps_limit (semps k s) = -1 then lamp_counter (semps k s) \<noteq> CN_LIMIT_SINT32
       else lamp_counter (semps k s) < lamps_limit (semps k s)"
    have body: "(if lamps_limit (semps ?k1 s) = -1 then
          (if lamp_counter (semps ?k1 s) \<noteq> CN_LIMIT_SINT32 then upd_semp s (\<lambda>l. l\<lparr>lamp_counter := lamp_counter l + 1\<rparr>) ?k1 else ?k1)
        else if lamp_counter (semps ?k1 s) < lamps_limit (semps ?k1 s)
        then upd_semp s (\<lambda>l. l\<lparr>lamp_counter := lamp_counter l + 1\<rparr>) ?k1 else ?k1) = ?k2"
    proof (cases ?light)
      case True
      then have "?c = lamp_counter (semps k s) + 1" by (simp add: asem_post_def)
      then show ?thesis using True by (auto simp: upd_semp_def split: if_splits)
    next
      case False
      then have "?c = lamp_counter (semps k s)" by (simp add: asem_post_def)
      then have "?k2 = ?k1" using id by simp
      then show ?thesis using False by (auto split: if_splits)
    qed
    have S: "S(?h := []) = S" using Nil by auto
    have wf2: "kwf ?k2 R D S" using wf1 kinv_cong [of ?k1 R D S ?k2] by (simp add: kwf_def)
    obtain k' R' where k': "Int_RestoreAsynSignal E ?k2 = Some k'" "resumed ?k2 R k' R' D" "ptEventRunning k' = ptEventReady k'"
      using Restore_settles [OF E kwf_kinv [OF wf2] C(5)] C cnt by auto
    have "Lock_SempPost E (Some s) k = Some k'" 
      unfolding Lock_SempPost_def Let_def option.case cell body using k'(1) by simp
    moreover have m: "semps k' = semps ?k2" "lkernel.more k' = lkernel.more ?k2"
      by (rule more_lkernel, use k'(2) in \<open>simp add: resumed_def settled_def\<close>)+
    then have "(lamp_counter (semps k' s), []) = asem_post (lamps_limit (semps k s)) (lamp_counter (semps k s), S ?h)"
      "lamp_inv (lamps_limit (semps k' s)) (lamp_counter (semps k' s), [])"
      using Nil l by (auto simp: asem_post_def lamp_inv_def)
    moreover have "lkernel.more k' = lkernel.more k" using m(2) by (simp add: upd_semp_def Int_SaveAsynSignal_def Let_def)
    ultimately show ?thesis using Nil wf2 k'(2,3) S m(1) C(10) by (intro exI [of _ ?k2] exI [of _ k'] exI [of _ R] exI [of _ D] exI [of _ R'] exI [of _ "[]"]) auto
  next
    case (Cons e Q)
    then have cell: "cells ?k1 ?h = Some e" using rep by (simp add: sync_rep_def)
    let ?R2 = "walk_insert (\<lambda>x. pr k x \<le> pr k e) e R"
    obtain k2 where k2: "semp_wake s e (set_fld sync_head_update e None ?k1) = Some k2"
        "kwf k2 ?R2 (remove1 e D) (S(?h := Q))" "qframe ?k1 k2" "fld wakeup_from k2 e = CN_STS_WAIT_SEMP"
      using semp_wake_rep [OF wf1 Cons] by auto
    note fr = qframe_kernel [OF k2(3)] qframe_data [OF k2(3)] qframe_lkernel [OF k2(3)]
    have "idle \<in> set ?R2" using C(5) by simp
    then obtain k' R' where k': "Int_RestoreAsynSignal E k2 = Some k'" "resumed k2 ?R2 k' R' (remove1 e D)" "ptEventRunning k' = ptEventReady k'"
      by (rule service_restore [OF c E k2(3) kwf_kinv [OF k2(2)]])
    have "Lock_SempPost E (Some s) k = Some k'"
      unfolding Lock_SempPost_def Let_def option.case cell k2(1) using k'(1) by simp
    moreover have m: "semps k' = semps k" "lkernel.more k' = lkernel.more k2"
      using k'(2) more_lkernel [of k' k2] by (auto simp: resumed_def settled_def fr)
    moreover have "lkernel.more k2 = lkernel.more k"
      using fr more_lkernel(3) [of k2 ?k1] by (simp add: Int_SaveAsynSignal_def Let_def)
    moreover have "(lamp_counter (semps k' s), Q) = asem_post (lamps_limit (semps k s)) (lamp_counter (semps k s), S ?h)"
      "lamp_inv (lamps_limit (semps k' s)) (lamp_counter (semps k' s), Q)"
      using Cons l m(1) by (auto simp: asem_post_def lamp_inv_def)
    moreover have "fld vm k2 = fld vm k" "pr k2 = pr k" "nest_asyn_signal k2 = 0" using C(10) by (simp_all add: fr)
    ultimately show ?thesis using Cons k2(2,4) k'(2,3)
      by (intro exI [of _ k2] exI [of _ k'] exI [of _ ?R2] exI [of _ "remove1 e D"] exI [of _ R'] exI [of _ Q]) (simp add: asem_post_def)
  qed
qed


lemma SempPend_waits:
  fixes k :: "'a lkernel_scheme" and timeout :: u32 and s :: nat
  assumes c: "calling k R D S idle" and wf: "kwf k R D S" and E: "stack_provider E"
    and wait: "\<not> (lamps_limit (semps k s) = -1 \<or> lamp_counter (semps k s) > 0)" "timeout \<noteq> 0"
  defines "P \<equiv> block_order (sync_order (semps k s)) (pr k) (hd R)"
  shows "\<exists>k2 k' D2 R'. Lock_SempPend E (Some s) timeout k = Some (k', Blocked) \<and>
        kwf k2 (remove1 (hd R) R) D2 (S(SempSync s := walk_insert P (hd R) (S (SempSync s)))) \<and>
        (hd R \<in> set D2 \<longleftrightarrow> timeout \<noteq> CN_TIMEOUT_FOREVER) \<and> set D \<subseteq> set D2 \<and> set D2 \<subseteq> insert (hd R) (set D) \<and>
        resumed k2 (remove1 (hd R) R) k' R' D2 \<and> ptEventRunning k' = ptEventReady k' \<and> semps k' = semps k \<and>
        fld vm k2 = fld vm k \<and> pr k2 = pr k \<and> nest_asyn_signal k2 = 0"
proof -
  note C = callingD [OF c]
  let ?k1 = "Int_SaveAsynSignal k" and ?h = "SempSync s" and ?l = "semps k s"
  have wf1: "kwf ?k1 R D S" using wf kinv_SaveAsyn by (auto simp: kwf_def)
  have P1: "block_order (sync_order ?l) (pr ?k1) (hd R) = P" by (simp add: P_def)
  have run1: "ptEventRunning ?k1 = hd R" using C(2) by simp
  obtain k2 D2 where k2: "DJY_AddRunningToBlock ?h (sync_order ?l) timeout CN_STS_WAIT_SEMP ?k1 = Some k2"
      "kwf k2 (remove1 (hd R) R) D2 (S(?h := walk_insert P (hd R) (S ?h)))"
      "D2 = (if timeout = CN_TIMEOUT_FOREVER then D
        else walk_insert (\<lambda>x. det ?k1 x \<le> OsTicks ?k1 + delay_ticks timeout ?k1) (hd R) D)" "qframe ?k1 k2"
    using kwf_AddRunningToBlock [OF wf1 run1 C(3,4), of CN_STS_WAIT_SEMP ?h "sync_order ?l" timeout] P1 by auto
  obtain k' R' where k': "Int_RestoreAsynSignal E k2 = Some k'" "resumed k2 (remove1 (hd R) R) k' R' D2" "ptEventRunning k' = ptEventReady k'"
    by (rule service_restore [OF c E k2(4) kwf_kinv [OF k2(2)] C(16)])
  have "Lock_SempPend E (Some s) timeout k = Some (k', Blocked)"
    using wait C(9) k2(1) k'(1) by (simp add: Lock_SempPend_def Let_def)
  moreover have "semps k' = semps k2" by (rule more_lkernel) (use k'(2) in \<open>simp add: resumed_def settled_def\<close>)
  then have "semps k' = semps k" by (simp add: qframe_lkernel [OF k2(4)])
  moreover have "hd R \<in> set D2 \<longleftrightarrow> timeout \<noteq> CN_TIMEOUT_FOREVER" "set D \<subseteq> set D2" "set D2 \<subseteq> insert (hd R) (set D)" using k2(3) C(14) by auto
  moreover have "fld vm k2 = fld vm k" "pr k2 = pr k" "nest_asyn_signal k2 = 0"
    using C(10) by (simp_all add: qframe_kernel [OF k2(4)] qframe_data [OF k2(4)])
  ultimately show ?thesis using k2(2) k'(2,3) by blast
qed


section \<open>Mutexes\<close>

text \<open>A change of priority inside a service: the nested save and restore do not schedule.\<close>

definition prio_frame :: "'a kernel_scheme \<Rightarrow> 'a kernel_scheme \<Rightarrow> bool" where
  "prio_frame k k' \<longleftrightarrow> fld event_status k' = fld event_status k \<and> fld vm k' = fld vm k \<and>
     fld prio_base k' = fld prio_base k \<and> fld wakeup_from k' = fld wakeup_from k \<and> shd k' = shd k \<and>
     ptEventRunning k' = ptEventRunning k \<and> nest_asyn_signal k' = nest_asyn_signal k \<and>
     en_asyn_signal_counter k' = en_asyn_signal_counter k \<and> kernel.more k' = kernel.more k"

lemma prio_frame_refl [simp]: "prio_frame k k"
  by (simp add: prio_frame_def)

lemma relinked_prio_frame:
  assumes "relinked A k k'"
  shows "prio_frame k k'"
  by (simp add: prio_frame_def relinked_data [OF assms] relinked_kernel [OF assms])

lemma change_prio_frame:
  assumes "change_prio e newp k = Some k'" "fld event_status k e = CN_STS_EVENT_READY"
    and "kinv k R D S" "e \<in> set R" "R \<noteq> [e]"
  shows "prio_frame k k'"
proof -
  obtain k1 where k1: "DJY_CutReadyEvent e k = Some k1" "kinv k1 (remove1 e R) D S" "relinked (set R) k k1"
    using kinv_CutReadyEvent [OF assms(3-5)] by auto
  have eR: "e \<notin> set (remove1 e R)" using ready_repD(6) [OF kinvD(1) [OF assms(3)]] by simp
  have eD: "e \<notin> set D" and eS: "shd k1 e = None"
    using kinvD(4,9) [OF assms(3)] assms(4) by (auto simp: relinked_data [OF k1(3)])
  let ?k2 = "set_fld prio_update e (newp k1) k1"
  obtain k3 where k3: "DJY_EventReady e ?k2 = Some k3" "relinked (insert e (set (remove1 e R))) ?k2 k3"
    using kinv_EventReady [OF kinv_set_prio [OF k1(2) eR], of e "newp k1"] eR eD eS by auto
  have "k' = k3" using assms(1,2) k1(1) k3(1) by (simp add: change_prio_def)
  then show ?thesis using relinked_prio_frame [OF k1(3)] relinked_prio_frame [OF k3(2)]
    by (simp add: prio_frame_def)
qed

text \<open>The result of bringing the ready event \<open>e\<close> to priority \<open>v\<close>.\<close>

definition moved :: "'a kernel_scheme \<Rightarrow> nat \<Rightarrow> u8 \<Rightarrow> nat list \<Rightarrow> nat list" where
  "moved k e v R = (if v = pr k e then R else walk_insert (\<lambda>x. pr k x \<le> v) e (remove1 e R))"

lemma nested_restore:
  "nest_asyn_signal k = 0 \<Longrightarrow> en_asyn_signal_counter k = 2 \<Longrightarrow>
   Int_RestoreAsynSignal E k = Some (k\<lparr>en_asyn_signal_counter := 1, ScheduleEnable := False\<rparr>)"
  by (simp add: Int_RestoreAsynSignal_def Let_def)

lemma nested_prio_change:
  assumes inv: "kinv k R D S" and e: "e \<in> set R" "R \<noteq> [e]" "fld event_status k e = CN_STS_EVENT_READY"
    and cnt: "nest_asyn_signal k = 0" "en_asyn_signal_counter k = 1"
    and v: "\<And>k1. b \<Longrightarrow> relinked (set R) (Int_SaveAsynSignal k) k1 \<Longrightarrow> newp k1 = v" and same: "\<not> b \<Longrightarrow> v = pr k e"
  shows "\<exists>k'. ((if b then change_prio e newp (Int_SaveAsynSignal k) else Some (Int_SaveAsynSignal k))
        \<bind> Int_RestoreAsynSignal E) = Some k' \<and>
      kinv k' (if b then walk_insert (\<lambda>x. pr k x \<le> v) e (remove1 e R) else R) D S \<and> pr k' = (pr k)(e := v) \<and> prio_frame k k'"
proof -
  let ?k1 = "Int_SaveAsynSignal k"
  have inv1: "kinv ?k1 R D S" by (rule kinv_SaveAsyn [OF inv])
  have c1: "nest_asyn_signal ?k1 = 0" "en_asyn_signal_counter ?k1 = 2" and m1: "kernel.more ?k1 = kernel.more k"
    using cnt by (simp_all add: Int_SaveAsynSignal_def CN_LIMIT_UCPU_def Let_def)
  have fin: "kinv (k2\<lparr>en_asyn_signal_counter := 1, ScheduleEnable := False\<rparr>) R2 D S" if "kinv k2 R2 D S" for k2 :: "'a kernel_scheme" and R2
    by (rule kinv_cong [OF that]) simp_all
  show ?thesis
  proof (cases b)
    case True
    obtain k2 where k2: "change_prio e newp ?k1 = Some k2" "kinv k2 (walk_insert (\<lambda>x. pr ?k1 x \<le> v) e (remove1 e R)) D S"
        "pr k2 = (pr ?k1)(e := v)"
      using change_prio_ready [OF inv1 e(1,2), of newp v] v True e(3) by auto
    have fr: "prio_frame ?k1 k2" by (rule change_prio_frame [OF k2(1) _ inv1 e(1,2)]) (simp add: e(3))
    then have "Int_RestoreAsynSignal E k2 = Some (k2\<lparr>en_asyn_signal_counter := 1, ScheduleEnable := False\<rparr>)"
      using c1 by (intro nested_restore) (simp_all add: prio_frame_def)
    then show ?thesis using True k2 fin [OF k2(2)] fr m1 cnt by (simp add: prio_frame_def)
  next
    case False
    then show ?thesis using nested_restore [OF c1, of E] fin [OF inv1] m1 cnt same by (auto simp: prio_frame_def)
  qed
qed

lemma MutexPend_blocks:
  fixes k :: "'a lkernel_scheme" and timeout :: u32 and m :: nat
  assumes c: "calling k R D S idle" and wf: "kwf k R D S" and E: "stack_provider E"
    and ms: "DJY_IsMultiEventStarted k" and en: "enable (mutexes k m) > 0"
    and x: "owner (mutexes k m) = Some x" "x \<in> set R" "x \<noteq> idle" "x \<noteq> hd R" and timeout: "timeout \<noteq> 0"
  shows "\<exists>k2 k' R2 D2 R'. Lock_MutexPend E (Some m) timeout k = Some (k', Blocked) \<and>
    kinv k2 R2 D2 (S(MutexSync m := walk_insert (\<lambda>y. pr k y \<le> pr k (hd R)) (hd R) (S (MutexSync m)))) \<and>
    set R2 = set R - {hd R} \<and> pr k2 = (pr k)(x := min (pr k x) (pr k (hd R))) \<and>
    resumed k2 R2 k' R' D2 \<and> ptEventRunning k' = ptEventReady k' \<and> mutexes k' = mutexes k"
proof -
  note C = callingD [OF c]
  let ?k1 = "Int_SaveAsynSignal k" and ?h = "MutexSync m" and ?R1 = "remove1 (hd R) R"
  let ?S = "S(?h := walk_insert (\<lambda>y. pr k y \<le> pr k (hd R)) (hd R) (S ?h))"
  have wf1: "kwf ?k1 R D S" using wf kinv_SaveAsyn by (auto simp: kwf_def)
  have run1: "ptEventRunning ?k1 = hd R" using C(2) by simp
  have dR: "distinct R" using ready_repD(6) [OF kinvD(1) [OF C(1)]] .
  obtain k2 D2 where k2: "DJY_AddRunningToBlock ?h True timeout CN_STS_WAIT_MUTEX ?k1 = Some k2"
      "kwf k2 ?R1 D2 ?S" "qframe ?k1 k2"
    using kwf_AddRunningToBlock [OF wf1 run1 C(3,4), of CN_STS_WAIT_MUTEX ?h True timeout]
    by (auto simp: block_order_def)
  note f = qframe_kernel [OF k2(3)] qframe_data [OF k2(3)] qframe_lkernel [OF k2(3)]
  have xR: "x \<in> set ?R1" using x(2,4) by simp
  have Rx: "?R1 \<noteq> [x]" using C(16) x(3) by auto
  have st: "fld event_status k2 x = CN_STS_EVENT_READY" using k2(2) xR by (simp add: kwf_def)
  have cnt: "nest_asyn_signal k2 = 0" "en_asyn_signal_counter k2 = 1"
    using SaveAsyn_counter [OF C(10,11)] C(10) by (simp_all add: f)
  let ?b = "pr k2 (ptEventRunning k2) < pr k2 x" and ?v = "min (pr k x) (pr k (hd R))"
  have b: "?b \<longleftrightarrow> pr k (hd R) < pr k x" by (simp add: f C(2))
  have "newp = ?v" if "?b" "relinked (set ?R1) (Int_SaveAsynSignal k2) k1" "newp = pr k1 (ptEventRunning k1)" for k1 newp
    using that C(2) by (simp add: relinked_pr [OF that(2)] relinked_kernel [OF that(2)] f)
  moreover have "\<not> ?b \<Longrightarrow> ?v = pr k2 x" using b by (simp add: f)
  ultimately obtain k3 where k3: "((if ?b then change_prio x (\<lambda>k. pr k (ptEventRunning k)) (Int_SaveAsynSignal k2) else Some (Int_SaveAsynSignal k2))
        \<bind> Int_RestoreAsynSignal E) = Some k3"
      "kinv k3 (if ?b then walk_insert (\<lambda>y. pr k2 y \<le> ?v) x (remove1 x ?R1) else ?R1) D2 ?S"
      "pr k3 = (pr k2)(x := ?v)" "prio_frame k2 k3"
    using nested_prio_change [OF kwf_kinv [OF k2(2)] xR Rx st cnt, of ?b "\<lambda>k. pr k (ptEventRunning k)" ?v E] by blast
  let ?R2 = "if ?b then walk_insert (\<lambda>y. pr k2 y \<le> ?v) x (remove1 x ?R1) else ?R1"
  have FU: "DJY_FollowUpPrio E (Some x) k2 = Some (k3, True)"
  proof -
    have "DJY_FollowUpPrio E (Some x) k2 = (((if ?b then change_prio x (\<lambda>k. pr k (ptEventRunning k)) (Int_SaveAsynSignal k2) else Some (Int_SaveAsynSignal k2))
        \<bind> Int_RestoreAsynSignal E) \<bind> (\<lambda>k. Some (k, True)))"
      by (simp add: DJY_FollowUpPrio_def Let_def)
    then show ?thesis unfolding k3(1) by simp
  qed
  have sR1: "set ?R1 = set R - {hd R}" using dR by auto
  have sR2: "set ?R2 = set R - {hd R}" using sR1 xR dR by auto
  have idle2: "idle \<in> set ?R2" using sR2 C(5,6) by simp
  have p: "fld vm k3 = fld vm k" "ptEventRunning k3 = ptEventRunning k" "nest_asyn_signal k3 = 0" "en_asyn_signal_counter k3 = 1"
    "kernel.more k3 = kernel.more k2"
    using k3(4) cnt by (auto simp: prio_frame_def f)
  obtain k' R' where k': "Int_RestoreAsynSignal E k3 = Some k'" "resumed k3 ?R2 k' R' D2" "ptEventRunning k' = ptEventReady k'"
    by (rule service_restore_gen [OF c E p(1-4) k3(2) idle2])
  have "Lock_MutexPend E (Some m) timeout k = Some (k', Blocked)"
    using x en timeout ms C(2,9,10) k2(1) FU k'(1) by (simp add: Lock_MutexPend_def Let_def Int_GetRunLevel_def f)
  moreover have "mutexes k' = mutexes k3" "mutexes k3 = mutexes k2"
    by (rule more_lkernel, use k'(2) p(5) in \<open>simp add: resumed_def settled_def\<close>)+
  then have "mutexes k' = mutexes k" by (simp add: f)
  moreover have "pr k3 = (pr k)(x := ?v)" using k3(3) by (simp add: f)
  ultimately show ?thesis using k3(2) sR2 k'(2,3) by blast
qed


lemma upd_mutex_commute:
  "upd_mutex m f (upd_ecb i g k) = upd_ecb i g (upd_mutex m f k)"
  by (simp add: upd_mutex_def upd_ecb_def)

lemma mutex_hand_over_rep:
  fixes k :: "'a lkernel_scheme"
  assumes wf: "kwf k R D S" and Q: "S (MutexSync m) = e # Q"
    and run: "ptEventRunning k = run" "run \<in> set R" "R \<noteq> [run]"
    and cnt: "nest_asyn_signal k = 0" "en_asyn_signal_counter k = 1"
  shows "\<exists>k' R2. mutex_hand_over E m e k = Some k' \<and> kinv k' R2 (remove1 e D) (S(MutexSync m := Q)) \<and>
    set R2 = insert e (set R) \<and> pr k' = (pr k)(run := fld prio_base k run) \<and>
    fld event_status k' e = CN_STS_EVENT_READY \<and> fld wakeup_from k' e = CN_STS_WAIT_MUTEX \<and>
    fld vm k' = fld vm k \<and> ptEventRunning k' = run \<and> nest_asyn_signal k' = 0 \<and> en_asyn_signal_counter k' = 1 \<and>
    mutexes k' = (mutexes k)(m := (mutexes k m)\<lparr>owner := Some e, enable := 1\<rparr>)"
proof -
  let ?h = "MutexSync m" and ?S = "S(MutexSync m := Q)"
  let ?k0 = "upd_mutex m (\<lambda>x. x\<lparr>owner := Some e, enable := 1\<rparr>) k"
  note inv = kwf_kinv [OF wf]
  note I = kinvD [OF inv]
  have inv0: "kinv ?k0 R D S" by (rule kinv_cong [OF inv]) simp_all
  have eh: "e \<in> set (S ?h)" using Q by simp
  obtain k1 where k1: "sync_pop ?h e (set_fld sync_head_update e None ?k0) = Some k1" "kinv k1 R D ?S" "qframe ?k0 k1"
      "shd k1 e = None" "fld event_status k1 = fld event_status ?k0" "fld wakeup_from k1 = fld wakeup_from ?k0"
    using sync_pop_rep [OF inv0 Q] by auto
  have "fld event_status k1 e AND CN_STS_SYNC_TIMEOUT \<noteq> 0 \<longleftrightarrow> e \<in> set D"
    using wf eh k1(5) unfolding kwf_def upd_lock_simps by metis
  then obtain k2 where k2: "leave_delay e k1 = Some k2" "kinv k2 R (remove1 e D) ?S" "qframe k1 k2" "shd k2 = shd k1"
      "fld event_status k2 = fld event_status k1" "fld wakeup_from k2 = fld wakeup_from k1"
    using leave_delay_rep [OF k1(2)] by auto
  have eR: "e \<notin> set R" using I(5) [of ?h] eh by auto
  have eD: "e \<notin> set (remove1 e D)" using delay_repD(5) [OF I(2)] by simp
  have er: "e \<noteq> run" using eR run(2) by auto
  define k3 where "k3 = set_fld wakeup_from_update e CN_STS_WAIT_MUTEX (set_fld event_status_update e CN_STS_EVENT_READY k2)"
  have inv3: "kinv k3 R (remove1 e D) ?S" unfolding k3_def by (rule kinv_cong [OF k2(2)]) simp_all
  have fr3: "qframe ?k0 k3" unfolding k3_def
    by (rule qframe_trans [OF qframe_trans [OF k1(3) k2(3)]]) (intro relink)
  note f = qframe_kernel [OF fr3] qframe_data [OF fr3] qframe_lkernel [OF fr3]
  have run3: "ptEventRunning k3 = run" by (simp add: f run(1))
  have st3: "fld event_status k3 run = CN_STS_EVENT_READY"
    using wf run(2) er by (simp add: k3_def k2(5) k1(5) kwf_def)
  let ?v = "fld prio_base k run" and ?b = "pr k3 run \<noteq> fld prio_base k3 run"
  have "fld prio_base ka run = ?v" if "relinked (set R) (Int_SaveAsynSignal k3) ka" for ka
    by (simp add: relinked_data [OF that] f)
  moreover have "\<not> ?b \<Longrightarrow> ?v = pr k3 run" by (simp add: f)
  ultimately obtain k4 where k4: "((if ?b then change_prio run (\<lambda>k. fld prio_base k run) (Int_SaveAsynSignal k3) else Some (Int_SaveAsynSignal k3))
        \<bind> Int_RestoreAsynSignal E) = Some k4"
      "kinv k4 (if ?b then walk_insert (\<lambda>y. pr k3 y \<le> ?v) run (remove1 run R) else R) (remove1 e D) ?S"
      "pr k4 = (pr k3)(run := ?v)" "prio_frame k3 k4"
    using nested_prio_change [OF inv3 run(2,3) st3, of ?b "\<lambda>k. fld prio_base k run" ?v E] cnt by (auto simp: f)
  let ?R1 = "if ?b then walk_insert (\<lambda>y. pr k3 y \<le> ?v) run (remove1 run R) else R"
  have RP: "DJY_RestorePrio E (Some run) k3 = Some (k4, True)"
  proof -
    have "DJY_RestorePrio E (Some run) k3 = (((if ?b then change_prio run (\<lambda>k. fld prio_base k run) (Int_SaveAsynSignal k3) else Some (Int_SaveAsynSignal k3))
        \<bind> Int_RestoreAsynSignal E) \<bind> (\<lambda>k. Some (k, True)))"
      by (simp add: DJY_RestorePrio_def Let_def)
    then show ?thesis unfolding k4(1) by simp
  qed
  have sR1: "set ?R1 = set R" using run(2) ready_repD(6) [OF I(1)] by auto
  have p: "fld event_status k4 = fld event_status k3" "fld wakeup_from k4 = fld wakeup_from k3" "shd k4 = shd k3"
    "fld vm k4 = fld vm k" "ptEventRunning k4 = run" "nest_asyn_signal k4 = 0" "en_asyn_signal_counter k4 = 1"
    "kernel.more k4 = kernel.more k3"
    using k4(4) cnt run3 by (auto simp: prio_frame_def f)
  have "shd k4 e = None" using p(3) k1(4) k2(4) by (simp add: k3_def)
  then obtain k5 where k5: "DJY_EventReady e k4 = Some k5"
      "kinv k5 (walk_insert (\<lambda>x. pr k4 x \<le> pr k4 e) e ?R1) (remove1 e D) ?S" "relinked (insert e (set ?R1)) k4 k5"
    using kinv_EventReady [OF k4(2), of e] eR eD sR1 by auto
  note g = relinked_kernel [OF k5(3)] relinked_data [OF k5(3)] relinked_pr [OF k5(3)]
  have "mutex_hand_over E m e k = Some k5"
    unfolding mutex_hand_over_def Let_def upd_mutex_commute using k1(1) k2(1) RP [unfolded k3_def] k5(1) run3
    by (simp add: k3_def)
  moreover have "mutexes k5 = mutexes k4" "mutexes k4 = mutexes k3" by (rule more_lkernel, simp add: g p(8))+
  then have "mutexes k5 = (mutexes k)(m := (mutexes k m)\<lparr>owner := Some e, enable := 1\<rparr>)" by (simp add: f)
  moreover have "pr k5 = (pr k)(run := ?v)" by (simp add: g k4(3) f)
  moreover have "fld event_status k5 e = CN_STS_EVENT_READY" "fld wakeup_from k5 e = CN_STS_WAIT_MUTEX"
    by (simp_all add: g p k3_def)
  ultimately show ?thesis using k5(2) sR1
    by (intro exI [of _ k5] exI [of _ "walk_insert (\<lambda>x. pr k4 x \<le> pr k4 e) e ?R1"]) (simp add: g p)
qed


text \<open>Semaphores 0 and 1 are out of lamps; mutex 0 belongs to event 1 and mutex 1 is free.\<close>

definition busy_lock :: "lkernel" where
  "busy_lock = busy_kernel (lkernel.fields
     (\<lambda>_. \<lparr>sync_order = True, lamps_limit = 3, lamp_counter = 0, semp_name = []\<rparr>)
     ((\<lambda>_. \<lparr>enable = 0, owner = None, mutex_name = []\<rparr>)(0 := \<lparr>enable = 1, owner = Some 1, mutex_name = []\<rparr>))
     [0, 1] [0, 1])"

lemma busy_lock_fields [simp]:
  "semps busy_lock = (\<lambda>_. \<lparr>sync_order = True, lamps_limit = 3, lamp_counter = 0, semp_name = []\<rparr>)"
  "mutexes busy_lock = (\<lambda>_. \<lparr>enable = 0, owner = None, mutex_name = []\<rparr>)(0 := \<lparr>enable = 1, owner = Some 1, mutex_name = []\<rparr>)"
  "DJY_IsMultiEventStarted busy_lock"
  by (simp_all add: busy_lock_def busy_kernel_def lkernel.defs DJY_IsMultiEventStarted_def)

lemma busy_kwf: "kwf (busy_kernel m) [1, 0] [2, 3] busy_syncs"
proof -
  have "\<forall>e\<in>set [1, 0]. fld event_status (busy_kernel m) e = CN_STS_EVENT_READY" by (simp add: busy_defs)
  moreover have "\<forall>e\<in>set (busy_syncs h). fld event_status (busy_kernel m) e AND CN_STS_SYNC_TIMEOUT \<noteq> 0 \<longleftrightarrow> e \<in> set [2, 3]" for h
  proof -
    have "fld event_status (busy_kernel m) 2 = 0x82" "fld event_status (busy_kernel m) 3 = 0x102"
      "fld event_status (busy_kernel m) 4 = 0x80" "fld event_status (busy_kernel m) 5 = 0x40080"
      "fld event_status (busy_kernel m) 6 = 0x20" "fld event_status (busy_kernel m) 7 = 4" by (simp_all add: busy_defs)
    then show ?thesis by (simp add: busy_syncs_def)
  qed
  ultimately show ?thesis unfolding kwf_def using busy_kinv [of m] by blast
qed

lemma busy_lock_calling: "calling busy_lock [1, 0] [2, 3] busy_syncs 0" "kwf busy_lock [1, 0] [2, 3] busy_syncs"
  unfolding busy_lock_def by (rule busy_calling, rule busy_kwf)





section \<open>Calls that neither wait nor wake\<close>

text \<open>For the users of locks: in a state in which nobody has to wait or to be woken the operations change their control block only.\<close>

lemma quiet_restore:
  assumes "calling k R D S idle"
  shows "Int_RestoreAsynSignal E (Int_SaveAsynSignal k) = Some k"
    "Int_RestoreAsynSignal E (upd_semp s f (Int_SaveAsynSignal k)) = Some (upd_semp s f k)"
    "Int_RestoreAsynSignal E (upd_semp s g (upd_semp s f (Int_SaveAsynSignal k))) = Some (upd_semp s g (upd_semp s f k))"
    "Int_RestoreAsynSignal E (upd_mutex m h (Int_SaveAsynSignal k)) = Some (upd_mutex m h k)"
    "Int_RestoreAsynSignal E (upd_mutex m i (upd_mutex m h (Int_SaveAsynSignal k))) = Some (upd_mutex m i (upd_mutex m h k))"
proof -
  note C = callingD [OF assms]
  have r: "ptEventReady k = hd R" using ready_repD(2) [OF kinvD(1) [OF C(1)]] .
  have z: "k\<lparr>en_asyn_signal_counter := 0, ScheduleEnable := True\<rparr> = k"
    "k\<lparr>semps := X, en_asyn_signal_counter := 0, ScheduleEnable := True\<rparr> = k\<lparr>semps := X\<rparr>"
    "k\<lparr>mutexes := Y, en_asyn_signal_counter := 0, ScheduleEnable := True\<rparr> = k\<lparr>mutexes := Y\<rparr>" for X Y
    using C(9,11) by (cases k, simp add: DJY_QuerySch_def)+
  show "Int_RestoreAsynSignal E (Int_SaveAsynSignal k) = Some k"
    "Int_RestoreAsynSignal E (upd_semp s f (Int_SaveAsynSignal k)) = Some (upd_semp s f k)"
    "Int_RestoreAsynSignal E (upd_semp s g (upd_semp s f (Int_SaveAsynSignal k))) = Some (upd_semp s g (upd_semp s f k))"
    "Int_RestoreAsynSignal E (upd_mutex m h (Int_SaveAsynSignal k)) = Some (upd_mutex m h k)"
    "Int_RestoreAsynSignal E (upd_mutex m i (upd_mutex m h (Int_SaveAsynSignal k))) = Some (upd_mutex m i (upd_mutex m h k))"
    using C(2,10,11) r z
    by (simp_all add: Int_RestoreAsynSignal_def Int_SaveAsynSignal_def Let_def CN_LIMIT_UCPU_def upd_semp_def upd_mutex_def)
qed

lemma SempPend_now:
  assumes c: "calling k R D S idle" and l: "lamps_limit (semps k s) \<noteq> -1"
  shows "lamp_counter (semps k s) > 0 \<Longrightarrow>
      Lock_SempPend E (Some s) timeout k = Some (upd_semp s (\<lambda>l. l\<lparr>lamp_counter := lamp_counter (semps k s) - 1\<rparr>) k, Ret True)"
    "\<not> lamp_counter (semps k s) > 0 \<Longrightarrow> Lock_SempPend E (Some s) 0 k = Some (k, Ret False)"
  using l quiet_restore [OF c] by (simp_all add: Lock_SempPend_def Let_def)

lemma SempPost_now:
  assumes c: "calling k R D S idle" and l: "lamp_counter (semps k s) < lamps_limit (semps k s)" "lamps_limit (semps k s) \<noteq> -1" "S (SempSync s) = []"
  shows "Lock_SempPost E (Some s) k = Some (upd_semp s (\<lambda>l. l\<lparr>lamp_counter := lamp_counter l + 1\<rparr>) k)"
proof -
  have "cells k (SempSync s) = None" using kinvD(3) [OF callingD(1) [OF c], of "SempSync s"] l(3) by (simp add: sync_rep_def)
  then show ?thesis using l quiet_restore [OF c] by (simp add: Lock_SempPost_def Let_def)
qed

lemma SempExpand_now:
  assumes c: "calling k R D S idle" and n: "0 < n" "0 \<le> lamps_limit (semps k s)" "lamps_limit (semps k s) + n \<le> CN_LIMIT_SINT32"
    and l: "0 \<le> lamp_counter (semps k s)" "lamp_counter (semps k s) \<le> lamps_limit (semps k s)" "S (SempSync s) = []"
  shows "Lock_SempExpand E (Some s) n k =
    Some (upd_semp s (\<lambda>x. x\<lparr>lamps_limit := lamps_limit (semps k s) + n, lamp_counter := lamp_counter (semps k s) + n\<rparr>) k)"
proof -
  have e: "cells k (SempSync s) = None" using kinvD(3) [OF callingD(1) [OF c], of "SempSync s"] l(3) by (simp add: sync_rep_def)
  have w: "wrap32 (lamp_counter (semps k s) + n) = lamp_counter (semps k s) + n"
    unfolding wrap32_def using n l by (intro sint_small) (simp_all add: CN_LIMIT_SINT32_def)
  have u: "upd_semp s g (upd_semp s f k) = upd_semp s (\<lambda>x. g (f x)) k" for g f by (simp add: upd_semp_def)
  have v: "upd_semp s (\<lambda>x. x\<lparr>lamps_limit := lamps_limit (semps k s) + n, lamp_counter := wrap32 (lamp_counter x + n)\<rparr>) k =
      upd_semp s (\<lambda>x. x\<lparr>lamps_limit := lamps_limit (semps k s) + n, lamp_counter := lamp_counter (semps k s) + n\<rparr>) k"
    using w by (simp add: upd_semp_def)
  show ?thesis using n l e w quiet_restore(3) [OF c, of E s] by (simp add: Lock_SempExpand_def Let_def u v)
qed

lemma MutexPend_now:
  assumes c: "calling k R D S idle" and m: "enable (mutexes k m) = 0" "owner (mutexes k m) = None" "DJY_IsMultiEventStarted k"
  shows "Lock_MutexPend E (Some m) timeout k = Some (upd_mutex m (\<lambda>x. x\<lparr>enable := 1, owner := Some (hd R)\<rparr>) k, Ret True)"
  using m quiet_restore(4) [OF c] callingD(2,10) [OF c]
  by (simp add: Lock_MutexPend_def Let_def Int_GetRunLevel_def)

lemma MutexPost_now:
  assumes c: "calling k R D S idle" and m: "enable (mutexes k m) = 1" "owner (mutexes k m) = Some (hd R)" "DJY_IsMultiEventStarted k" "S (MutexSync m) = []"
  shows "Lock_MutexPost E (Some m) k = Some (upd_mutex m (\<lambda>x. x\<lparr>enable := 0, owner := None\<rparr>) k)"
proof -
  have e: "cells k (MutexSync m) = None" using kinvD(3) [OF callingD(1) [OF c], of "MutexSync m"] m(4) by (simp add: sync_rep_def)
  have u: "upd_mutex m g (upd_mutex m f k) = upd_mutex m (\<lambda>x. g (f x)) k" for g f by (simp add: upd_mutex_def)
  have v: "upd_mutex m (\<lambda>x. x\<lparr>enable := enable x - 1, owner := None\<rparr>) k = upd_mutex m (\<lambda>x. x\<lparr>enable := 0, owner := None\<rparr>) k"
    using m(1) by (cases "mutexes k m") (simp add: upd_mutex_def)
  show ?thesis using m e quiet_restore(5) [OF c, of E m] callingD(2,10) [OF c]
    by (simp add: Lock_MutexPost_def Let_def Int_GetRunLevel_def u v)
qed

text \<open>The caller's state does not depend on the control blocks of locks.\<close>

lemma upd_lock_other [simp]: "semps (upd_mutex m f k) = semps k" "mutexes (upd_semp s g k) = mutexes k"
  by (simp_all add: upd_mutex_def upd_semp_def)

lemma calling_locks:
  fixes k :: "'a lkernel_scheme"
  assumes "calling k R D S idle"
  shows "calling (k\<lparr>semps := x, mutexes := y\<rparr>) R D S idle" "calling (k\<lparr>semps := x\<rparr>) R D S idle" "calling (k\<lparr>mutexes := y\<rparr>) R D S idle"
proof -
  have "kinv (k\<lparr>semps := x, mutexes := y\<rparr>) R D S" for x y by (rule kinv_cong [OF callingD(1) [OF assms]]) (simp_all add: fld_def)
  then have *: "calling (k\<lparr>semps := x, mutexes := y\<rparr>) R D S idle" for x y using assms by (auto simp: calling_def fld_def DJY_QuerySch_def)
  show "calling (k\<lparr>semps := x, mutexes := y\<rparr>) R D S idle" by (rule *)
  from * [where x = x and y = "mutexes k"] * [where x = "semps k" and y = y]
  show "calling (k\<lparr>semps := x\<rparr>) R D S idle" "calling (k\<lparr>mutexes := y\<rparr>) R D S idle" by simp_all
qed

lemma calling_upd [simp]:
  "calling k R D S idle \<Longrightarrow> calling (upd_semp s f k) R D S idle" "calling k R D S idle \<Longrightarrow> calling (upd_mutex m g k) R D S idle"
  by (simp_all add: upd_semp_def upd_mutex_def calling_locks)

lemma started_upd [simp]:
  "DJY_IsMultiEventStarted (upd_semp s f k) = DJY_IsMultiEventStarted k" "DJY_IsMultiEventStarted (upd_mutex m g k) = DJY_IsMultiEventStarted k"
  by (simp_all add: DJY_IsMultiEventStarted_def upd_semp_def upd_mutex_def)

end
