(* ===== verification/Djy_Wake.thy ===== *)
theory Djy_Wake
  imports Djy_Lock
begin

text \<open>
  Lemmas for the loops that make a whole queue of waiting events ready: the invariant of the queues
  depends on queued events only, the movement of events between the alarm and the ready queue does not
  look at the waiting places, and one round of such a loop keeps the invariant of the remaining queues.
\<close>

section \<open>Waking a whole queue\<close>

text \<open>\<open>unhook X h k\<close> is \<open>k\<close> seen as if the events \<open>X\<close> waited nowhere and the queue \<open>h\<close> were empty.  The
  functions that move events between the alarm and the ready queue do not look at either.\<close>

definition unhook :: "nat set \<Rightarrow> qhead \<Rightarrow> 'a kernel_scheme \<Rightarrow> 'a kernel_scheme" where
  "unhook X h k = k\<lparr>ecbs := override_on (ecbs k) (\<lambda>i. (ecbs k i)\<lparr>sync_head := None\<rparr>) X, cells := (cells k)(h := None)\<rparr>"

lemma unhook_fld [simp]:
  "(\<And>e. g (e\<lparr>sync_head := None\<rparr>) = g e) \<Longrightarrow> fld g (unhook X h k) = fld g k"
  "shd (unhook X h k) = (\<lambda>i. if i \<in> X then None else shd k i)"
  "ptEventReady (unhook X h k) = ptEventReady k" "ptEventDelay (unhook X h k) = ptEventDelay k"
  "OsTicks (unhook X h k) = OsTicks k" "cells (unhook X h k) = (cells k)(h := None)"
  "ptEventRunning (unhook X h k) = ptEventRunning k"
  by (auto simp: unhook_def fld_def override_on_def)

lemma unhook_upd:
  "(\<And>e. f (e\<lparr>sync_head := None\<rparr>) = (f e)\<lparr>sync_head := None\<rparr>) \<Longrightarrow> unhook X h (upd_ecb i f k) = upd_ecb i f (unhook X h k)"
  "unhook X h (k\<lparr>ptEventReady := e\<rparr>) = (unhook X h k)\<lparr>ptEventReady := e\<rparr>"
  "unhook X h (k\<lparr>ptEventDelay := d\<rparr>) = (unhook X h k)\<lparr>ptEventDelay := d\<rparr>"
proof -
  assume f: "\<And>e. f (e\<lparr>sync_head := None\<rparr>) = (f e)\<lparr>sync_head := None\<rparr>"
  have "override_on ((ecbs k)(i := f (ecbs k i))) (\<lambda>j. (((ecbs k)(i := f (ecbs k i))) j)\<lparr>sync_head := None\<rparr>) X =
      (override_on (ecbs k) (\<lambda>j. (ecbs k j)\<lparr>sync_head := None\<rparr>) X)(i := f (override_on (ecbs k) (\<lambda>j. (ecbs k j)\<lparr>sync_head := None\<rparr>) X i))"
    by (auto simp: override_on_def f)
  then show "unhook X h (upd_ecb i f k) = upd_ecb i f (unhook X h k)"
    by (simp add: unhook_def upd_ecb_def)
qed (simp_all add: unhook_def)

lemma map_bind: "map_option f (Option.bind x g) = Option.bind x (\<lambda>y. map_option f (g y))"
  by (cases x) simp_all

lemma if_bind: "Option.bind (if b then x else y) f = (if b then Option.bind x f else Option.bind y f)"
  by simp

lemmas unhook_simps = unhook_upd set_ecb_defs map_bind if_bind Option.bind_assoc

lemma unhook_EventReady: "DJY_EventReady e (unhook X h k) = map_option (unhook X h) (DJY_EventReady e k)"
  unfolding DJY_EventReady_def Let_def
  by (simp add: unhook_simps if_distrib [of "map_option (unhook X h)"] if_distrib [of "unhook X h"] cong: if_cong)

lemma unhook_unlink: "unlink e (unhook X h k) = map_option (unhook X h) (unlink e k)"
  unfolding unlink_def Let_def by (simp add: unhook_simps)

lemma unhook_ResumeDelay: "DJY_ResumeDelay e (unhook X h k) = map_option (unhook X h) (DJY_ResumeDelay e k)"
proof (cases "ptEventDelay k")
  case (Some d)
  have "unlink e ((unhook X h k)\<lparr>ptEventDelay := v\<rparr>) = map_option (unhook X h) (unlink e (k\<lparr>ptEventDelay := v\<rparr>))" for e v
    by (simp flip: unhook_upd unhook_unlink)
  with Some show ?thesis
    by (simp add: DJY_ResumeDelay_def DJY_GetSysTick_def Let_def unhook_simps unhook_unlink bind_map_option comp_def)
qed (simp add: DJY_ResumeDelay_def)

lemma unhook_leave_delay: "leave_delay e (unhook X h k) = map_option (unhook X h) (leave_delay e k)"
  by (simp add: leave_delay_def unhook_ResumeDelay)

lemma qframe_unhook [simp]: "qframe (unhook X h k) (unhook X h k') \<longleftrightarrow> qframe k k'"
proof -
  have "ecb_core (ecbs (unhook X h k) i) = ecb_core (ecbs k i)" for k :: "'a kernel_scheme" and i
    by (simp add: unhook_def override_on_def ecb_core_def)
  moreover have "(unhook X h k')\<lparr>ecbs := ecbs (unhook X h k), ptEventReady := ptEventReady k, ptEventDelay := ptEventDelay k,
      cells := cells (unhook X h k)\<rparr> = unhook X h k \<longleftrightarrow>
    k'\<lparr>ecbs := ecbs k, ptEventReady := ptEventReady k, ptEventDelay := ptEventDelay k, cells := cells k\<rparr> = k"
    unfolding unhook_def by (cases k; cases k'; auto)
  ultimately show ?thesis by (simp add: qframe_def)
qed

lemma unhook_outside: "y \<notin> X \<Longrightarrow> ecbs (unhook X h k) y = ecbs k y"
  by (simp add: unhook_def override_on_def)

text \<open>The statements that make one waiting event ready.\<close>

definition wake_up :: "u32 \<Rightarrow> nat \<Rightarrow> 'a kernel_scheme \<Rightarrow> 'a kernel_scheme option" where
  "wake_up reason e k = do {
     k \<leftarrow> leave_delay e k;
     let k = set_fld event_status_update e CN_STS_EVENT_READY k;
     let k = set_fld wakeup_from_update e reason k;
     DJY_EventReady e k }"

lemma unhook_wake_up: "wake_up w e (unhook X h k) = map_option (unhook X h) (wake_up w e k)"
  by (cases "leave_delay e k") (simp_all add: wake_up_def unhook_leave_delay unhook_EventReady Let_def flip: unhook_upd)

lemma leave_delay_alarm:
  assumes inv: "kinv k R D S" and st: "fld event_status k e AND CN_STS_SYNC_TIMEOUT \<noteq> 0 \<longleftrightarrow> e \<in> set D"
  shows "\<exists>k'. leave_delay e k = Some k' \<and> kinv k' R (remove1 e D) S \<and> alarm_frame (set D) k k'"
proof (cases "e \<in> set D")
  case True
  then show ?thesis using kinv_ResumeDelay [OF inv True] st by (auto simp: leave_delay_def)
next
  case False
  then show ?thesis using inv st by (simp add: leave_delay_def remove1_idem)
qed

lemma wake_up_rep:
  fixes w :: u32
  assumes inv: "kinv k R D S" and e: "e \<notin> set R" "shd k e = None"
    and st: "fld event_status k e AND CN_STS_SYNC_TIMEOUT \<noteq> 0 \<longleftrightarrow> e \<in> set D"
  shows "\<exists>k'. wake_up w e k = Some k' \<and> kinv k' (walk_insert (\<lambda>x. pr k x \<le> pr k e) e R) (remove1 e D) S \<and> qframe k k' \<and>
    shd k' = shd k \<and> fld event_status k' = (fld event_status k)(e := CN_STS_EVENT_READY) \<and>
    fld wakeup_from k' = (fld wakeup_from k)(e := w) \<and> (\<forall>x. x \<notin> insert e (set R) \<longrightarrow> mnx k' x = mnx k x \<and> mpv k' x = mpv k x) \<and>
    (\<forall>x. x \<notin> insert e (set R \<union> set D) \<longrightarrow> ecbs k' x = ecbs k x)"
proof -
  obtain k1 where k1: "leave_delay e k = Some k1" "kinv k1 R (remove1 e D) S" "alarm_frame (set D) k k1"
    using leave_delay_alarm [OF inv st] by blast
  note a = k1(3) [unfolded alarm_frame_def]
  define k2 where "k2 = set_fld wakeup_from_update e w (set_fld event_status_update e CN_STS_EVENT_READY k1)"
  have inv2: "kinv k2 R (remove1 e D) S" unfolding k2_def by (rule kinv_cong [OF k1(2)]) simp_all
  have eD: "e \<notin> set (remove1 e D)" using delay_repD(5) [OF kinvD(2) [OF inv]] by simp
  have sh: "shd k2 = shd k" "mnx k2 = mnx k" "mpv k2 = mpv k" using a by (simp_all add: k2_def)
  obtain k3 where k3: "DJY_EventReady e k2 = Some k3" "kinv k3 (walk_insert (\<lambda>x. pr k2 x \<le> pr k2 e) e R) (remove1 e D) S"
      "relinked (insert e (set R)) k2 k3"
    using kinv_EventReady [OF inv2 e(1) eD] e(2) sh by auto
  note r = relinked_data [OF k3(3)]
  have fr2: "qframe k k2" unfolding k2_def using a by (auto intro!: relink)
  have "qframe k k3" by (rule qframe_trans [OF fr2 relinked_qframe [OF k3(3)]])
  moreover have "wake_up w e k = Some k3" using k1(1) k3(1) by (simp add: wake_up_def k2_def Let_def)
  moreover have "fld event_status k3 = (fld event_status k)(e := CN_STS_EVENT_READY)" "fld wakeup_from k3 = (fld wakeup_from k)(e := w)"
    using a by (simp_all add: r k2_def)
  moreover have "shd k3 = shd k" by (simp add: r sh)
  moreover have "mnx k3 x = mnx k x \<and> mpv k3 x = mpv k x" if "x \<notin> insert e (set R)" for x
    by (simp add: relinked_outside [OF k3(3) that] sh)
  moreover have "ecbs k3 x = ecbs k x" if "x \<notin> insert e (set R \<union> set D)" for x
    using that a k3(3) by (simp add: relinked_def k2_def ecbs_upd_ecb)
  ultimately show ?thesis using k3(2) qframe_data(1) [OF fr2] by auto
qed

text \<open>The state between two rounds of the loop: the events \<open>Q\<close> still have to be woken; seen without them
  the queues are consistent.\<close>

definition draining :: "qhead \<Rightarrow> nat list \<Rightarrow> 'a kernel_scheme \<Rightarrow> nat list \<Rightarrow> nat list \<Rightarrow> (qhead \<Rightarrow> nat list) \<Rightarrow> bool" where
  "draining h Q k R D S \<longleftrightarrow> kinv (unhook (set Q) h k) R D S \<and> distinct Q \<and> set Q \<inter> set R = {} \<and>
     (\<forall>e\<in>set Q. fld event_status k e AND CN_STS_SYNC_TIMEOUT \<noteq> 0 \<longleftrightarrow> e \<in> set D)"

lemma draining_wake:
  fixes w :: u32
  assumes d: "draining h Q k R D S" and e: "e \<notin> set Q" "e \<notin> set R" "shd k e = None"
    and st: "fld event_status k e AND CN_STS_SYNC_TIMEOUT \<noteq> 0 \<longleftrightarrow> e \<in> set D"
  shows "\<exists>k'. wake_up w e k = Some k' \<and> draining h Q k' (walk_insert (\<lambda>x. pr k x \<le> pr k e) e R) (remove1 e D) S \<and>
    qframe k k' \<and> (\<forall>x\<in>- set Q. shd k' x = shd k x) \<and> fld event_status k' = (fld event_status k)(e := CN_STS_EVENT_READY) \<and>
    fld wakeup_from k' = (fld wakeup_from k)(e := w) \<and> (\<forall>x\<in>set Q. mnx k' x = mnx k x) \<and>
    (\<forall>x. x \<notin> insert e (set Q \<union> set R \<union> set D) \<longrightarrow> ecbs k' x = ecbs k x)"
proof -
  let ?K = "unhook (set Q) h"
  have inv: "kinv (?K k) R D S" using d by (simp add: draining_def)
  obtain K' where K': "wake_up w e (?K k) = Some K'" "kinv K' (walk_insert (\<lambda>x. pr k x \<le> pr k e) e R) (remove1 e D) S"
      "qframe (?K k) K'" "shd K' = shd (?K k)" "fld event_status K' = (fld event_status k)(e := CN_STS_EVENT_READY)"
      "fld wakeup_from K' = (fld wakeup_from k)(e := w)" "\<forall>x. x \<notin> insert e (set R) \<longrightarrow> mnx K' x = mnx k x"
      "\<forall>x. x \<notin> insert e (set R \<union> set D) \<longrightarrow> ecbs K' x = ecbs (?K k) x"
    using wake_up_rep [OF inv e(2), of w] e(1,3) st by (auto simp del: CN_STS_EVENT_READY_def)
  then obtain k' where k': "wake_up w e k = Some k'" "K' = ?K k'" by (auto simp: unhook_wake_up)
  have "ecbs k' x = ecbs k x" if "x \<notin> insert e (set Q \<union> set R \<union> set D)" for x
    using that K'(8) k'(2) unhook_outside [of x "set Q" h k] unhook_outside [of x "set Q" h k'] by auto
  moreover
  have "shd k' x = shd k x" if "x \<notin> set Q" for x using fun_cong [OF K'(4), of x] that k'(2) by simp
  moreover have "x \<notin> insert e (set R)" if "x \<in> set Q" for x using that d e by (auto simp: draining_def)
  moreover have "draining h Q k' (walk_insert (\<lambda>x. pr k x \<le> pr k e) e R) (remove1 e D) S"
  proof -
    have "distinct D" using delay_repD(5) [OF kinvD(2) [OF inv]] .
    moreover have ev: "fld event_status k' = (fld event_status k)(e := CN_STS_EVENT_READY)" using K'(5) k'(2) by simp
    ultimately show ?thesis using d K'(2) e(1) unfolding k'(2) draining_def ev by auto
  qed
  ultimately show ?thesis using k' K' by auto
qed

lemma drain_enq [simp]: "enq_all f (e # Q) R = enq_all f Q (walk_insert (\<lambda>x. f x \<le> f e) e R)" "enq_all f [] R = R"
  by (simp_all add: enq_all_def)

lemma leave_delay_mnx: "leave_delay e k = Some k' \<Longrightarrow> mnx k' = mnx k"
  by (auto simp: leave_delay_def DJY_ResumeDelay_def unlink_def set_ecb_defs Let_def bind_eq_Some_conv split: if_splits)

text \<open>The invariant looks at queued events only.\<close>

lemma kinv_local:
  assumes inv: "kinv k R D S" and hd: "ptEventReady k' = ptEventReady k" "ptEventDelay k' = ptEventDelay k" "cells k' = cells k"
    and eq: "\<And>x. x \<in> set R \<union> set D \<or> (\<exists>h. x \<in> set (S h)) \<Longrightarrow> nx k' x = nx k x \<and> pv k' x = pv k x \<and> mnx k' x = mnx k x \<and>
        mpv k' x = mpv k x \<and> pr k' x = pr k x \<and> det k' x = det k x \<and> shd k' x = shd k x"
  shows "kinv k' R D S"
proof -
  note I = kinvD [OF inv]
  have "ready_rep k' R" by (rule ready_rep_cong [OF I(1) hd(1)]) (simp add: eq)
  moreover have "delay_rep k' D" by (rule delay_rep_cong [OF I(2) hd(2)]) (simp add: eq)
  moreover have "sync_rep k' h (S h)" for h
    by (rule sync_rep_cong [OF I(3)]) (use eq in \<open>auto simp: hd(3)\<close>)
  moreover have "\<forall>e h. e \<in> set R \<union> set D \<longrightarrow> shd k' e = Some h \<longrightarrow> e \<in> set (S h)"
    using eq I(6) by metis
  ultimately show ?thesis using I(4,5) by (simp add: kinv_def)
qed

lemma kinv_unhook:
  assumes inv: "kinv k R D S" and hd: "ptEventReady k' = ptEventReady k" "ptEventDelay k' = ptEventDelay k"
      "\<And>h'. h' \<noteq> h \<Longrightarrow> cells k' h' = cells k h'"
    and eq: "nx k' = nx k" "pv k' = pv k" "pr k' = pr k" "det k' = det k" "shd k' = shd k"
      "\<And>x. x \<notin> set (S h) \<Longrightarrow> mnx k' x = mnx k x \<and> mpv k' x = mpv k x"
  shows "kinv (unhook (set (S h)) h k') R D (S(h := []))"
proof -
  note I = kinvD [OF inv]
  let ?K = "unhook (set (S h)) h k'"
  have R: "x \<notin> set (S h)" if "x \<in> set R" for x using that I(5) [of h] by auto
  have "ready_rep ?K R" by (rule ready_rep_cong [OF I(1)]) (simp_all add: hd eq R)
  moreover have "delay_rep ?K D" by (rule delay_rep_cong [OF I(2)]) (simp_all add: hd eq)
  moreover have "sync_rep ?K h' ((S(h := [])) h')" for h'
  proof (cases "h' = h")
    case False
    have "x \<notin> set (S h)" if "x \<in> set (S h')" for x using that I(8) [OF False] by auto
    then have "sync_rep ?K h' (S h')" by (intro sync_rep_cong [OF I(3)]) (simp_all add: hd eq False)
    then show ?thesis using False by simp
  qed (simp add: sync_rep_def)
  moreover have "e \<in> set ((S(h := [])) h')" if "e \<in> set R \<union> set D" "shd ?K e = Some h'" for e h'
    using that I(6) [of e h'] by (auto simp: eq split: if_splits)
  ultimately show ?thesis using I(4,5) by (simp add: kinv_def)
qed

lemma set_fold_remove1: "distinct D \<Longrightarrow> set (fold remove1 Q D) = set D - set Q"
  by (induction Q arbitrary: D) (auto simp: distinct_remove1)

lemma unhook_none: "unhook {} h k = set_cell h None k"
  by (simp add: unhook_def set_cell_def override_on_def)

lemma leave_delay_shd: "leave_delay e k = Some k' \<Longrightarrow> shd k' = shd k"
  by (auto simp: leave_delay_def DJY_ResumeDelay_def unlink_def set_ecb_defs Let_def bind_eq_Some_conv split: if_splits)

lemma EventReady_shd:
  assumes "DJY_EventReady e k = Some k'"
  shows "shd k' = shd k \<and> cells k' = cells k"
proof -
  have "pred_option (\<lambda>k'. shd k' = shd k \<and> cells k' = cells k) (DJY_EventReady e k)"
    unfolding DJY_EventReady_def Let_def by (simp add: set_ecb_defs if_bind split: bind_split)
  then show ?thesis using assms by simp
qed

lemma leave_delay_cells: "leave_delay e k = Some k' \<Longrightarrow> cells k' = cells k"
  by (auto simp: leave_delay_def DJY_ResumeDelay_def unlink_def set_ecb_defs Let_def bind_eq_Some_conv split: if_splits)

lemma wake_up_shd:
  assumes "wake_up w e k = Some k'"
  shows "shd k' = shd k" "cells k' = cells k"
proof -
  obtain k1 where k1: "leave_delay e k = Some k1"
      "DJY_EventReady e (set_fld wakeup_from_update e w (set_fld event_status_update e CN_STS_EVENT_READY k1)) = Some k'"
    using assms by (auto simp: wake_up_def Let_def bind_eq_Some_conv)
  from EventReady_shd [OF k1(2)] leave_delay_shd [OF k1(1)] leave_delay_cells [OF k1(1)]
  show "shd k' = shd k" "cells k' = cells k" by simp_all
qed

lemma masked_wake:
  fixes w :: u32
  assumes inv: "kinv (unhook X h k) R D S" and e: "e \<in> X" "e \<notin> set R"
    and st: "fld event_status k e AND CN_STS_SYNC_TIMEOUT \<noteq> 0 \<longleftrightarrow> e \<in> set D"
  shows "\<exists>k'. wake_up w e k = Some k' \<and> kinv (unhook X h k') (walk_insert (\<lambda>x. pr k x \<le> pr k e) e R) (remove1 e D) S \<and>
    qframe k k' \<and> shd k' = shd k \<and> cells k' = cells k \<and> fld event_status k' = (fld event_status k)(e := CN_STS_EVENT_READY) \<and>
    fld wakeup_from k' = (fld wakeup_from k)(e := w) \<and> (\<forall>x. x \<notin> insert e (set R) \<longrightarrow> mnx k' x = mnx k x)"
proof -
  obtain K' where K': "wake_up w e (unhook X h k) = Some K'" "kinv K' (walk_insert (\<lambda>x. pr k x \<le> pr k e) e R) (remove1 e D) S"
      "qframe (unhook X h k) K'" "fld event_status K' = (fld event_status k)(e := CN_STS_EVENT_READY)"
      "fld wakeup_from K' = (fld wakeup_from k)(e := w)" "\<forall>x. x \<notin> insert e (set R) \<longrightarrow> mnx K' x = mnx k x"
    using wake_up_rep [OF inv e(2), of w] e(1) st by (auto simp del: CN_STS_EVENT_READY_def)
  then obtain k' where k': "wake_up w e k = Some k'" "K' = unhook X h k'" by (auto simp: unhook_wake_up)
  then show ?thesis using K' wake_up_shd [OF k'(1)] by auto
qed

text \<open>The rest \<open>Q\<close> of a ring with the head \<open>q\<close>.\<close>

fun ring_from :: "('a \<Rightarrow> 'a option) \<Rightarrow> 'a \<Rightarrow> 'a list \<Rightarrow> bool" where
  "ring_from n q [] \<longleftrightarrow> False"
| "ring_from n q [a] \<longleftrightarrow> n a = Some q"
| "ring_from n q (a # b # Q) \<longleftrightarrow> n a = Some b \<and> b \<noteq> q \<and> ring_from n q (b # Q)"

lemma ring_from_cong: "(\<And>x. x \<in> set Q \<Longrightarrow> n' x = n x) \<Longrightarrow> ring_from n' q Q \<longleftrightarrow> ring_from n q Q"
  by (induction n q Q rule: ring_from.induct) auto

lemma cdll_ring_from:
  assumes "cdll n p Q"
  shows "ring_from n (hd Q) Q"
proof -
  have "ring_from n q xs" if "dpath n p (xs @ [q])" "xs \<noteq> []" "q \<notin> set (tl xs)" for q xs
    using that by (induction n p xs rule: dpath.induct) auto
  moreover have "hd Q \<notin> set (tl Q)" using assms by (cases Q) (auto simp: cdll_def)
  ultimately show ?thesis using assms by (simp add: cdll_def)
qed

end
