(* ===== verification/Djy_Evtt.thy ===== *)
theory Djy_Evtt
  imports Djy_Wake
begin

text \<open>
  Event types and the start of the system (\<open>src/djyos/core/djyos.c\<close>): registration by name, the
  search by name, scheduling hooks, removal of a type, \<open>__DJY_InitSys\<close> and \<open>__DJY_StartOs\<close>, and the
  small functions that read or write members of the running event.

  A name is the list of its characters up to the terminating zero.  The initial context that
  \<open>__asm_reset_thread\<close> writes on a new stack is not modelled.  \<open>free\<close> is an argument: the action of the
  heap's \<open>free\<close> on the kernel (it may make waiting events ready).
\<close>

definition CN_EVTT_ID_INVALID :: u16 where [simp]: "CN_EVTT_ID_INVALID = 0xFFFF"
definition CN_EVTT_ID_ASYN :: u16 where "CN_EVTT_ID_ASYN = 0xFFFE"
definition CN_EVENT_ID_ASYN :: u16 where "CN_EVENT_ID_ASYN = 0xFFFE"
definition CN_EVTT_ID_BASE :: nat where "CN_EVTT_ID_BASE = 16384"
definition CN_EVTTNAME_LIMIT :: nat where "CN_EVTTNAME_LIMIT = 32"
definition DJY_NullFunc :: nat where "DJY_NullFunc = 0"

section \<open>Registration\<close>

definition align_down_sys :: "u32 \<Rightarrow> u32" where
  "align_down_sys x = x AND (NOT 7)"

definition DJY_CreateStaticThread :: "nat option \<Rightarrow> u32 \<Rightarrow> 'a kernel_scheme \<Rightarrow> 'a kernel_scheme \<times> nat option" where
  "DJY_CreateStaticThread Stack StackSize k =
     (case Stack of None \<Rightarrow> (k, None)
      | Some s \<Rightarrow>
          let result = align_up_sys (word_of_nat s);
              top = align_down_sys (word_of_nat s + StackSize)
          in (upd_vm (unat result) (\<lambda>_. \<lparr>stack_top = top, stack_used = top, vm_next = None,
                 vm_stack_size = top - result - sizeof_ThreadVm, host_vm = None\<rparr>) k,
              Some (unat result)))"

definition evtt_slot :: "'a kernel_scheme \<Rightarrow> nat option" where
  "evtt_slot k = find (\<lambda>i. \<not> registered (evtts k i)) [0..<cfg_evtt_limit k]"

text \<open>\<open>strncmp(g_tEvttTable[i].evtt_name, evtt_name, CN_EVTTNAME_LIMIT - 1) == 0\<close> for a registered type.\<close>

definition evtt_homonym :: "string \<Rightarrow> 'a kernel_scheme \<Rightarrow> bool" where
  "evtt_homonym name k = list_ex (\<lambda>i. registered (evtts k i) \<and>
     take (CN_EVTTNAME_LIMIT - 1) (evtt_name (evtts k i)) = take (CN_EVTTNAME_LIMIT - 1) name) [0..<cfg_evtt_limit k]"

definition stored_name :: "string option \<Rightarrow> string" where
  "stored_name name = (case name of None \<Rightarrow> []
     | Some s \<Rightarrow> if length s \<le> CN_EVTTNAME_LIMIT - 1 then s else take (CN_EVTTNAME_LIMIT - 1) s)"

definition evtt_fill ::
    "nat \<Rightarrow> bool \<Rightarrow> u32 \<Rightarrow> u16 \<Rightarrow> u16 \<Rightarrow> nat \<Rightarrow> nat option \<Rightarrow> u32 \<Rightarrow> string option \<Rightarrow>
     'a kernel_scheme \<Rightarrow> 'a kernel_scheme" where
  "evtt_fill i relation prio0 vpus_r vpus_l routine Stack StackSize name k =
     (let k = upd_evtt i (\<lambda>t. t\<lparr>evtt_name := stored_name name\<rparr>) k;
          k = upd_evtt i (\<lambda>t. t\<lparr>default_prio := ucast prio0, correlativeID := CN_EVENT_ID_INVALID_ID,
                events := 0, vpus_limit := vpus_l, vpus_res := (if \<not> relation then vpus_r else 0),
                SchHook := DJY_NullFunc, thread_routine := routine, stack_size := StackSize\<rparr>) k;
          k = set_cell (EvttDone i) None k;
          k = set_cell (EvttPop i) None k;
          k = (case Stack of
                 None \<Rightarrow> upd_evtt i (\<lambda>t. t\<lparr>vpus := 0, my_free_vm := None\<rparr>) k
               | Some s \<Rightarrow>
                   (let r = DJY_CreateStaticThread Stack StackSize (upd_evtt i (\<lambda>t. t\<lparr>vpus := 1\<rparr>) k)
                    in upd_evtt i (\<lambda>t. t\<lparr>my_free_vm := snd r\<rparr>) (fst r)))
      in upd_evtt i (\<lambda>t. t\<lparr>correlative := relation, registered := True, inuse := False,
           deleting := False, pop_times := 0\<rparr>) k)"

definition DJY_EvttRegist ::
    "'a kernel_scheme stack_env \<Rightarrow> bool \<Rightarrow> u32 \<Rightarrow> u16 \<Rightarrow> u16 \<Rightarrow> nat option \<Rightarrow> nat option \<Rightarrow> u32 \<Rightarrow> string option \<Rightarrow>
     'a kernel_scheme \<Rightarrow> ('a kernel_scheme \<times> u16) option" where
  "DJY_EvttRegist E relation prio0 vpus_r vpus_l routine Stack StackSize name k =
     (if prio0 \<ge> 250 \<or> prio0 = 0 \<or> routine = None
      then Some (DJY_SaveLastError EN_KNL_INVALID_PRIO k, CN_EVTT_ID_INVALID)
      else do {
        rt \<leftarrow> routine;
        let k = Int_SaveAsynSignal k;
        case evtt_slot k of
          None \<Rightarrow> do {
            k \<leftarrow> Int_RestoreAsynSignal E (DJY_SaveLastError EN_KNL_ETCB_EXHAUSTED k);
            Some (k, CN_EVTT_ID_INVALID) }
        | Some evtt_offset \<Rightarrow>
            if (case name of None \<Rightarrow> False | Some s \<Rightarrow> evtt_homonym s k) then do {
              k \<leftarrow> Int_RestoreAsynSignal E (DJY_SaveLastError EN_KNL_EVTT_HOMONYMY k);
              Some (k, CN_EVTT_ID_INVALID) }
            else do {
              k \<leftarrow> Int_RestoreAsynSignal E
                     (evtt_fill evtt_offset relation prio0 vpus_r vpus_l rt Stack StackSize name k);
              Some (k, word_of_nat evtt_offset OR CN_EVTT_ID_MASK) } })"

text \<open>\<open>EvttID - CN_EVTT_ID_BASE\<close> is computed in \<open>int\<close>: a number below the base passes the test, and the
  store then misses the table, which is the outcome \<^const>\<open>None\<close>.\<close>

definition DJY_RegisterHook :: "u16 \<Rightarrow> nat \<Rightarrow> 'a kernel_scheme \<Rightarrow> ('a kernel_scheme \<times> bool) option" where
  "DJY_RegisterHook EvttID HookFunc k = (let i = int (unat EvttID) - int CN_EVTT_ID_BASE in
     if i \<ge> int (cfg_evtt_limit k) then Some (k, False)
     else if i < 0 then None
     else Some (upd_evtt (nat i) (\<lambda>t. t\<lparr>SchHook := HookFunc\<rparr>) k, True))"

definition DJY_GetEvttId :: "string option \<Rightarrow> 'a kernel_scheme \<Rightarrow> u16" where
  "DJY_GetEvttId name k =
     (case name of None \<Rightarrow> CN_EVTT_ID_INVALID
      | Some s \<Rightarrow>
          (case find (\<lambda>i. evtt_name (evtts k i) = s \<and> registered (evtts k i)) [0..<cfg_evtt_limit k] of
             Some i \<Rightarrow> word_of_nat i OR CN_EVTT_ID_MASK
           | None \<Rightarrow> CN_EVTT_ID_INVALID))"

text \<open>\<open>strncpy(dest, name, len)\<close>: the name without its terminator if it does not fit.\<close>

definition DJY_GetEvttName :: "u16 \<Rightarrow> nat \<Rightarrow> 'a kernel_scheme \<Rightarrow> string option" where
  "DJY_GetEvttName tid len k =
     (if len = 0 then None
      else if evtt_index tid \<ge> cfg_evtt_limit k then None
      else Some (take len (evtt_name (evtts k (evtt_index tid)))))"

section \<open>Removal of a type\<close>

text \<open>The two loops over the waiting events; \<open>sync_head\<close> keeps its value.\<close>

partial_function (option) unreg_drain :: "qhead \<Rightarrow> nat \<Rightarrow> 'a kernel_scheme \<Rightarrow> 'a kernel_scheme option" where
  "unreg_drain h pl_ecb k = do {
     k \<leftarrow> leave_delay pl_ecb k;
     let k = set_fld wakeup_from_update pl_ecb CN_STS_EVTTSYNC_DELETED k;
     let k = set_fld event_status_update pl_ecb CN_STS_EVENT_READY k;
     if mnx k pl_ecb = cells k h then DJY_EventReady pl_ecb (set_cell h None k)
     else (case mnx k pl_ecb of
        None \<Rightarrow> DJY_EventReady pl_ecb k
      | Some n \<Rightarrow> do {
          k \<leftarrow> DJY_EventReady pl_ecb k;
          unreg_drain h n k }) }"

definition unreg_sync :: "qhead \<Rightarrow> 'a kernel_scheme \<Rightarrow> 'a kernel_scheme option" where
  "unreg_sync h k = (case cells k h of None \<Rightarrow> Some k | Some e \<Rightarrow> unreg_drain h e k)"

partial_function (option) free_vms :: "(nat \<Rightarrow> 'a kernel_scheme \<Rightarrow> 'a kernel_scheme option) \<Rightarrow> nat option \<Rightarrow>
    'a kernel_scheme \<Rightarrow> 'a kernel_scheme option" where
  "free_vms free next_vm k = (case next_vm of None \<Rightarrow> Some k
     | Some temp \<Rightarrow> do {
         let next_vm = vm_next (vms k temp);
         k \<leftarrow> free temp k;
         free_vms free next_vm k })"

definition DJY_EvttUnregist ::
    "'a kernel_scheme stack_env \<Rightarrow> (nat \<Rightarrow> 'a kernel_scheme \<Rightarrow> 'a kernel_scheme option) \<Rightarrow> u16 \<Rightarrow>
     'a kernel_scheme \<Rightarrow> ('a kernel_scheme \<times> bool) option" where
  "DJY_EvttUnregist E free tid k =
     (let i = evtt_index tid in
      if i \<ge> cfg_evtt_limit k then Some (k, False)
      else do {
        let k = Int_SaveAsynSignal k;
        if \<not> registered (evtts k i) then do {
          k \<leftarrow> Int_RestoreAsynSignal E k;
          Some (k, False) }
        else do {
          k \<leftarrow> unreg_sync (EvttDone i) k;
          k \<leftarrow> unreg_sync (EvttPop i) k;
          k \<leftarrow> (if inuse (evtts k i) then Some (upd_evtt i (\<lambda>t. t\<lparr>deleting := True\<rparr>) k)
               else free_vms free (my_free_vm (evtts k i))
                      (upd_evtt i (\<lambda>t. t\<lparr>registered := False, evtt_name := []\<rparr>) k));
          k \<leftarrow> Int_RestoreAsynSignal E k;
          Some (k, True) } })"

section \<open>Start of the system\<close>

text \<open>\<open>cn_sys_event\<close> with the members that \<open>__DJY_InitSys\<close> sets.\<close>

definition cn_sys_event :: EventECB where
  "cn_sys_event = \<lparr>ecb_next = None, ecb_previous = None, multi_next = None, multi_previous = None,
     vm = None, param1 = 0, param2 = 0, userdata = 0, sync_head = None, EventStartTime = 0,
     consumed_time = 0, consumed_time_second = 0, consumed_time_record = 0,
     delay_start_tick = 0, delay_end_tick = 0, error_no = EN_NO_ERROR, event_result = 0,
     wait_mem_size = 0, HeapSize = 0, HeapSizeMax = 0, wakeup_from = CN_STS_EVENT_NORUN,
     event_status = CN_STS_EVENT_READY, prio_base = CN_PRIO_SYS_SERVICE, prio = CN_PRIO_SYS_SERVICE,
     evtt_id = 16384, sync_counter = 0, event_id = 0, local_memory = 0\<rparr>"

text \<open>One round of the loop that links block \<open>i\<close> into the list of free blocks.\<close>

definition init_ecb :: "nat \<Rightarrow> 'a kernel_scheme \<Rightarrow> 'a kernel_scheme" where
  "init_ecb i k =
     (let k = set_next i (if i = cfg_event_limit k - 1 then None else Some (i + 1)) k;
          k = set_previous i (Some ev_free_addr) k;
          k = set_fld event_id_update i (word_of_nat i) k
      in set_fld evtt_id_update i CN_EVENT_ID_INVALID_ID k)"

text \<open>\<open>IdleStack\<close> is what \<open>M_Malloc\<close> returned, \<open>service\<close> the address of \<open>__DJY_Service\<close>, and
  \<open>idle_size\<close> the constant \<open>CFG_IDLESTACK_LIMIT\<close>.\<close>

definition init_tables :: "'a kernel_scheme \<Rightarrow> 'a kernel_scheme" where
  "init_tables k =
     (let k = k\<lparr>ptEventDelay := None\<rparr>;
          k = fold (\<lambda>i. upd_evtt i (\<lambda>t. t\<lparr>registered := False\<rparr>)) [1..<cfg_evtt_limit k] k
      in fold init_ecb [1..<cfg_event_limit k] k)"

definition init_service :: "nat option \<Rightarrow> u32 \<Rightarrow> nat \<Rightarrow> 'a kernel_scheme \<Rightarrow> 'a kernel_scheme" where
  "init_service IdleStack idle_size service k =
     (let k = k\<lparr>ptEventFree := Some 1, ptEventReady := 0, ptEventRunning := 0\<rparr>;
          k = upd_evtt 0 (\<lambda>t. t\<lparr>correlative := True, registered := True, inuse := True, deleting := False,
                my_free_vm := None, SchHook := DJY_NullFunc, evtt_name := ''sys_idle'',
                default_prio := ucast CN_PRIO_SYS_SERVICE, correlativeID := CN_EVENT_ID_INVALID_ID, events := 1,
                vpus_res := 0, vpus_limit := 1, vpus := 1, thread_routine := service, stack_size := idle_size\<rparr>) k;
          k = set_cell (EvttDone 0) None k;
          k = set_cell (EvttPop 0) None k;
          r = DJY_CreateStaticThread IdleStack idle_size k
      in case snd r of
           None \<Rightarrow> upd_evtt 0 (\<lambda>t. t\<lparr>vpus := 0\<rparr>) (fst r)
         | Some v \<Rightarrow>
             (let k = set_cell (EcbSync 0) None (fst r)
              in upd_ecb 0 (\<lambda>_. cn_sys_event\<lparr>vm := Some v, ecb_next := Some 0, ecb_previous := Some 0,
                   multi_next := Some 0, multi_previous := Some 0\<rparr>) k))"

definition DJY_InitSys :: "nat option \<Rightarrow> u32 \<Rightarrow> nat \<Rightarrow> 'a kernel_scheme \<Rightarrow> 'a kernel_scheme" where
  "DJY_InitSys IdleStack idle_size service k = init_service IdleStack idle_size service (init_tables k)"

definition DJY_StartOs :: "'a kernel_scheme stack_env \<Rightarrow> 'a kernel_scheme \<Rightarrow> 'a kernel_scheme option" where
  "DJY_StartOs E k = do {
     k \<leftarrow> DJY_SelectEventToRun E (Int_ResetAsynSignal k);
     let k = k\<lparr>ptEventRunning := ptEventReady k\<rparr>;
     let k = k\<lparr>ScheduleEnable := True, MultiEventStarted := True\<rparr>;
     let k = Int_HalfEnableAsynSignal k;
     Some (k\<lparr>kout := kout k @ [TurnToContext (fld vm k (ptEventRunning k))]\<rparr>) }"

section \<open>Members of the running event\<close>

definition DJY_GetEvttPopTimes :: "u16 \<Rightarrow> 'a kernel_scheme \<Rightarrow> u32" where
  "DJY_GetEvttPopTimes tid k = pop_times (evtts k (evtt_index tid))"

definition DJY_GetEventResult :: "'a kernel_scheme \<Rightarrow> u32" where
  "DJY_GetEventResult k = fld event_result k (ptEventRunning k)"

definition DJY_GetEventPara :: "'a kernel_scheme \<Rightarrow> u32 \<times> u32" where
  "DJY_GetEventPara k = (fld param1 k (ptEventRunning k), fld param2 k (ptEventRunning k))"

definition SetEventPara :: "u32 option \<Rightarrow> u32 option \<Rightarrow> 'a kernel_scheme \<Rightarrow> 'a kernel_scheme" where
  "SetEventPara Param1 Param2 k =
     (let k = (case Param1 of None \<Rightarrow> k | Some p \<Rightarrow> set_fld param1_update (ptEventRunning k) p k)
      in case Param2 of None \<Rightarrow> k | Some p \<Rightarrow> set_fld param2_update (ptEventRunning k) p k)"

definition DJY_GetEventUserdata :: "'a kernel_scheme \<Rightarrow> u32" where
  "DJY_GetEventUserdata k = fld userdata k (ptEventRunning k)"

definition DJY_SetEventUserdata :: "u32 \<Rightarrow> 'a kernel_scheme \<Rightarrow> 'a kernel_scheme" where
  "DJY_SetEventUserdata v k = set_fld userdata_update (ptEventRunning k) v k"

definition DJY_GetMyEvttId :: "'a kernel_scheme \<Rightarrow> u16" where
  "DJY_GetMyEvttId k = (if Int_GetRunLevel k > 0 then CN_EVTT_ID_ASYN else fld evtt_id k (ptEventRunning k))"

definition DJY_GetMyEventId :: "'a kernel_scheme \<Rightarrow> u16" where
  "DJY_GetMyEventId k = (if Int_GetRunLevel k > 0 then CN_EVENT_ID_ASYN else fld event_id k (ptEventRunning k))"

definition DJY_WakeUpFrom :: "'a kernel_scheme \<Rightarrow> u32" where
  "DJY_WakeUpFrom k = fld wakeup_from k (ptEventRunning k)"

section \<open>Waiting events of a type that is removed\<close>

lemma unreg_drain_step:
  assumes "wake_up CN_STS_EVTTSYNC_DELETED a k = Some k1"
  shows "unreg_drain h a k =
    (if mnx k a = cells k h then Some (set_cell h None k1)
     else case mnx k a of None \<Rightarrow> Some k1 | Some n \<Rightarrow> unreg_drain h n k1)"
proof -
  obtain kd where kd: "leave_delay a k = Some kd" using assms by (auto simp: wake_up_def bind_eq_Some_conv)
  note m = leave_delay_mnx [OF kd] leave_delay_cells [OF kd]
  define k0 where "k0 = set_fld event_status_update a CN_STS_EVENT_READY (set_fld wakeup_from_update a CN_STS_EVTTSYNC_DELETED kd)"
  have er: "DJY_EventReady a k0 = Some k1"
  proof -
    have "k0 = set_fld wakeup_from_update a CN_STS_EVTTSYNC_DELETED (set_fld event_status_update a CN_STS_EVENT_READY kd)"
      by (cases "ecbs kd a") (simp add: k0_def upd_ecb_def)
    then show ?thesis using assms kd by (simp add: wake_up_def Let_def)
  qed
  then have "DJY_EventReady a (set_cell h None k0) = Some (set_cell h None k1)"
    using unhook_EventReady [of a "{}" h k0] by (simp add: unhook_none)
  moreover have "mnx k0 = mnx k" "cells k0 = cells k" using m by (simp_all add: k0_def)
  moreover have "unreg_drain h a k = (if mnx k0 a = cells k0 h then DJY_EventReady a (set_cell h None k0)
      else case mnx k0 a of None \<Rightarrow> DJY_EventReady a k0 | Some n \<Rightarrow> DJY_EventReady a k0 \<bind> unreg_drain h n)"
    unfolding k0_def by (subst unreg_drain.simps) (simp add: kd Let_def split: option.split)
  ultimately show ?thesis using er by (simp split: option.split)
qed

lemma unreg_drain_rep:
  assumes "kinv (unhook X h k) R D S" "set Q \<subseteq> X" "distinct Q" "set Q \<inter> set R = {}" "ring_from (mnx k) q Q" "cells k h = Some q"
    "\<forall>e\<in>set Q. fld event_status k e AND CN_STS_SYNC_TIMEOUT \<noteq> 0 \<longleftrightarrow> e \<in> set D"
  shows "\<exists>k'. unreg_drain h (hd Q) k = Some k' \<and> kinv (unhook X h k') (enq_all (pr k) Q R) (fold remove1 Q D) S \<and>
    qframe k k' \<and> shd k' = shd k \<and> cells k' = (cells k)(h := None) \<and>
    fld event_status k' = (\<lambda>x. if x \<in> set Q then CN_STS_EVENT_READY else fld event_status k x) \<and>
    fld wakeup_from k' = (\<lambda>x. if x \<in> set Q then CN_STS_EVTTSYNC_DELETED else fld wakeup_from k x)"
  using assms
proof (induction Q arbitrary: k R D)
  case Nil
  then show ?case by simp
next
  case (Cons a Q)
  note P = Cons.prems and IH = Cons.IH
  obtain k1 where k1: "wake_up CN_STS_EVTTSYNC_DELETED a k = Some k1"
      "kinv (unhook X h k1) (walk_insert (\<lambda>x. pr k x \<le> pr k a) a R) (remove1 a D) S" "qframe k k1" "shd k1 = shd k"
      "cells k1 = cells k" "fld event_status k1 = (fld event_status k)(a := CN_STS_EVENT_READY)"
      "fld wakeup_from k1 = (fld wakeup_from k)(a := CN_STS_EVTTSYNC_DELETED)" "\<forall>x. x \<notin> insert a (set R) \<longrightarrow> mnx k1 x = mnx k x"
    using masked_wake [OF P(1), of a CN_STS_EVTTSYNC_DELETED] P(2,4,7) by (auto simp del: CN_STS_EVENT_READY_def CN_STS_EVTTSYNC_DELETED_def)
  note step = unreg_drain_step [OF k1(1), of h]
  show ?case
  proof (cases Q)
    case Nil
    then have "unreg_drain h a k = Some (set_cell h None k1)" using step P(5,6) by simp
    moreover have "unhook X h (set_cell h None k1) = unhook X h k1" by (simp add: unhook_def set_cell_def)
    moreover have "qframe k (set_cell h None k1)" using k1(3) by (intro relink)
    ultimately show ?thesis using k1 Nil by auto
  next
    case (Cons b Q')
    have "b \<noteq> q" "mnx k a = Some b" using P(5) Cons by auto
    then have u: "unreg_drain h a k = unreg_drain h (hd Q) k1" using step P(6) Cons by simp
    have dD: "distinct D" by (rule delay_repD(5) [OF kinvD(2) [OF P(1)]])
    have "\<forall>x\<in>set Q. mnx k1 x = mnx k x" using k1(8) P(3,4) by auto
    then have "ring_from (mnx k1) q Q" using ring_from_cong [of Q "mnx k1" "mnx k" q] P(5) Cons by auto
    moreover have "\<forall>e\<in>set Q. fld event_status k1 e AND CN_STS_SYNC_TIMEOUT \<noteq> 0 \<longleftrightarrow> e \<in> set (remove1 a D)"
      using P(3,7) dD by (auto simp: k1(6))
    moreover have "set Q \<inter> set (walk_insert (\<lambda>x. pr k x \<le> pr k a) a R) = {}" "cells k1 h = Some q" "distinct Q" "set Q \<subseteq> X"
      using P by (auto simp: k1(5))
    ultimately obtain k' where k': "unreg_drain h (hd Q) k1 = Some k'"
        "kinv (unhook X h k') (enq_all (pr k1) Q (walk_insert (\<lambda>x. pr k x \<le> pr k a) a R)) (fold remove1 Q (remove1 a D)) S"
        "qframe k1 k'" "shd k' = shd k1" "cells k' = (cells k1)(h := None)"
        "fld event_status k' = (\<lambda>x. if x \<in> set Q then CN_STS_EVENT_READY else fld event_status k1 x)"
        "fld wakeup_from k' = (\<lambda>x. if x \<in> set Q then CN_STS_EVTTSYNC_DELETED else fld wakeup_from k1 x)"
      using IH [OF k1(2)] by blast
    moreover have "qframe k k'" by (rule qframe_trans [OF k1(3) k'(3)])
    ultimately show ?thesis using u k1 qframe_data(1) [OF k1(3)] by (auto simp: k1(6,7))
  qed
qed

text \<open>\<open>DJY_EvttUnregist\<close> wakes the events that wait for the completion of the type, but leaves their
  \<open>sync_head\<close> pointing to the emptied queue: afterwards no assignment of the events to consistent queues
  has such an event ready, although each is in the ready queue.\<close>

theorem EvttUnregist_stale_heads:
  assumes wf: "kwf k R D S" and e: "e \<in> set (S (EvttDone i))"
  shows "\<exists>k'. unreg_sync (EvttDone i) k = Some k' \<and> ready_rep k' (enq_all (pr k) (S (EvttDone i)) R) \<and>
    cells k' (EvttDone i) = None \<and> shd k' e = Some (EvttDone i) \<and>
    \<not> (\<exists>R' D' S'. kinv k' R' D' S' \<and> e \<in> set R')"
proof -
  let ?h = "EvttDone i" and ?Q = "S (EvttDone i)"
  note inv = kwf_kinv [OF wf]
  note I = kinvD [OF inv]
  have s: "cells k ?h = Some (hd ?Q)" "cdll (mnx k) (mpv k) ?Q" "shd k e = Some ?h" using I(3) [of ?h] e by (auto simp: sync_rep_def split: if_splits)
  have "kinv (unhook (set ?Q) ?h k) R D (S(?h := []))" by (rule kinv_unhook [OF inv]) simp_all
  moreover have "distinct ?Q" "set ?Q \<inter> set R = {}" using s(2) I(5) [of ?h] by (auto simp: cdll_def)
  moreover have "\<forall>e\<in>set ?Q. fld event_status k e AND CN_STS_SYNC_TIMEOUT \<noteq> 0 \<longleftrightarrow> e \<in> set D" using wf by (simp add: kwf_def)
  ultimately obtain k' where k': "unreg_drain ?h (hd ?Q) k = Some k'"
      "kinv (unhook (set ?Q) ?h k') (enq_all (pr k) ?Q R) (fold remove1 ?Q D) (S(?h := []))" "shd k' = shd k" "cells k' = (cells k)(?h := None)"
    using unreg_drain_rep [of "set ?Q" ?h k R D "S(?h := [])" ?Q "hd ?Q"] cdll_ring_from [OF s(2)] s(1) by blast
  have "unreg_sync ?h k = Some k'" using k'(1) s(1) by (simp add: unreg_sync_def)
  moreover have "ready_rep k' (enq_all (pr k) ?Q R)"
    by (rule ready_rep_cong [OF kinvD(1) [OF k'(2)]]) simp_all
  moreover have "shd k' e = Some ?h" using k'(3) s(3) by simp
  moreover from this have "\<not> (\<exists>R' D' S'. kinv k' R' D' S' \<and> e \<in> set R')" using kinvD(9) by fastforce
  ultimately show ?thesis using k'(4) by simp
qed

section \<open>The table of event types\<close>

lemma mask_index:
  assumes "i < 16384"
  shows "evtt_index (word_of_nat i OR CN_EVTT_ID_MASK) = i"
proof -
  let ?x = "word_of_nat i :: u16"
  have x: "unat ?x = i" using assms by (simp add: unat_of_nat take_bit_nat_eq_self)
  have "?x AND mask 14 = ?x" using assms x by (intro less_mask_eq) (simp add: word_less_nat_alt)
  moreover have "mask 14 AND NOT CN_EVTT_ID_MASK = (mask 14 :: u16)" by (simp add: CN_EVTT_ID_MASK_def mask_eq_exp_minus_1)
  ultimately have "?x AND NOT CN_EVTT_ID_MASK = ?x" by (metis and.assoc)
  moreover have "(?x OR CN_EVTT_ID_MASK) AND NOT CN_EVTT_ID_MASK = ?x AND NOT CN_EVTT_ID_MASK"
    by (auto simp: bit_eq_iff bit_simps)
  ultimately show ?thesis using x by (simp add: evtt_index_def)
qed

text \<open>The table of event types: registered types have names of at most 31 characters, and no two have the same name
  unless both have none.\<close>

definition evtt_inv :: "'a kernel_scheme \<Rightarrow> bool" where
  "evtt_inv k \<longleftrightarrow> cfg_evtt_limit k \<le> 16384 \<and>
     (\<forall>i<cfg_evtt_limit k. registered (evtts k i) \<longrightarrow> length (evtt_name (evtts k i)) < CN_EVTTNAME_LIMIT \<and>
        (\<forall>j<cfg_evtt_limit k. registered (evtts k j) \<longrightarrow> evtt_name (evtts k i) = evtt_name (evtts k j) \<longrightarrow>
           evtt_name (evtts k i) = [] \<or> i = j))"

lemma evtt_slot_Some:
  assumes "evtt_slot k = Some i"
  shows "i < cfg_evtt_limit k" "\<not> registered (evtts k i)" "\<And>j. j < i \<Longrightarrow> registered (evtts k j)"
  using assms unfolding evtt_slot_def find_Some_iff by auto

lemma evtt_fill_evtts:
  assumes "k' = evtt_fill i rel p vr vl rt st sz name k"
  shows "j \<noteq> i \<Longrightarrow> evtts k' j = evtts k j" "evtt_name (evtts k' i) = stored_name name" "registered (evtts k' i)"
    "default_prio (evtts k' i) = ucast p" "correlative (evtts k' i) = rel" "\<not> inuse (evtts k' i)" "\<not> deleting (evtts k' i)"
    "events (evtts k' i) = 0" "cells k' = (cells k)(EvttDone i := None, EvttPop i := None)" "fld g k' = fld g k"
    "ptEventReady k' = ptEventReady k" "ptEventDelay k' = ptEventDelay k" "ptEventRunning k' = ptEventRunning k"
    "cfg_evtt_limit k' = cfg_evtt_limit k" "nest_asyn_signal k' = nest_asyn_signal k" "en_asyn_signal_counter k' = en_asyn_signal_counter k"
    "thread_routine (evtts k' i) = rt" "stack_size (evtts k' i) = sz"
  unfolding assms evtt_fill_def Let_def
  by (cases st; simp add: upd_evtt_def DJY_CreateStaticThread_def upd_vm_def Let_def fld_def)+

text \<open>A service that leaves the running event the most urgent one ends without a switch.\<close>

lemma Restore_same:
  assumes "ptEventRunning k2 = ptEventReady k2" "nest_asyn_signal k2 = 0" "en_asyn_signal_counter k2 = 1"
  shows "Int_RestoreAsynSignal E k2 = Some (k2\<lparr>en_asyn_signal_counter := 0, ScheduleEnable := True\<rparr>)"
  using assms by (simp add: Int_RestoreAsynSignal_def)

lemma SaveAsyn_evtts [simp]: "evtts (Int_SaveAsynSignal k) = evtts k" "cfg_evtt_limit (Int_SaveAsynSignal k) = cfg_evtt_limit k"
  by (simp_all add: Int_SaveAsynSignal_def Let_def)

lemma evtt_slot_cong: "evtts k' = evtts k \<Longrightarrow> cfg_evtt_limit k' = cfg_evtt_limit k \<Longrightarrow> evtt_slot k' = evtt_slot k"
  "evtts k' = evtts k \<Longrightarrow> cfg_evtt_limit k' = cfg_evtt_limit k \<Longrightarrow> evtt_homonym s k' = evtt_homonym s k"
  by (simp_all add: evtt_slot_def evtt_homonym_def)

lemma stored_name_take: "stored_name name = (case name of None \<Rightarrow> [] | Some s \<Rightarrow> take 31 s)"
  by (cases name) (simp_all add: stored_name_def CN_EVTTNAME_LIMIT_def)

lemma homonym_iff:
  assumes "evtt_inv k"
  shows "evtt_homonym s k \<longleftrightarrow> (\<exists>i<cfg_evtt_limit k. registered (evtts k i) \<and> evtt_name (evtts k i) = take 31 s)"
proof -
  have "take 31 (evtt_name (evtts k i)) = evtt_name (evtts k i)" if "i < cfg_evtt_limit k" "registered (evtts k i)" for i
  proof -
    have "length (evtt_name (evtts k i)) < 32" using assms that by (auto simp: evtt_inv_def CN_EVTTNAME_LIMIT_def)
    then show ?thesis by simp
  qed
  then show ?thesis unfolding evtt_homonym_def list_ex_iff CN_EVTTNAME_LIMIT_def by fastforce
qed

lemma evtt_inv_fill:
  assumes inv: "evtt_inv k" and k': "k' = evtt_fill i rel p vr vl rt st sz name k" and i: "\<not> registered (evtts k i)"
    and nh: "case name of None \<Rightarrow> True | Some s \<Rightarrow> \<not> evtt_homonym s k"
  shows "evtt_inv k'"
proof -
  note F = evtt_fill_evtts [OF k']
  have new: "evtt_name (evtts k j) = stored_name name \<Longrightarrow> stored_name name = []" if "j < cfg_evtt_limit k" "registered (evtts k j)" for j
    using nh that by (auto simp: stored_name_take homonym_iff [OF inv] split: option.splits)
  have len: "length (stored_name name) < CN_EVTTNAME_LIMIT"
    by (auto simp: stored_name_take CN_EVTTNAME_LIMIT_def min_def split: option.split)
  show ?thesis unfolding evtt_inv_def F(14)
  proof (intro conjI allI impI)
    fix j assume j: "j < cfg_evtt_limit k" "registered (evtts k' j)"
    show "length (evtt_name (evtts k' j)) < CN_EVTTNAME_LIMIT"
      using j inv len by (cases "j = i") (auto simp: F(1,2) evtt_inv_def)
    fix j' assume "j' < cfg_evtt_limit k" "registered (evtts k' j')" "evtt_name (evtts k' j) = evtt_name (evtts k' j')"
    with j inv show "evtt_name (evtts k' j) = [] \<or> j = j'"
      using new [of j] new [of j'] by (cases "j = i"; cases "j' = i") (auto simp: F(1,2) evtt_inv_def)
  qed (use inv in \<open>simp add: evtt_inv_def\<close>)
qed

lemma GetEvttId_unique:
  assumes inv: "evtt_inv k" and i: "i < cfg_evtt_limit k" "registered (evtts k i)" "evtt_name (evtts k i) = s"
    and u: "\<And>j. j < cfg_evtt_limit k \<Longrightarrow> registered (evtts k j) \<Longrightarrow> evtt_name (evtts k j) = s \<Longrightarrow> j = i"
  shows "DJY_GetEvttId (Some s) k = word_of_nat i OR CN_EVTT_ID_MASK"
proof -
  have "find (\<lambda>j. evtt_name (evtts k j) = s \<and> registered (evtts k j)) [0..<cfg_evtt_limit k] = Some i"
  proof -
    have "\<not> (evtt_name (evtts k j) = s \<and> registered (evtts k j))" if "j < i" for j using u [of j] i(1) that by force
    then show ?thesis unfolding find_Some_iff using i by (intro exI [of _ i]) simp
  qed
  then show ?thesis by (simp add: DJY_GetEvttId_def)
qed


lemma busy_evtt: "evtt_inv (busy_kernel m)" "evtt_slot (busy_kernel m) = Some 3" "\<not> evtt_homonym ''gps'' (busy_kernel m)"
proof -
  have n: "evtts (busy_kernel m) = busy_evtts" "cfg_evtt_limit (busy_kernel m) = 4" by (simp_all add: busy_kernel_def)
  have four: "[0..<4] = [0, 1, 2, 3]" "(\<forall>i<4. P i) \<longleftrightarrow> P 0 \<and> P 1 \<and> P 2 \<and> P (3::nat)" for P
    by (auto simp: upt_rec All_less_Suc numeral_eq_Suc)
  show "evtt_inv (busy_kernel m)" by (simp add: evtt_inv_def n four busy_evtts_def evtt0_def CN_EVTTNAME_LIMIT_def)
  show "evtt_slot (busy_kernel m) = Some 3" by (simp add: evtt_slot_def n four busy_evtts_def evtt0_def)
  show "\<not> evtt_homonym ''gps'' (busy_kernel m)"
    by (simp add: evtt_homonym_def n four busy_evtts_def evtt0_def CN_EVTTNAME_LIMIT_def)
qed


theorem EvttUnregist_stale_heads_witness:
  "\<exists>k'. unreg_sync (EvttDone 2) (busy_kernel ()) = Some k' \<and> shd k' 6 = Some (EvttDone 2) \<and> cells k' (EvttDone 2) = None"
  using EvttUnregist_stale_heads [OF busy_kwf, of 6 2 "()"] by (auto simp: busy_syncs_def)

section \<open>The initial state\<close>

text \<open>The list of free blocks.\<close>

definition free_rep :: "'a kernel_scheme \<Rightarrow> nat list \<Rightarrow> bool" where
  "free_rep k F \<longleftrightarrow> fpath (nx k) (ptEventFree k) F \<and> distinct F \<and> (\<forall>e\<in>set F. pv k e = Some ev_free_addr)"

lemma init_ecb_fields:
  "nx (init_ecb i k) = (nx k)(i := if i = cfg_event_limit k - 1 then None else Some (i + 1))"
  "pv (init_ecb i k) = (pv k)(i := Some ev_free_addr)"
  "fld evtt_id (init_ecb i k) = (fld evtt_id k)(i := CN_EVENT_ID_INVALID_ID)"
  "fld event_id (init_ecb i k) = (fld event_id k)(i := word_of_nat i)"
  "cfg_event_limit (init_ecb i k) = cfg_event_limit k" "cfg_evtt_limit (init_ecb i k) = cfg_evtt_limit k"
  "cells (init_ecb i k) = cells k" "evtts (init_ecb i k) = evtts k" "ptEventDelay (init_ecb i k) = ptEventDelay k"
  by (simp_all add: init_ecb_def Let_def set_ecb_defs)

lemma init_fold:
  fixes k :: "'a kernel_scheme"
  defines "K m \<equiv> fold init_ecb [1..<m] k"
  shows "nx (K m) = (\<lambda>i. if 1 \<le> i \<and> i < m then (if i = cfg_event_limit k - 1 then None else Some (i + 1)) else nx k i) \<and>
    pv (K m) = (\<lambda>i. if 1 \<le> i \<and> i < m then Some ev_free_addr else pv k i) \<and>
    fld evtt_id (K m) = (\<lambda>i. if 1 \<le> i \<and> i < m then CN_EVENT_ID_INVALID_ID else fld evtt_id k i) \<and>
    fld event_id (K m) = (\<lambda>i. if 1 \<le> i \<and> i < m then word_of_nat i else fld event_id k i) \<and>
    cfg_event_limit (K m) = cfg_event_limit k \<and> cfg_evtt_limit (K m) = cfg_evtt_limit k \<and> cells (K m) = cells k \<and> evtts (K m) = evtts k \<and>
    ptEventDelay (K m) = ptEventDelay k"
proof (induction m)
  case (Suc m)
  show ?case
  proof (cases "1 \<le> m")
    case True
    then have "K (Suc m) = init_ecb m (K m)" by (simp add: K_def)
    then show ?thesis using Suc True by (auto simp: init_ecb_fields less_Suc_eq)
  next
    case False
    then have "m = 0" by simp
    then show ?thesis by (simp add: K_def fun_eq_iff)
  qed
qed (simp add: K_def fun_eq_iff)

lemma fpath_init:
  "a < n \<Longrightarrow> (\<And>i. a \<le> i \<Longrightarrow> i < n \<Longrightarrow> f i = (if i = n - 1 then None else Some (i + 1))) \<Longrightarrow> fpath f (Some a) [a..<n]"
proof (induction "n - a" arbitrary: a)
  case (Suc d)
  show ?case
  proof (cases "a + 1 < n")
    case True
    then have "f a = Some (a + 1)" using Suc.prems by auto
    moreover have "fpath f (Some (a + 1)) [a + 1..<n]" by (rule Suc.hyps) (use Suc.prems Suc.hyps(2) True in auto)
    ultimately show ?thesis using Suc.prems(1) by (simp add: upt_conv_Cons)
  next
    case False
    then have "n = Suc a" using Suc.prems(1) by simp
    then show ?thesis using Suc.prems(2) [of a] by simp
  qed
qed simp

lemma unregister_fold:
  "evtts (fold (\<lambda>i. upd_evtt i (\<lambda>t. t\<lparr>registered := False\<rparr>)) xs k) = (\<lambda>i. if i \<in> set xs then (evtts k i)\<lparr>registered := False\<rparr> else evtts k i)"
  "fld g (fold (\<lambda>i. upd_evtt i (\<lambda>t. t\<lparr>registered := False\<rparr>)) xs k) = fld g k"
  "cells (fold (\<lambda>i. upd_evtt i (\<lambda>t. t\<lparr>registered := False\<rparr>)) xs k) = cells k"
  "cfg_event_limit (fold (\<lambda>i. upd_evtt i (\<lambda>t. t\<lparr>registered := False\<rparr>)) xs k) = cfg_event_limit k"
  "ptEventDelay (fold (\<lambda>i. upd_evtt i (\<lambda>t. t\<lparr>registered := False\<rparr>)) xs k) = ptEventDelay k"
  by (induction xs arbitrary: k) (auto simp: upd_evtt_def)

text \<open>C15. \<open>__DJY_InitSys\<close>, called with zeroed queue heads and with memory for the idle stack, establishes the invariant of the queues: the
  system service event is the only ready event, owns a thread and runs, nothing waits, all other blocks form the list of free
  blocks, and the system type is the only registered one.\<close>

theorem InitSys_establishes:
  fixes k :: "'a kernel_scheme" and sz :: u32 and st service :: nat
  assumes lim: "2 \<le> cfg_event_limit k" and zero: "cells k = (\<lambda>_. None)"
  defines "k' \<equiv> DJY_InitSys (Some st) sz service k"
  shows "kinv k' [0] [] (\<lambda>_. []) \<and> free_rep k' [1..<cfg_event_limit k] \<and> ptEventRunning k' = 0 \<and> fld vm k' 0 \<noteq> None \<and>
    (\<forall>e\<in>{1..<cfg_event_limit k}. fld evtt_id k' e = CN_EVENT_ID_INVALID_ID \<and> unat (fld event_id k' e) = e mod 2 ^ 16) \<and>
    (\<forall>i<cfg_evtt_limit k. registered (evtts k' i) \<longleftrightarrow> i = 0)"
proof -
  define k1 where "k1 = fold (\<lambda>i. upd_evtt i (\<lambda>t. t\<lparr>registered := False\<rparr>)) [1..<cfg_evtt_limit k] (k\<lparr>ptEventDelay := None\<rparr>)"
  define k2 where "k2 = fold init_ecb [1..<cfg_event_limit k] k1"
  note u = unregister_fold [where xs = "[1..<cfg_evtt_limit k]" and k = "k\<lparr>ptEventDelay := None\<rparr>", folded k1_def]
  note f = init_fold [of "cfg_event_limit k" k1, folded k2_def, unfolded u]
  have "init_tables k = k2" by (simp add: init_tables_def Let_def k1_def k2_def unregister_fold)
  then have k': "k' = init_service (Some st) sz service k2" by (simp add: k'_def DJY_InitSys_def)
  have n: "nx k' i = (if i = 0 then Some 0 else nx k2 i)" "pv k' i = (if i = 0 then Some 0 else pv k2 i)"
    "mnx k' 0 = Some 0" "mpv k' 0 = Some 0" "shd k' 0 = None" "ptEventReady k' = 0" "ptEventRunning k' = 0" "ptEventDelay k' = ptEventDelay k2"
    "ptEventFree k' = Some 1" "fld vm k' 0 \<noteq> None" "cells k' = (cells k2)(EvttDone 0 := None, EvttPop 0 := None, EcbSync 0 := None)"
    "fld evtt_id k' i = (if i = 0 then 16384 else fld evtt_id k2 i)" "fld event_id k' i = (if i = 0 then 0 else fld event_id k2 i)"
    "registered (evtts k' i) = (i = 0 \<or> registered (evtts k2 i))" for i
    unfolding k' by (auto simp: init_service_def Let_def DJY_CreateStaticThread_def fld_upd_ecb upd_vm_def upd_evtt_def cn_sys_event_def)
  have c: "cells k' = (\<lambda>_. None)" "ptEventDelay k' = None" using f zero by (auto simp: n)
  have "kinv k' [0] [] (\<lambda>_. [])"
    using n(1-6) c by (simp add: kinv_def ready_rep_def delay_rep_def sync_rep_def cdll_def)
  moreover have "free_rep k' [1..<cfg_event_limit k]"
  proof -
    have "fpath (nx k') (Some 1) [1..<cfg_event_limit k]"
      by (rule fpath_init) (use lim f in \<open>auto simp: n\<close>)
    then show ?thesis using f by (auto simp: free_rep_def n)
  qed
  moreover have "\<forall>e\<in>{1..<cfg_event_limit k}. fld evtt_id k' e = CN_EVENT_ID_INVALID_ID \<and> unat (fld event_id k' e) = e mod 2 ^ 16"
    using f by (auto simp: n unat_of_nat take_bit_eq_mod)
  moreover have "\<forall>i<cfg_evtt_limit k. registered (evtts k' i) \<longleftrightarrow> i = 0"
    using f by (auto simp: n u)
  ultimately show ?thesis using n by blast
qed

theorem InitSys_establishes_witness:
  "\<exists>k'. k' = DJY_InitSys (Some 4096) 2048 7 (sample_kernel\<lparr>cfg_event_limit := 3\<rparr>) \<and> kinv k' [0] [] (\<lambda>_. []) \<and> free_rep k' [1, 2]"
proof -
  let ?k = "sample_kernel\<lparr>cfg_event_limit := 3\<rparr>"
  have "2 \<le> cfg_event_limit ?k" "cells ?k = (\<lambda>_. None)" by (simp_all add: sample_kernel_def)
  note I = InitSys_establishes [OF this, of 4096 2048 7]
  have "[1..<cfg_event_limit ?k] = [1, 2]" by (simp add: upt_rec)
  with I show ?thesis by metis
qed

end
