(* ===== verification/Djy_Event.thy ===== *)
theory Djy_Event
  imports Djy_Evtt
begin

text \<open>
  The life of an event (\<open>src/djyos/core/djyos.c\<close>): \<open>DJY_EventPop\<close> takes a block from the list of free
  blocks and makes it ready, \<open>DJY_EventComplete\<close>, \<open>__DJY_EventFinal\<close> and \<open>__DJY_EventExit\<close> wake the events
  that wait for it and, the last two, give the block and the thread back.

  An index outside the table of event types is a wild access, the outcome \<^const>\<open>None\<close>.  \<open>cleanup\<close> is
  the action of \<open>__Heap_CleanUp\<close>, which returns the memory an event has left allocated.  Reports to the
  black box are not modelled.
\<close>

section \<open>Waking the waiting events\<close>

text \<open>The loop over the queue of one event, whose ring has been cut open at its end before.\<close>

partial_function (option) sync_drain :: "u32 \<Rightarrow> u32 \<Rightarrow> nat \<Rightarrow> 'a kernel_scheme \<Rightarrow> 'a kernel_scheme option" where
  "sync_drain result reason pl_ecb k = do {
     let k = set_fld sync_head_update pl_ecb None k;
     let k = set_fld event_result_update pl_ecb result k;
     k \<leftarrow> leave_delay pl_ecb k;
     let k = set_fld event_status_update pl_ecb CN_STS_EVENT_READY k;
     let k = set_fld wakeup_from_update pl_ecb reason k;
     let event_temp = mnx k pl_ecb;
     k \<leftarrow> DJY_EventReady pl_ecb k;
     case event_temp of None \<Rightarrow> Some k | Some n \<Rightarrow> sync_drain result reason n k }"

definition sync_wake_all :: "u32 \<Rightarrow> u32 \<Rightarrow> nat option \<Rightarrow> 'a kernel_scheme \<Rightarrow> 'a kernel_scheme option" where
  "sync_wake_all result reason sync k = (case sync of None \<Rightarrow> Some k
     | Some e \<Rightarrow> do {
         p \<leftarrow> mpv k e;
         sync_drain result reason e (set_multi_next p None k) })"

definition DJY_ActiveEventSyncExp :: "nat option \<Rightarrow> 'a kernel_scheme \<Rightarrow> 'a kernel_scheme option" where
  "DJY_ActiveEventSyncExp sync k = sync_wake_all 0 CN_STS_EVENT_EXP_EXIT sync k"

definition DJY_CutEcbFromSync :: "nat \<Rightarrow> 'a kernel_scheme \<Rightarrow> 'a kernel_scheme option" where
  "DJY_CutEcbFromSync event k = (case shd k event of None \<Rightarrow> Some k
     | Some h \<Rightarrow> do {
         k \<leftarrow> (if mnx k event = Some event then Some (set_cell h None k)
              else do {
                let k = (if cells k h = Some event then set_cell h (mnx k event) k else k);
                n \<leftarrow> mnx k event;
                let k = set_multi_previous n (mpv k event) k;
                p \<leftarrow> mpv k event;
                let k = set_multi_next p (mnx k event) k;
                let k = set_multi_next event None k;
                Some (set_multi_previous event None k) });
         Some (set_fld sync_head_update event None k) })"

definition DJY_EventComplete :: "'a kernel_scheme stack_env \<Rightarrow> u32 \<Rightarrow> 'a kernel_scheme \<Rightarrow> 'a kernel_scheme option" where
  "DJY_EventComplete E result k = do {
     let k = Int_SaveAsynSignal k;
     let run = ptEventRunning k;
     k \<leftarrow> sync_wake_all result CN_STS_WAIT_EVENT_DONE (cells k (EcbSync run)) k;
     let k = set_cell (EcbSync run) None k;
     Int_RestoreAsynSignal E k }"

text \<open>The loop over the queue of an event type: the events that meet the condition \<open>ok\<close> leave the queue and
  become ready, the counters of those in \<open>dec\<close> are decremented.\<close>

partial_function (option) sync_scan ::
    "qhead \<Rightarrow> (nat \<Rightarrow> 'a kernel_scheme \<Rightarrow> bool) \<Rightarrow> (nat \<Rightarrow> 'a kernel_scheme \<Rightarrow> bool) \<Rightarrow> u32 \<Rightarrow> nat \<Rightarrow>
     'a kernel_scheme \<Rightarrow> 'a kernel_scheme option" where
  "sync_scan h ok dec reason pl_ecb k =
     (if ok pl_ecb k then do {
        let k = set_fld sync_head_update pl_ecb None k;
        k \<leftarrow> leave_delay pl_ecb k;
        let k = set_fld wakeup_from_update pl_ecb reason k;
        let k = set_fld event_status_update pl_ecb CN_STS_EVENT_READY k;
        if mnx k pl_ecb = Some pl_ecb then DJY_EventReady pl_ecb (set_cell h None k)
        else do {
          n \<leftarrow> mnx k pl_ecb;
          p \<leftarrow> mpv k pl_ecb;
          let k = set_multi_next p (Some n) k;
          let k = set_multi_previous n (Some p) k;
          if cells k h = Some pl_ecb then do {
            k \<leftarrow> DJY_EventReady pl_ecb (set_cell h (Some n) k);
            sync_scan h ok dec reason n k }
          else if cells k h = Some n then DJY_EventReady pl_ecb k
          else do {
            k \<leftarrow> DJY_EventReady pl_ecb k;
            sync_scan h ok dec reason n k } } }
      else do {
        let k = (if dec pl_ecb k then set_fld sync_counter_update pl_ecb (fld sync_counter k pl_ecb - 1) k else k);
        case mnx k pl_ecb of
          None \<Rightarrow> Some k
        | Some n \<Rightarrow> if cells k h = Some n then Some k else sync_scan h ok dec reason n k })"

definition sync_scan_all ::
    "qhead \<Rightarrow> (nat \<Rightarrow> 'a kernel_scheme \<Rightarrow> bool) \<Rightarrow> (nat \<Rightarrow> 'a kernel_scheme \<Rightarrow> bool) \<Rightarrow> u32 \<Rightarrow>
     'a kernel_scheme \<Rightarrow> 'a kernel_scheme option" where
  "sync_scan_all h ok dec reason k = (case cells k h of None \<Rightarrow> Some k | Some e \<Rightarrow> sync_scan h ok dec reason e k)"

section \<open>Pop\<close>

text \<open>The conditions under which a pop counts for a waiting event, and wakes it.\<close>

definition pop_counts :: "u16 \<Rightarrow> nat \<Rightarrow> nat \<Rightarrow> 'a kernel_scheme \<Rightarrow> bool" where
  "pop_counts hybrid_id i x k = (correlative (evtts k i) \<or> fld event_id k x = hybrid_id \<or>
     word_of_nat i OR CN_EVTT_ID_MASK = fld evtt_id k x)"

definition pop_wakes :: "u16 \<Rightarrow> nat \<Rightarrow> nat \<Rightarrow> 'a kernel_scheme \<Rightarrow> bool" where
  "pop_wakes hybrid_id i x k = (pop_counts hybrid_id i x k \<and> fld sync_counter k x \<le> 1)"

definition new_ecb :: "nat \<Rightarrow> u32 \<Rightarrow> u32 \<Rightarrow> u8 \<Rightarrow> int \<Rightarrow> EventECB \<Rightarrow> EventECB" where
  "new_ecb i p1 p2 pri now e = e\<lparr>ecb_next := None, ecb_previous := None, multi_next := None, multi_previous := None,
     vm := None, param1 := p1, param2 := p2, sync_head := None, EventStartTime := now,
     consumed_time := 0, consumed_time_second := 0, consumed_time_record := 0,
     delay_start_tick := 0, delay_end_tick := 0, error_no := EN_NO_ERROR,
     wait_mem_size := 0, HeapSize := 0, HeapSizeMax := 0, wakeup_from := CN_STS_EVENT_NORUN,
     event_status := CN_STS_EVENT_READY, evtt_id := word_of_nat i OR CN_EVTT_ID_MASK, sync_counter := 0,
     local_memory := 0, prio := pri, prio_base := pri\<rparr>"

text \<open>Taking a block from the list of free blocks and making it ready.\<close>

definition pop_create :: "nat \<Rightarrow> nat \<Rightarrow> u32 \<Rightarrow> u32 \<Rightarrow> u32 \<Rightarrow> 'a kernel_scheme \<Rightarrow> 'a kernel_scheme option" where
  "pop_create i pl_ecb p1 p2 pri k = do {
     let k = k\<lparr>ptEventFree := nx k pl_ecb\<rparr>;
     let k = upd_evtt i (\<lambda>t. t\<lparr>events := events t + 1\<rparr>) k;
     let k = set_cell (EcbSync pl_ecb) None k;
     let np = (if pri \<noteq> 0 then ucast pri else ucast (default_prio (evtts k i)) :: u8);
     let k = upd_ecb pl_ecb (new_ecb i p1 p2 np (SysTime k)) k;
     let k = upd_evtt i (\<lambda>t. t\<lparr>inuse := True, correlativeID := fld event_id k pl_ecb\<rparr>) k;
     DJY_EventReady pl_ecb k }"

definition pop_error :: "knl_error \<Rightarrow> 'a kernel_scheme \<Rightarrow> 'a kernel_scheme \<times> (u16 \<times> sync_ret option) call" where
  "pop_error err k = (DJY_SaveLastError err k, Ret (CN_EVENT_ID_INVALID_ID, Some (SyncErr err)))"

definition pop_type :: "u16 \<Rightarrow> 'a kernel_scheme \<Rightarrow> knl_error + nat" where
  "pop_type hybrid_id k =
     (if hybrid_id \<ge> 16384 \<and> hybrid_id \<le> 32767 then
        (if evtt_index hybrid_id \<ge> cfg_evtt_limit k then Inl EN_KNL_EVTTID_LIMIT else Inr (evtt_index hybrid_id))
      else if unat hybrid_id \<ge> cfg_event_limit k then Inl EN_KNL_EVENTID_LIMIT
      else Inr (evtt_index (fld evtt_id k (unat hybrid_id))))"

text \<open>The second component of a result is what the caller finds in \<open>*pop_result\<close>; without a wait it is
  not written.\<close>

definition DJY_EventPop ::
    "'a kernel_scheme stack_env \<Rightarrow> u16 \<Rightarrow> u32 \<Rightarrow> u32 \<Rightarrow> u32 \<Rightarrow> u32 \<Rightarrow> 'a kernel_scheme \<Rightarrow>
     ('a kernel_scheme \<times> (u16 \<times> sync_ret option) call) option" where
  "DJY_EventPop E hybrid_id timeout p1 p2 pri k =
     (case pop_type hybrid_id k of
        Inl err \<Rightarrow> Some (pop_error err k)
      | Inr i \<Rightarrow>
          if timeout \<noteq> 0 \<and> \<not> DJY_QuerySch k then Some (pop_error EN_KNL_CANT_SCHED k)
          else if i \<ge> cfg_evtt_limit k then None
          else if \<not> registered (evtts k i) \<or> deleting (evtts k i) then Some (pop_error EN_KNL_EVTT_UNREGISTER k)
          else if pri \<ge> 250 then Some (pop_error EN_KNL_INVALID_PRIO k)
          else do {
            let k = Int_SaveAsynSignal k;
            k \<leftarrow> sync_scan_all (EvttPop i) (pop_wakes hybrid_id i) (pop_counts hybrid_id i) CN_STS_WAIT_EVTT_POP k;
            let create = (\<not> inuse (evtts k i) \<or> \<not> correlative (evtts k i) \<and> hybrid_id AND CN_EVTT_ID_MASK \<noteq> 0);
            if create \<and> ptEventFree k = None then do {
              let (k, r) = pop_error EN_KNL_ECB_EXHAUSTED k;
              k \<leftarrow> Int_RestoreAsynSignal E k;
              Some (k, r) }
            else do {
              (k, pl_ecb) \<leftarrow>
                (case ptEventFree k of
                   Some f \<Rightarrow> if create then map_option (\<lambda>k. (k, f)) (pop_create i f p1 p2 pri k)
                     else Some (set_fld param2_update (unat (correlativeID (evtts k i))) p2
                            (set_fld param1_update (unat (correlativeID (evtts k i))) p1 k), unat (correlativeID (evtts k i)))
                 | None \<Rightarrow> Some (set_fld param2_update (unat (correlativeID (evtts k i))) p2
                            (set_fld param1_update (unat (correlativeID (evtts k i))) p1 k), unat (correlativeID (evtts k i))));
              let return_result = fld event_id k pl_ecb;
              let k = upd_evtt i (\<lambda>t. t\<lparr>pop_times := pop_times t + 1\<rparr>) k;
              if timeout \<noteq> 0 then do {
                k \<leftarrow> DJY_AddRunningToBlock (EcbSync pl_ecb) False timeout CN_STS_WAIT_EVENT_DONE k;
                k \<leftarrow> Int_RestoreAsynSignal E k;
                Some (k, Blocked) }
              else do {
                k \<leftarrow> Int_RestoreAsynSignal E k;
                Some (k, Ret (return_result, None)) } } })"

text \<open>After the wait the asynchronous signal is restored a second time.\<close>

definition DJY_EventPop_resume ::
    "'a kernel_scheme stack_env \<Rightarrow> u16 \<Rightarrow> 'a kernel_scheme \<Rightarrow> ('a kernel_scheme \<times> u16 \<times> sync_ret) option" where
  "DJY_EventPop_resume E return_result k = do {
     let w = fld wakeup_from k (ptEventRunning k);
     let pop_result = (if w AND CN_STS_SYNC_TIMEOUT \<noteq> 0 then CN_SYNC_TIMEOUT
                       else if w AND CN_STS_EVENT_EXP_EXIT \<noteq> 0 then SyncExpExit
                       else CN_SYNC_SUCCESS);
     k \<leftarrow> Int_RestoreAsynSignal E k;
     Some (k, return_result, pop_result) }"

section \<open>Completion\<close>

lemma qframe_result:
  assumes "qframe k k1"
  shows "qframe (fold (\<lambda>x. set_fld event_result_update x r) Q k) (fold (\<lambda>x. set_fld event_result_update x r) Q k1)"
  using assms
proof (induction Q arbitrary: k k1)
  case (Cons a Q)
  have "ecb_core ((ecbs k1 a)\<lparr>event_result := r\<rparr>) = (ecb_core (ecbs k1 a))\<lparr>event_result := r\<rparr>"
    "ecb_core ((ecbs k a)\<lparr>event_result := r\<rparr>) = (ecb_core (ecbs k a))\<lparr>event_result := r\<rparr>" by (simp_all add: ecb_core_def)
  moreover have "k1\<lparr>ecbs := X, ptEventReady := ptEventReady k, ptEventDelay := ptEventDelay k, cells := cells k\<rparr> = k\<lparr>ecbs := X\<rparr>" for X
  proof -
    have "k1\<lparr>ecbs := X, ptEventReady := ptEventReady k, ptEventDelay := ptEventDelay k, cells := cells k\<rparr> =
      (k1\<lparr>ecbs := ecbs k, ptEventReady := ptEventReady k, ptEventDelay := ptEventDelay k, cells := cells k\<rparr>)\<lparr>ecbs := X\<rparr>" by simp
    then show ?thesis using Cons.prems by (simp only: qframe_def)
  qed
  ultimately have "qframe (set_fld event_result_update a r k) (set_fld event_result_update a r k1)"
    using Cons.prems by (simp add: qframe_def upd_ecb_def)
  from Cons.IH [OF this] show ?case by simp
qed simp

lemma sync_drain_rep:
  fixes reason :: u32
  assumes "draining h Q k R D S" "fpath (mnx k) (Some e) Q"
  shows "\<exists>k'. sync_drain result reason e k = Some k' \<and> draining h [] k' (enq_all (pr k) Q R) (fold remove1 Q D) S \<and>
    qframe (fold (\<lambda>x. set_fld event_result_update x result) Q k) k' \<and>
    shd k' = (\<lambda>x. if x \<in> set Q then None else shd k x) \<and>
    fld event_status k' = (\<lambda>x. if x \<in> set Q then CN_STS_EVENT_READY else fld event_status k x) \<and>
    fld wakeup_from k' = (\<lambda>x. if x \<in> set Q then reason else fld wakeup_from k x) \<and>
    (\<forall>x. x \<notin> set Q \<union> set R \<union> set D \<longrightarrow> ecbs k' x = ecbs k x)"
  using assms
proof (induction Q arbitrary: e k R D)
  case Nil
  then show ?case by simp
next
  case (Cons a Q)
  then have e: "e = a" and path: "fpath (mnx k) (mnx k a) Q" by auto
  note d = Cons.prems(1) [unfolded draining_def] and IH = Cons.IH
  define k0 where "k0 = set_fld event_result_update a result (set_fld sync_head_update a None k)"
  have "kinv (unhook (set Q) h k0) R D S"
    by (rule kinv_cong [OF d [THEN conjunct1]]) (auto simp: k0_def)
  then have dr0: "draining h Q k0 R D S" using d by (simp add: draining_def k0_def)
  obtain k1 where k1: "wake_up reason a k0 = Some k1"
      "draining h Q k1 (walk_insert (\<lambda>x. pr k0 x \<le> pr k0 a) a R) (remove1 a D) S"
      "qframe k0 k1" "\<forall>x\<in>- set Q. shd k1 x = shd k0 x" "fld event_status k1 = (fld event_status k0)(a := CN_STS_EVENT_READY)"
      "fld wakeup_from k1 = (fld wakeup_from k0)(a := reason)" "\<forall>x\<in>set Q. mnx k1 x = mnx k0 x"
      "\<forall>x. x \<notin> insert a (set Q \<union> set R \<union> set D) \<longrightarrow> ecbs k1 x = ecbs k0 x"
    using draining_wake [OF dr0, of a reason] d by (auto simp: k0_def simp del: CN_STS_EVENT_READY_def)
  have pr: "pr k0 = pr k" "mnx k0 = mnx k" by (simp_all add: k0_def)
  obtain kd where kd: "leave_delay a k0 = Some kd" using k1(1) by (auto simp: wake_up_def bind_eq_Some_conv)
  have mk: "mnx kd = mnx k" using leave_delay_mnx [OF kd] by (simp add: k0_def)
  have step: "sync_drain result reason a k = (case mnx k a of None \<Rightarrow> Some k1 | Some n \<Rightarrow> sync_drain result reason n k1)"
    using k1(1) kd mk unfolding k0_def by (subst sync_drain.simps) (simp add: wake_up_def Let_def)
  have fr: "qframe (set_fld event_result_update a result k) k1"
  proof (rule qframe_trans [OF _ k1(3)])
    show "qframe (set_fld event_result_update a result k) k0"
      unfolding k0_def using qframe_result [of k "set_fld sync_head_update a None k" result "[a]"] by (auto intro!: relink)
  qed
  have pr1: "pr k1 = pr k" using qframe_data(1) [OF k1(3)] pr by simp
  have a: "a \<notin> set Q" using d by simp
  have out: "ecbs k1 x = ecbs k x" if "x \<notin> set (a # Q) \<union> set R \<union> set D" for x
    using that k1(8) by (simp add: k0_def ecbs_upd_ecb)
  show ?case
  proof (cases Q)
    case Nil
    then have "mnx k a = None" using path by simp
    moreover have "shd k1 = (shd k)(a := None)" using k1(4) Nil by (auto simp: k0_def)
    ultimately show ?thesis using k1 fr Nil out by (auto simp: step e pr k0_def)
  next
    case (Cons b Q')
    then have b: "mnx k a = Some b" using path by simp
    have "fpath (mnx k1) (Some b) Q" using fpath_cong [of Q "mnx k1" "mnx k" "Some b"] k1(7) path b by (simp add: pr)
    from IH [OF k1(2) this] obtain k' where k': "sync_drain result reason b k1 = Some k'"
      "draining h [] k' (enq_all (pr k1) Q (walk_insert (\<lambda>x. pr k0 x \<le> pr k0 a) a R)) (fold remove1 Q (remove1 a D)) S"
      "qframe (fold (\<lambda>x. set_fld event_result_update x result) Q k1) k'"
      "shd k' = (\<lambda>x. if x \<in> set Q then None else shd k1 x)"
      "fld event_status k' = (\<lambda>x. if x \<in> set Q then CN_STS_EVENT_READY else fld event_status k1 x)"
      "fld wakeup_from k' = (\<lambda>x. if x \<in> set Q then reason else fld wakeup_from k1 x)"
      "\<forall>x. x \<notin> set Q \<union> set (walk_insert (\<lambda>x. pr k0 x \<le> pr k0 a) a R) \<union> set (remove1 a D) \<longrightarrow> ecbs k' x = ecbs k1 x" by blast
    have "ecbs k' x = ecbs k x" if "x \<notin> set (a # Q) \<union> set R \<union> set D" for x
      using that k'(7) out [OF that] by (auto dest: notin_set_remove1)
    moreover have "qframe (fold (\<lambda>x. set_fld event_result_update x result) (a # Q) k) k'"
      using qframe_trans [OF qframe_result [OF fr] k'(3)] by simp
    moreover have "shd k' = (\<lambda>x. if x \<in> set (a # Q) then None else shd k x)"
      using k1(4) by (auto simp: k'(4) k0_def)
    moreover have "fld event_status k' = (\<lambda>x. if x \<in> set (a # Q) then CN_STS_EVENT_READY else fld event_status k x)"
      "fld wakeup_from k' = (\<lambda>x. if x \<in> set (a # Q) then reason else fld wakeup_from k x)"
      by (auto simp: k'(5,6) k1(5,6) k0_def)
    ultimately show ?thesis using k'(1,2) b by (simp add: step e pr pr1)
  qed
qed

lemma fld_fold_result: "(\<And>e r. g (event_result_update r e) = g e) \<Longrightarrow>
    fld g (fold (\<lambda>x. set_fld event_result_update x result) Q k) = fld g k"
  by (induction Q arbitrary: k) simp_all

lemma fold_result: "fld event_result (fold (\<lambda>x. set_fld event_result_update x result) Q k) =
    (\<lambda>x. if x \<in> set Q then result else fld event_result k x)"
  by (induction Q arbitrary: k) auto

lemma sync_wake_all_rep:
  fixes reason :: u32
  assumes wf: "kwf k R D S"
  shows "\<exists>k'. sync_wake_all result reason (cells k h) k = Some k' \<and>
    kwf (set_cell h None k') (enq_all (pr k) (S h) R) (fold remove1 (S h) D) (S(h := [])) \<and>
    qframe (fold (\<lambda>x. set_fld event_result_update x result) (S h) k) k' \<and>
    fld wakeup_from k' = (\<lambda>x. if x \<in> set (S h) then reason else fld wakeup_from k x) \<and>
    (\<forall>x. x \<notin> set (S h) \<union> set R \<union> set D \<longrightarrow> ecbs k' x = ecbs k x)"
proof (cases "S h")
  case Nil
  then have "cells k h = None" using kinvD(3) [OF kwf_kinv [OF wf], of h] by (simp add: sync_rep_def)
  moreover from this have "set_cell h None k = k" "S(h := []) = S" using Nil by (simp_all add: set_cell_def fun_upd_idem)
  ultimately show ?thesis using wf Nil by (simp add: sync_wake_all_def)
next
  case (Cons e Q)
  note I = kinvD [OF kwf_kinv [OF wf]]
  have sr: "cells k h = Some e" "cdll (mnx k) (mpv k) (S h)" using I(3) [of h] Cons by (auto simp: sync_rep_def)
  obtain p where p: "mpv k e = Some p" "p \<in> set (S h)"
    using cdll_next_prev_Some [OF sr(2), of e] Cons by auto
  define k0 where "k0 = set_multi_next p None k"
  have "kinv (unhook (set (S h)) h k0) R D (S(h := []))"
    by (rule kinv_unhook [OF kwf_kinv [OF wf]]) (use p in \<open>auto simp: k0_def set_ecb_defs\<close>)
  moreover have "distinct (S h)" using sr(2) by (simp add: cdll_def)
  moreover have "fld event_status k0 = fld event_status k" by (simp add: k0_def set_ecb_defs)
  ultimately have "draining h (S h) k0 R D (S(h := []))"
    using wf I(5) [of h] unfolding draining_def kwf_def by auto
  moreover have "fpath (mnx k0) (Some e) (S h)"
    using cdll_cut [OF sr(2), of p] p Cons by (simp add: k0_def set_ecb_defs)
  ultimately obtain k' where k': "sync_drain result reason e k0 = Some k'"
      "draining h [] k' (enq_all (pr k0) (S h) R) (fold remove1 (S h) D) (S(h := []))"
      "qframe (fold (\<lambda>x. set_fld event_result_update x result) (S h) k0) k'"
      "fld event_status k' = (\<lambda>x. if x \<in> set (S h) then CN_STS_EVENT_READY else fld event_status k0 x)"
      "fld wakeup_from k' = (\<lambda>x. if x \<in> set (S h) then reason else fld wakeup_from k0 x)"
      "\<forall>x. x \<notin> set (S h) \<union> set R \<union> set D \<longrightarrow> ecbs k' x = ecbs k0 x"
    using sync_drain_rep [of h "S h" k0 R D "S(h := [])" e result reason] by blast
  have "qframe k k0" unfolding k0_def by (intro relink)
  from qframe_trans [OF qframe_result [OF this] k'(3)]
  have fr: "qframe (fold (\<lambda>x. set_fld event_result_update x result) (S h) k) k'" .
  have f0: "pr k0 = pr k" "fld event_status k0 = fld event_status k" "fld wakeup_from k0 = fld wakeup_from k"
    by (simp_all add: k0_def set_ecb_defs)
  have "kwf (set_cell h None k') (enq_all (pr k) (S h) R) (fold remove1 (S h) D) (S(h := []))"
    unfolding kwf_def
  proof (intro conjI allI ballI)
    show "kinv (set_cell h None k') (enq_all (pr k) (S h) R) (fold remove1 (S h) D) (S(h := []))"
      using k'(2) by (simp add: draining_def unhook_none f0)
    show "fld event_status (set_cell h None k') x = CN_STS_EVENT_READY" if "x \<in> set (enq_all (pr k) (S h) R)" for x
      using that wf by (auto simp: k'(4) f0 set_enq_all kwf_def)
    show "(fld event_status (set_cell h None k') x AND CN_STS_SYNC_TIMEOUT \<noteq> 0) = (x \<in> set (fold remove1 (S h) D))"
      if "x \<in> set ((S(h := [])) h')" for x h'
    proof -
      have x: "x \<in> set (S h')" "x \<notin> set (S h)" using that I(8) [of h' h] by (auto split: if_splits)
      then show ?thesis using wf set_fold_remove1 [OF delay_repD(5) [OF I(2)]] by (simp add: k'(4) f0 kwf_def)
    qed
  qed
  moreover have "sync_wake_all result reason (cells k h) k = Some k'"
    using k'(1) sr(1) p by (simp add: sync_wake_all_def k0_def)
  moreover have "ecbs k' x = ecbs k x" if "x \<notin> set (S h) \<union> set R \<union> set D" for x
  proof -
    have "x \<noteq> p" using that p(2) by auto
    then show ?thesis using that k'(6) by (simp add: k0_def set_ecb_defs ecbs_upd_ecb)
  qed
  ultimately show ?thesis using fr k'(5) f0 by auto
qed

lemma fold_result_kernel [simp]:
  "ptEventRunning (fold (\<lambda>x. set_fld event_result_update x r) Q k) = ptEventRunning k"
  "nest_asyn_signal (fold (\<lambda>x. set_fld event_result_update x r) Q k) = nest_asyn_signal k"
  "en_asyn_signal_counter (fold (\<lambda>x. set_fld event_result_update x r) Q k) = en_asyn_signal_counter k"
  by (induction Q arbitrary: k) simp_all

lemma kwf_SaveAsyn: "kwf k R D S \<Longrightarrow> kwf (Int_SaveAsynSignal k) R D S"
  using kinv_SaveAsyn by (auto simp: kwf_def)


section \<open>Scanning the queue of a type\<close>

lemma kinv_multi:
  assumes inv: "kinv k R D S" and hd: "ptEventReady k' = ptEventReady k" "ptEventDelay k' = ptEventDelay k" "cells k' = cells k"
    and eq: "nx k' = nx k" "pv k' = pv k" "pr k' = pr k" "det k' = det k" "shd k' = shd k"
      "\<And>x. x \<in> set R \<or> (\<exists>h. x \<in> set (S h)) \<Longrightarrow> mnx k' x = mnx k x \<and> mpv k' x = mpv k x"
  shows "kinv k' R D S"
proof -
  note I = kinvD [OF inv]
  have "ready_rep k' R" by (rule ready_rep_cong [OF I(1) hd(1)]) (simp add: eq)
  moreover have "delay_rep k' D" by (rule delay_rep_cong [OF I(2) hd(2)]) (simp add: eq)
  moreover have "sync_rep k' h (S h)" for h by (rule sync_rep_cong [OF I(3)]) (use eq hd in auto)
  ultimately show ?thesis using I(4,5,6) by (auto simp: kinv_def eq)
qed

text \<open>The state of the scan: the queue \<open>h\<close> holds \<open>Q\<close>, the events of \<open>X\<close> that are not in \<open>Q\<close> have left it, and seen without
  \<open>X\<close> the other queues are consistent.\<close>

definition scanning :: "nat set \<Rightarrow> qhead \<Rightarrow> 'a kernel_scheme \<Rightarrow> nat list \<Rightarrow> nat list \<Rightarrow> (qhead \<Rightarrow> nat list) \<Rightarrow> nat list \<Rightarrow> bool" where
  "scanning X h k R D S Q \<longleftrightarrow> kinv (unhook X h k) R D S \<and> S h = [] \<and> sync_rep k h Q \<and> set Q \<subseteq> X \<and> set Q \<inter> set R = {} \<and>
     (\<forall>x\<in>X - set Q. shd k x = None) \<and> (\<forall>h'. X \<inter> set (S h') = {}) \<and>
     (\<forall>e\<in>set Q. fld event_status k e AND CN_STS_SYNC_TIMEOUT \<noteq> 0 \<longleftrightarrow> e \<in> set D)"

lemma scanning_start:
  assumes "kwf k R D S"
  shows "scanning (set (S h)) h k R D (S(h := [])) (S h)"
proof -
  note I = kinvD [OF kwf_kinv [OF assms]]
  have "kinv (unhook (set (S h)) h k) R D (S(h := []))" by (rule kinv_unhook [OF kwf_kinv [OF assms]]) simp_all
  then show ?thesis using assms I(3) [of h] I(5) [of h] I(8) [of h] by (auto simp: scanning_def kwf_def)
qed

lemma scanning_end:
  assumes "scanning X h k R D S Q"
  shows "kinv k R D (S(h := Q))"
proof -
  have s: "kinv (unhook X h k) R D S" "S h = []" "sync_rep k h Q" "set Q \<subseteq> X" "set Q \<inter> set R = {}"
    "\<forall>x\<in>X - set Q. shd k x = None" "\<forall>h'. X \<inter> set (S h') = {}" using assms by (auto simp: scanning_def)
  note I = kinvD [OF s(1)]
  have "ready_rep k R" by (rule ready_rep_cong [OF I(1)]) simp_all
  moreover have "delay_rep k D" by (rule delay_rep_cong [OF I(2)]) simp_all
  moreover have "sync_rep k h' ((S(h := Q)) h')" for h'
  proof (cases "h' = h")
    case False
    have "sync_rep k h' (S h')" by (rule sync_rep_cong [OF I(3)]) (use s(7) False in auto)
    then show ?thesis using False by simp
  qed (use s(3) in simp)
  moreover have "set R \<inter> set ((S(h := Q)) h') = {}" for h' using I(5) [of h'] s(5) by auto
  moreover have "e \<in> set ((S(h := Q)) h')" if "e \<in> set R \<union> set D" "shd k e = Some h'" for e h'
  proof (cases "e \<in> X")
    case True
    then have "e \<in> set Q" using s(6) that(2) by (metis DiffI option.distinct(1))
    moreover from this have "h' = h" using s(3) that(2) by (auto simp: sync_rep_def split: if_splits)
    ultimately show ?thesis by simp
  next
    case False
    then have "e \<in> set (S h')" using I(6) [of e h'] that by simp
    then show ?thesis using s(2) by auto
  qed
  ultimately show ?thesis using I(4) unfolding kinv_def by blast
qed

lemma leave_delay_mpv: "leave_delay e k = Some k' \<Longrightarrow> mpv k' = mpv k"
  by (auto simp: leave_delay_def DJY_ResumeDelay_def unlink_def set_ecb_defs Let_def bind_eq_Some_conv split: if_splits)

text \<open>The statements of the scan that take one event out of the queue and make it ready.\<close>

definition scan_out :: "qhead \<Rightarrow> u32 \<Rightarrow> nat \<Rightarrow> 'a kernel_scheme \<Rightarrow> 'a kernel_scheme option" where
  "scan_out h reason x k = do {
     k \<leftarrow> leave_delay x (set_fld sync_head_update x None k);
     let k = set_fld event_status_update x CN_STS_EVENT_READY (set_fld wakeup_from_update x reason k);
     if mnx k x = Some x then DJY_EventReady x (set_cell h None k)
     else do {
       n \<leftarrow> mnx k x;
       p \<leftarrow> mpv k x;
       let k = set_multi_previous n (Some p) (set_multi_next p (Some n) k);
       DJY_EventReady x (if cells k h = Some x then set_cell h (Some n) k else k) } }"

lemma scan_out_rep:
  fixes reason :: u32
  assumes s: "scanning X h k R D S Q" and x: "x \<in> set Q"
  shows "\<exists>k'. scan_out h reason x k = Some k' \<and>
    scanning X h k' (walk_insert (\<lambda>y. pr k y \<le> pr k x) x R) (remove1 x D) S (remove1 x Q) \<and> qframe k k' \<and>
    fld event_status k' = (fld event_status k)(x := CN_STS_EVENT_READY) \<and> fld wakeup_from k' = (fld wakeup_from k)(x := reason) \<and>
    (\<forall>y. y \<notin> set R \<union> set D \<union> X \<longrightarrow> ecbs k' y = ecbs k y)"
proof -
  have S: "kinv (unhook X h k) R D S" "S h = []" "sync_rep k h Q" "set Q \<subseteq> X" "set Q \<inter> set R = {}"
    "\<forall>x\<in>X - set Q. shd k x = None" "\<forall>h'. X \<inter> set (S h') = {}"
    "\<forall>e\<in>set Q. fld event_status k e AND CN_STS_SYNC_TIMEOUT \<noteq> 0 \<longleftrightarrow> e \<in> set D" using s by (auto simp: scanning_def)
  have xX: "x \<in> X" "x \<notin> set R" using x S by auto
  have c: "cdll (mnx k) (mpv k) Q" "cells k h = Some (hd Q)" "distinct Q" using S(3) x by (auto simp: sync_rep_def cdll_def split: if_splits)
  obtain n p where np: "mnx k x = Some n" "mpv k x = Some p" "n \<in> set Q" "p \<in> set Q" using cdll_next_prev_Some [OF c(1) x] by auto
  obtain us vs where Q: "Q = us @ x # vs" using x by (meson split_list)
  have rot: "cdll (mnx k) (mpv k) (x # vs @ us)" using cdll_rotate [of _ _ us "x # vs"] c(1) Q by simp
  have n: "n = hd (vs @ us @ [x])" using cdll_nextD [OF rot] np by simp
  have one: "n = x \<longleftrightarrow> Q = [x]" using n c(3) Q by (cases vs; cases us) auto
  have onep: "p = x \<longleftrightarrow> Q = [x]"
    using cdll_prevD [OF rot] np c(3) Q by (cases vs rule: rev_cases; cases us rule: rev_cases) auto
  define k0 where "k0 = set_fld sync_head_update x None k"
  have inv0: "kinv (unhook X h k0) R D S" by (rule kinv_cong [OF S(1)]) (use xX in \<open>auto simp: k0_def\<close>)
  have "fld event_status (unhook X h k0) x AND CN_STS_SYNC_TIMEOUT \<noteq> 0 \<longleftrightarrow> x \<in> set D" using S(8) x by (simp add: k0_def)
  then obtain K1 where K1: "leave_delay x (unhook X h k0) = Some K1" "kinv K1 R (remove1 x D) S" "qframe (unhook X h k0) K1"
      "fld event_status K1 = fld event_status k" "fld wakeup_from K1 = fld wakeup_from k"
      "\<And>y. y \<notin> set D \<Longrightarrow> ecbs K1 y = ecbs (unhook X h k0) y"
    using leave_delay_alarm [OF inv0] by (auto simp: k0_def alarm_frame_def)
  then obtain k1 where k1: "leave_delay x k0 = Some k1" "K1 = unhook X h k1" by (auto simp: unhook_leave_delay)
  note m1 = leave_delay_mnx [OF k1(1)] leave_delay_mpv [OF k1(1)] leave_delay_shd [OF k1(1)] leave_delay_cells [OF k1(1)]
  have f1: "qframe k k1"
  proof (rule qframe_trans)
    show "qframe k k0" unfolding k0_def by (intro relink) 
    show "qframe k0 k1" using K1(3) k1(2) by simp
  qed
  define k2 where "k2 = set_fld event_status_update x CN_STS_EVENT_READY (set_fld wakeup_from_update x reason k1)"
  define k3 where "k3 = (if Q = [x] then set_cell h None k2
     else let k = set_multi_previous n (Some p) (set_multi_next p (Some n) k2) in if hd Q = x then set_cell h (Some n) k else k)"
  have m2: "mnx k2 = mnx k" "mpv k2 = mpv k" "cells k2 = cells k" "shd k2 = (shd k)(x := None)" "pr k2 = pr k"
    using qframe_data(1) [OF f1] by (simp_all add: k2_def m1 k0_def)
  have eval: "scan_out h reason x k = DJY_EventReady x k3"
  proof -
    have "mnx k1 = mnx k" "mpv k1 = mpv k" "cells k1 = cells k" by (simp_all add: m1 k0_def)
    then show ?thesis using k1(1) np one c(2)
      by (auto simp: scan_out_def k3_def k2_def Let_def set_ecb_defs simp flip: k0_def)
  qed
  have k31: "shd k3 = shd k1" by (simp add: k3_def k2_def Let_def set_ecb_defs)
  have inv3: "kinv (unhook X h k3) R (remove1 x D) S"
  proof (rule kinv_multi [OF K1(2) [unfolded k1(2)]])
    show "mnx (unhook X h k3) y = mnx (unhook X h k1) y \<and> mpv (unhook X h k3) y = mpv (unhook X h k1) y"
      if "y \<in> set R \<or> (\<exists>h'. y \<in> set (S h'))" for y
    proof -
      have "y \<noteq> n" "y \<noteq> p" using that np S(4,5,7) by blast+
      then show ?thesis by (simp add: k3_def k2_def Let_def set_ecb_defs)
    qed
    show "shd (unhook X h k3) = shd (unhook X h k1)" unfolding unhook_fld(2) k31 ..
  qed (simp_all add: k3_def k2_def Let_def set_ecb_defs)
  have fr3: "qframe k k3" unfolding k3_def k2_def Let_def using f1 by (auto intro!: relink)
  have sh3: "shd k3 = (shd k)(x := None)" "pr k3 = pr k" using m2 qframe_data(1) [OF fr3] by (simp_all add: k3_def Let_def set_ecb_defs)
  have xD: "x \<notin> set (remove1 x D)" using delay_repD(5) [OF kinvD(2) [OF S(1)]] by simp
  obtain K4 where K4: "DJY_EventReady x (unhook X h k3) = Some K4" "kinv K4 (walk_insert (\<lambda>y. pr k y \<le> pr k x) x R) (remove1 x D) S"
      "relinked (insert x (set R)) (unhook X h k3) K4"
    using kinv_EventReady [OF inv3 xX(2) xD] xX(1) by (auto simp: sh3)
  then obtain k4 where k4: "DJY_EventReady x k3 = Some k4" "K4 = unhook X h k4" by (auto simp: unhook_EventReady)
  note e4 = EventReady_shd [OF k4(1)]
  have fr: "qframe k k4"
    using qframe_trans [OF fr3] relinked_qframe [OF K4(3)] k4(2) by simp
  have out: "mnx k4 y = mnx k3 y" "mpv k4 y = mpv k3 y" if "y \<notin> insert x (set R)" for y
    using relinked_outside [OF K4(3) that, of multi_next] relinked_outside [OF K4(3) that, of multi_previous] k4(2) by simp_all
  have st: "fld event_status k4 = (fld event_status k)(x := CN_STS_EVENT_READY)" "fld wakeup_from k4 = (fld wakeup_from k)(x := reason)"
    using relinked_data(3,4) [OF K4(3)] K1(4,5) k1(2) k4(2) by (simp_all add: k3_def k2_def Let_def set_ecb_defs)
  have sr: "sync_rep k4 h (remove1 x Q)"
  proof (cases "Q = [x]")
    case True
    then show ?thesis using e4 by (simp add: sync_rep_def k3_def)
  next
    case False
    show ?thesis
    proof (rule sync_rep_remove [OF S(3) x False np(1,2)])
      show "cells k4 h = Some (hd (remove1 x Q))"
        using e4 m2(3) c(2,3) n Q False by (cases us) (auto simp: k3_def Let_def set_ecb_defs)
      show "mnx k4 y = ((mnx k)(p := Some n)) y \<and> mpv k4 y = ((mpv k)(n := Some p)) y \<and> shd k4 y = shd k y"
        if "y \<in> set Q" "y \<noteq> x" for y
      proof -
        have "mnx k3 = (mnx k)(p := Some n)" "mpv k3 = (mpv k)(n := Some p)"
          using False m2(1,2) by (simp_all add: k3_def Let_def set_ecb_defs)
        moreover have "y \<notin> insert x (set R)" using that S(5) by auto
        ultimately show ?thesis using that out [of y] e4 sh3 by simp
      qed
    qed
  qed
  have "scanning X h k4 (walk_insert (\<lambda>y. pr k y \<le> pr k x) x R) (remove1 x D) S (remove1 x Q)"
    unfolding scanning_def
  proof (intro conjI)
    show "kinv (unhook X h k4) (walk_insert (\<lambda>y. pr k y \<le> pr k x) x R) (remove1 x D) S" using K4(2) k4(2) by simp
    show "\<forall>y\<in>X - set (remove1 x Q). shd k4 y = None"
    proof
      fix y assume "y \<in> X - set (remove1 x Q)"
      then have "y = x \<or> y \<in> X - set Q" using c(3) by auto
      then show "shd k4 y = None" using S(6) e4 sh3 by auto
    qed
    show "\<forall>e\<in>set (remove1 x Q). fld event_status k4 e AND CN_STS_SYNC_TIMEOUT \<noteq> 0 \<longleftrightarrow> e \<in> set (remove1 x D)"
      using S(8) c(3) delay_repD(5) [OF kinvD(2) [OF S(1)]] by (auto simp: st)
  qed (use S sr c(3) in auto)
  moreover have "ecbs k4 y = ecbs k y" if "y \<notin> set R \<union> set D \<union> X" for y
  proof -
    have y: "y \<notin> set R" "y \<notin> set D" "y \<notin> X" "y \<noteq> x" "y \<noteq> n" "y \<noteq> p" using that np S(4) xX(1) by auto
    then have "ecbs k4 y = ecbs k3 y"
      using K4(3) k4(2) unhook_outside [of y X h k4] unhook_outside [of y X h k3] by (simp add: relinked_def)
    also have "\<dots> = ecbs k1 y" using y by (simp add: k3_def k2_def Let_def set_ecb_defs ecbs_upd_ecb)
    also have "\<dots> = ecbs k y"
      using K1(6) [OF y(2)] k1(2) y unhook_outside [of y X h k1] unhook_outside [of y X h k0] by (simp add: k0_def ecbs_upd_ecb)
    finally show ?thesis .
  qed
  ultimately show ?thesis using eval k4(1) fr st by auto
qed

text \<open>\<open>counted c k\<close> is \<open>k\<close> with the counters \<open>c\<close>.\<close>

definition counted :: "(nat \<Rightarrow> u16) \<Rightarrow> 'a kernel_scheme \<Rightarrow> 'a kernel_scheme" where
  "counted c k = k\<lparr>ecbs := (\<lambda>i. (ecbs k i)\<lparr>sync_counter := c i\<rparr>)\<rparr>"

lemma counted_simps [simp]:
  "(\<And>e v. g (e\<lparr>sync_counter := v\<rparr>) = g e) \<Longrightarrow> fld g (counted c k) = fld g k" "fld sync_counter (counted c k) = c"
  "counted c (counted c' k) = counted c k" "counted (fld sync_counter k) k = k"
  "set_fld sync_counter_update x v k = counted ((fld sync_counter k)(x := v)) k"
  "evtts (counted c k) = evtts k" "cells (counted c k) = cells k" "ptEventReady (counted c k) = ptEventReady k"
  "ptEventDelay (counted c k) = ptEventDelay k" "ptEventRunning (counted c k) = ptEventRunning k"
  "nest_asyn_signal (counted c k) = nest_asyn_signal k" "en_asyn_signal_counter (counted c k) = en_asyn_signal_counter k"
  "ptEventFree (counted c k) = ptEventFree k" "cfg_evtt_limit (counted c k) = cfg_evtt_limit k"
  "cfg_event_limit (counted c k) = cfg_event_limit k" "kernel.more (counted c k) = kernel.more k"
  by (auto simp: counted_def fld_def upd_ecb_def intro!: arg_cong [where f = "\<lambda>X. k\<lparr>ecbs := X\<rparr>"])

lemma qframe_counted:
  assumes "qframe k k'"
  shows "qframe (counted c k) (counted c k')"
proof -
  have "k'\<lparr>ecbs := X, ptEventReady := ptEventReady k, ptEventDelay := ptEventDelay k, cells := cells k\<rparr> = k\<lparr>ecbs := X\<rparr>" for X
  proof -
    have "k'\<lparr>ecbs := X, ptEventReady := ptEventReady k, ptEventDelay := ptEventDelay k, cells := cells k\<rparr> =
      (k'\<lparr>ecbs := ecbs k, ptEventReady := ptEventReady k, ptEventDelay := ptEventDelay k, cells := cells k\<rparr>)\<lparr>ecbs := X\<rparr>" by simp
    then show ?thesis using assms by (simp only: qframe_def)
  qed
  moreover have "ecb_core (e\<lparr>sync_counter := v\<rparr>) = (ecb_core e)\<lparr>sync_counter := v\<rparr>" for e v by (simp add: ecb_core_def)
  ultimately show ?thesis using assms by (simp add: qframe_def counted_def)
qed

lemma sync_scan_wake:
  assumes s: "sync_rep k h (A @ x # B)" and ok: "ok x k" and k1: "scan_out h reason x k = Some k1"
  shows "sync_scan h ok dec reason x k = (if B = [] then Some k1 else sync_scan h ok dec reason (hd B) k1)"
proof -
  let ?Q = "A @ x # B"
  have c: "cdll (mnx k) (mpv k) ?Q" "cells k h = Some (hd ?Q)" "distinct ?Q" using s by (auto simp: sync_rep_def cdll_def split: if_splits)
  have rot: "cdll (mnx k) (mpv k) (x # B @ A)" using cdll_rotate [of _ _ A "x # B"] c(1) by simp
  define k0 where "k0 = set_fld sync_head_update x None k"
  obtain kd where kd: "leave_delay x k0 = Some kd" using k1 by (auto simp: scan_out_def k0_def bind_eq_Some_conv)
  have m: "mnx kd = mnx k" "mpv kd = mpv k" "cells kd = cells k"
    using leave_delay_mnx [OF kd] leave_delay_mpv [OF kd] leave_delay_cells [OF kd] by (simp_all add: k0_def)
  obtain n p where np: "mnx k x = Some n" "mpv k x = Some p" using cdll_next_prev_Some [OF rot, of x] by auto
  have n: "n = hd (B @ A @ [x])" using cdll_nextD [OF rot] np by simp
  have hQ: "hd ?Q = hd (A @ [x])" by (cases A) auto
  have cases: "n = x \<longleftrightarrow> A = [] \<and> B = []" "hd ?Q = x \<longleftrightarrow> A = []" "B = [] \<Longrightarrow> n = hd ?Q" "B \<noteq> [] \<Longrightarrow> n = hd B" "B \<noteq> [] \<Longrightarrow> n \<noteq> hd ?Q"
    using n c(3) hQ by (cases A; cases B; auto)+
  have eq: "sync_scan h ok dec reason x k =
    (if n = x then scan_out h reason x k else if hd ?Q = x then scan_out h reason x k \<bind> sync_scan h ok dec reason n
     else if hd ?Q = n then scan_out h reason x k else scan_out h reason x k \<bind> sync_scan h ok dec reason n)"
  proof -
    define k2 where "k2 = set_fld event_status_update x CN_STS_EVENT_READY (set_fld wakeup_from_update x reason kd)"
    define k3 where "k3 = set_multi_previous n (Some p) (set_multi_next p (Some n) k2)"
    have m2: "mnx k2 x = Some n" "mpv k2 x = Some p" "cells k3 h = Some (hd ?Q)" using m np c(2) by (simp_all add: k2_def k3_def set_ecb_defs)
    have "scan_out h reason x k = (if n = x then DJY_EventReady x (set_cell h None k2)
        else DJY_EventReady x (if hd ?Q = x then set_cell h (Some n) k3 else k3))"
      unfolding scan_out_def k0_def [symmetric] kd Let_def bind.bind_lunit k2_def [symmetric] m2(1,2) k3_def [symmetric] m2(3) option.inject ..
    moreover have "sync_scan h ok dec reason x k = (if n = x then DJY_EventReady x (set_cell h None k2)
        else if hd ?Q = x then DJY_EventReady x (set_cell h (Some n) k3) \<bind> sync_scan h ok dec reason n
        else if hd ?Q = n then DJY_EventReady x k3 else DJY_EventReady x k3 \<bind> sync_scan h ok dec reason n)"
      by (subst sync_scan.simps, subst if_P [OF ok])
        (unfold k0_def [symmetric] kd Let_def bind.bind_lunit k2_def [symmetric] m2(1,2) k3_def [symmetric] m2(3) option.inject, rule refl)
    ultimately show ?thesis by simp
  qed
  show ?thesis
  proof (cases "B = []")
    case True
    then show ?thesis using eq k1 cases(3) by simp
  next
    case False
    then have "n \<noteq> x" "n = hd B" "hd ?Q \<noteq> n" using cases(1,4,5) by auto
    then show ?thesis using eq k1 False by simp
  qed
qed

lemma sync_scan_keep:
  fixes dec :: "nat \<Rightarrow> 'a kernel_scheme \<Rightarrow> bool"
  assumes s: "sync_rep k h (A @ x # B)" and ok: "\<not> ok x k"
  defines "k1 \<equiv> if dec x k then set_fld sync_counter_update x (fld sync_counter k x - 1) k else k"
  shows "sync_scan h ok dec reason x k = (if B = [] then Some k1 else sync_scan h ok dec reason (hd B) k1)"
proof -
  let ?Q = "A @ x # B"
  have c: "cdll (mnx k) (mpv k) ?Q" "cells k h = Some (hd ?Q)" "distinct ?Q" using s by (auto simp: sync_rep_def cdll_def split: if_splits)
  have rot: "cdll (mnx k) (mpv k) (x # B @ A)" using cdll_rotate [of _ _ A "x # B"] c(1) by simp
  have n: "mnx k x = Some (hd (B @ A @ [x]))" using cdll_nextD [OF rot] by simp
  have "hd (B @ A @ [x]) = hd ?Q \<longleftrightarrow> B = []" "B \<noteq> [] \<Longrightarrow> hd (B @ A @ [x]) = hd B"
    using c(3) by (cases A; cases B; auto)+
  then show ?thesis using ok c(2) n by (subst sync_scan.simps) (auto simp: k1_def Let_def)
qed

text \<open>Whether an event is woken or counted depends on its counter and on data that no queue operation changes.\<close>

definition stable_on :: "nat set \<Rightarrow> (nat \<Rightarrow> 'a kernel_scheme \<Rightarrow> bool) \<Rightarrow> 'a kernel_scheme \<Rightarrow> bool" where
  "stable_on Y P k \<longleftrightarrow> (\<forall>y\<in>Y. \<forall>c k1. qframe (counted c k) k1 \<longrightarrow> c y = fld sync_counter k y \<longrightarrow> P y k1 = P y k)"

lemma stable_on_step:
  assumes P: "stable_on (insert x Y) P k" and f: "qframe (counted c k) k1" and c: "\<And>y. y \<in> Y \<Longrightarrow> c y = fld sync_counter k y"
  shows "stable_on Y P k1 \<and> (\<forall>y\<in>Y. P y k1 = P y k)"
proof -
  have ck: "fld sync_counter k1 = c" using qframe_data(5) [OF f] by simp
  have "P y' k2 = P y' k" if "qframe (counted c' k1) k2" "c' y' = fld sync_counter k1 y'" "y' \<in> Y" for y' c' k2
  proof -
    have "qframe (counted c' k) k2" using qframe_trans [OF qframe_counted [OF f, of c'] that(1)] by simp
    moreover have "c' y' = fld sync_counter k y'" using that(2,3) ck c by simp
    ultimately show ?thesis using P that(3) unfolding stable_on_def by blast
  qed
  moreover have "P y' k1 = P y' k" if "y' \<in> Y" for y' using P f c that unfolding stable_on_def by blast
  ultimately show ?thesis unfolding stable_on_def by auto
qed

lemma scanning_counted: "scanning X h (counted c k) R D S Q = scanning X h k R D S Q"
proof -
  have "kinv (unhook X h (counted c k)) R D S = kinv (unhook X h k) R D S"
    by (simp add: kinv_def ready_rep_def delay_rep_def sync_rep_def cong: if_cong)
  then show ?thesis by (simp add: scanning_def sync_rep_def)
qed

lemma sync_scan_rep:
  fixes reason :: u32
  assumes "scanning X h k R D S (A @ Q)" "Q \<noteq> []" "stable_on (set Q) ok k" "stable_on (set Q) dec k"
  defines "W \<equiv> filter (\<lambda>y. ok y k) Q"
  shows "\<exists>k'. sync_scan h ok dec reason (hd Q) k = Some k' \<and>
    scanning X h k' (enq_all (pr k) W R) (fold remove1 W D) S (A @ filter (\<lambda>y. \<not> ok y k) Q) \<and>
    qframe (counted (\<lambda>y. if y \<in> set Q \<and> \<not> ok y k \<and> dec y k then fld sync_counter k y - 1 else fld sync_counter k y) k) k' \<and>
    fld event_status k' = (\<lambda>y. if y \<in> set W then CN_STS_EVENT_READY else fld event_status k y) \<and>
    fld wakeup_from k' = (\<lambda>y. if y \<in> set W then reason else fld wakeup_from k y) \<and>
    (\<forall>y. y \<notin> set R \<union> set D \<union> X \<longrightarrow> ecbs k' y = ecbs k y)"
  using assms(1-4) unfolding W_def
proof (induction Q arbitrary: A k R D)
  case (Cons x B)
  note P = Cons.prems and IH = Cons.IH
  have sr: "sync_rep k h (A @ x # B)" using P(1) by (simp add: scanning_def)
  then have xB: "x \<notin> set A" "x \<notin> set B" by (auto simp: sync_rep_def cdll_def split: if_splits)
  show ?case
  proof (cases "ok x k")
    case True
    obtain k1 where k1: "scan_out h reason x k = Some k1"
        "scanning X h k1 (walk_insert (\<lambda>y. pr k y \<le> pr k x) x R) (remove1 x D) S (A @ B)" "qframe k k1"
        "fld event_status k1 = (fld event_status k)(x := CN_STS_EVENT_READY)" "fld wakeup_from k1 = (fld wakeup_from k)(x := reason)"
        "\<forall>y. y \<notin> set R \<union> set D \<union> X \<longrightarrow> ecbs k1 y = ecbs k y"
      using scan_out_rep [OF P(1), of x reason] xB by (auto simp: remove1_append simp del: CN_STS_EVENT_READY_def)
    note step = sync_scan_wake [where ok = ok, OF sr True k1(1), of dec]
    have f: "qframe (counted (fld sync_counter k) k) k1" using k1(3) by simp
    note ct = qframe_data(1,5) [OF k1(3)]
    show ?thesis
    proof (cases "B = []")
      case B: True
      have "(\<lambda>y. if y \<in> set (x # B) \<and> \<not> ok y k \<and> dec y k then fld sync_counter k y - 1 else fld sync_counter k y) = fld sync_counter k"
        using B True by auto
      then show ?thesis using step k1 B True by (auto simp del: CN_STS_EVENT_READY_def)
    next
      case False
      have so: "stable_on (set B) ok k1" "stable_on (set B) dec k1" "\<And>y. y \<in> set B \<Longrightarrow> ok y k1 = ok y k" "\<And>y. y \<in> set B \<Longrightarrow> dec y k1 = dec y k"
        using stable_on_step [OF _ f, of x "set B" ok] stable_on_step [OF _ f, of x "set B" dec] P(3,4)
        by auto
      have fl: "filter (\<lambda>y. ok y k1) B = filter (\<lambda>y. ok y k) B" "filter (\<lambda>y. \<not> ok y k1) B = filter (\<lambda>y. \<not> ok y k) B"
        using so(3) by (auto intro: filter_cong)
      have cn: "(\<lambda>y. if y \<in> set B \<and> \<not> ok y k1 \<and> dec y k1 then fld sync_counter k1 y - 1 else fld sync_counter k1 y) =
        (\<lambda>y. if y \<in> set (x # B) \<and> \<not> ok y k \<and> dec y k then fld sync_counter k y - 1 else fld sync_counter k y)"
        using so(3,4) True by (intro ext) (auto simp: ct)
      obtain k' where k': "sync_scan h ok dec reason (hd B) k1 = Some k'"
        "scanning X h k' (enq_all (pr k1) (filter (\<lambda>y. ok y k) B) (walk_insert (\<lambda>y. pr k y \<le> pr k x) x R)) (fold remove1 (filter (\<lambda>y. ok y k) B) (remove1 x D)) S
            (A @ filter (\<lambda>y. \<not> ok y k) B)"
        "qframe (counted (\<lambda>y. if y \<in> set (x # B) \<and> \<not> ok y k \<and> dec y k then fld sync_counter k y - 1 else fld sync_counter k y) k1) k'"
        "fld event_status k' = (\<lambda>y. if y \<in> set (filter (\<lambda>y. ok y k) B) then CN_STS_EVENT_READY else fld event_status k1 y)"
        "fld wakeup_from k' = (\<lambda>y. if y \<in> set (filter (\<lambda>y. ok y k) B) then reason else fld wakeup_from k1 y)"
        "\<forall>y. y \<notin> set (walk_insert (\<lambda>y. pr k y \<le> pr k x) x R) \<union> set (remove1 x D) \<union> X \<longrightarrow> ecbs k' y = ecbs k1 y"
        using IH [OF k1(2) False so(1,2)] unfolding fl cn by blast
      have "qframe (counted (\<lambda>y. if y \<in> set (x # B) \<and> \<not> ok y k \<and> dec y k then fld sync_counter k y - 1 else fld sync_counter k y) k) k'"
        by (rule qframe_trans [OF qframe_counted [OF k1(3)] k'(3)])
      moreover have "fld event_status k' = (\<lambda>y. if y \<in> set (filter (\<lambda>y. ok y k) (x # B)) then CN_STS_EVENT_READY else fld event_status k y)"
        "fld wakeup_from k' = (\<lambda>y. if y \<in> set (filter (\<lambda>y. ok y k) (x # B)) then reason else fld wakeup_from k y)"
        using True by (auto simp: k'(4,5) k1(4,5))
      moreover have "ecbs k' y = ecbs k y" if "y \<notin> set R \<union> set D \<union> X" for y
      proof -
        have "x \<in> X" using P(1) by (simp add: scanning_def)
        then have "y \<notin> set (walk_insert (\<lambda>y. pr k y \<le> pr k x) x R) \<union> set (remove1 x D) \<union> X"
          using that set_remove1_subset [of x D] by auto
        then show ?thesis using k'(6) k1(6) that by simp
      qed
      ultimately show ?thesis using step k'(1,2) True False by (simp add: ct)
    qed
  next
    case False
    define c where "c = (fld sync_counter k)(x := if dec x k then fld sync_counter k x - 1 else fld sync_counter k x)"
    define k1 where "k1 = counted c k"
    have k1': "(if dec x k then set_fld sync_counter_update x (fld sync_counter k x - 1) k else k) = k1"
      by (simp add: k1_def c_def)
    note step = sync_scan_keep [where ok = ok, OF sr False, of dec, unfolded k1']
    have sc: "scanning X h k1 R D S ((A @ [x]) @ B)" using P(1) by (simp add: k1_def scanning_counted)
    have f: "qframe (counted c k) k1" by (simp add: k1_def)
    have ecb1: "ecbs k1 y = ecbs k y" if "y \<noteq> x" for y
      using that by (simp add: k1_def c_def counted_def fld_def)
    have cx: "c y = fld sync_counter k y" if "y \<in> set B" for y using that xB(2) by (auto simp: c_def)
    let ?c = "\<lambda>y. if y \<in> set (x # B) \<and> \<not> ok y k \<and> dec y k then fld sync_counter k y - 1 else fld sync_counter k y"
    show ?thesis
    proof (cases "B = []")
      case B: True
      have "?c = c" using B False by (auto simp: c_def)
      moreover have "ecbs k1 y = ecbs k y" if "y \<notin> X" for y
        by (rule ecb1) (use that P(1) in \<open>auto simp: scanning_def\<close>)
      ultimately show ?thesis using step sc B False by (simp add: k1_def)
    next
      case B: False
      have so: "stable_on (set B) ok k1" "stable_on (set B) dec k1" "\<And>y. y \<in> set B \<Longrightarrow> ok y k1 = ok y k" "\<And>y. y \<in> set B \<Longrightarrow> dec y k1 = dec y k"
        using stable_on_step [OF _ f cx, of x "set B" ok] stable_on_step [OF _ f cx, of x "set B" dec] P(3,4) by auto
      have fl: "filter (\<lambda>y. ok y k1) B = filter (\<lambda>y. ok y k) B" "filter (\<lambda>y. \<not> ok y k1) B = filter (\<lambda>y. \<not> ok y k) B"
        using so(3) by (auto intro: filter_cong)
      have cn: "counted (\<lambda>y. if y \<in> set B \<and> \<not> ok y k1 \<and> dec y k1 then fld sync_counter k1 y - 1 else fld sync_counter k1 y) k1 = counted ?c k"
      proof -
        have "(\<lambda>y. if y \<in> set B \<and> \<not> ok y k1 \<and> dec y k1 then fld sync_counter k1 y - 1 else fld sync_counter k1 y) = ?c"
          using so(3,4) False xB(2) by (intro ext) (auto simp: k1_def c_def)
        then show ?thesis by (simp add: k1_def)
      qed
      have st: "pr k1 = pr k" "fld event_status k1 = fld event_status k" "fld wakeup_from k1 = fld wakeup_from k" by (simp_all add: k1_def)
      obtain k' where "sync_scan h ok dec reason (hd B) k1 = Some k'"
        "scanning X h k' (enq_all (pr k) (filter (\<lambda>y. ok y k) B) R) (fold remove1 (filter (\<lambda>y. ok y k) B) D) S ((A @ [x]) @ filter (\<lambda>y. \<not> ok y k) B)"
        "qframe (counted ?c k) k'"
        "fld event_status k' = (\<lambda>y. if y \<in> set (filter (\<lambda>y. ok y k) B) then CN_STS_EVENT_READY else fld event_status k y)"
        "fld wakeup_from k' = (\<lambda>y. if y \<in> set (filter (\<lambda>y. ok y k) B) then reason else fld wakeup_from k y)"
        "\<forall>y. y \<notin> set R \<union> set D \<union> X \<longrightarrow> ecbs k' y = ecbs k1 y"
        using IH [OF sc B so(1,2)] unfolding fl cn st by blast
      moreover have "ecbs k1 y = ecbs k y" if "y \<notin> X" for y
        by (rule ecb1) (use that P(1) in \<open>auto simp: scanning_def\<close>)
      ultimately show ?thesis using step False B by simp
    qed
  qed
qed simp

lemma sync_scan_all_rep:
  fixes reason :: u32
  assumes wf: "kwf k R D S" and st: "stable_on (set (S h)) ok k" "stable_on (set (S h)) dec k"
  defines "W \<equiv> filter (\<lambda>y. ok y k) (S h)"
  shows "\<exists>k'. sync_scan_all h ok dec reason k = Some k' \<and>
    kwf k' (enq_all (pr k) W R) (fold remove1 W D) (S(h := filter (\<lambda>y. \<not> ok y k) (S h))) \<and>
    qframe (counted (\<lambda>y. if y \<in> set (S h) \<and> \<not> ok y k \<and> dec y k then fld sync_counter k y - 1 else fld sync_counter k y) k) k' \<and>
    fld wakeup_from k' = (\<lambda>y. if y \<in> set W then reason else fld wakeup_from k y) \<and>
    (\<forall>y. y \<notin> set R \<union> set D \<union> set (S h) \<longrightarrow> ecbs k' y = ecbs k y)"
proof (cases "S h = []")
  case True
  then have "cells k h = None" using kinvD(3) [OF kwf_kinv [OF wf], of h] by (simp add: sync_rep_def)
  moreover have "S(h := []) = S" using True by (simp add: fun_upd_idem)
  ultimately show ?thesis using wf True by (simp add: sync_scan_all_def W_def)
next
  case False
  note I = kinvD [OF kwf_kinv [OF wf]]
  have c: "cells k h = Some (hd (S h))" using I(3) [of h] False by (simp add: sync_rep_def)
  let ?Q = "filter (\<lambda>y. \<not> ok y k) (S h)"
  have "scanning (set (S h)) h k R D (S(h := [])) ([] @ S h)" using scanning_start [OF wf, of h] by simp
  from sync_scan_rep [OF this False st, of reason] obtain k' where k': "sync_scan h ok dec reason (hd (S h)) k = Some k'"
      "scanning (set (S h)) h k' (enq_all (pr k) W R) (fold remove1 W D) (S(h := [])) ?Q"
      "qframe (counted (\<lambda>y. if y \<in> set (S h) \<and> \<not> ok y k \<and> dec y k then fld sync_counter k y - 1 else fld sync_counter k y) k) k'"
      "fld event_status k' = (\<lambda>y. if y \<in> set W then CN_STS_EVENT_READY else fld event_status k y)"
      "fld wakeup_from k' = (\<lambda>y. if y \<in> set W then reason else fld wakeup_from k y)"
      "\<forall>y. y \<notin> set R \<union> set D \<union> set (S h) \<longrightarrow> ecbs k' y = ecbs k y"
    unfolding W_def by auto
  have "kwf k' (enq_all (pr k) W R) (fold remove1 W D) (S(h := ?Q))"
    unfolding kwf_def
  proof (intro conjI allI ballI)
    show "kinv k' (enq_all (pr k) W R) (fold remove1 W D) (S(h := ?Q))" using scanning_end [OF k'(2)] by simp
    show "fld event_status k' x = CN_STS_EVENT_READY" if "x \<in> set (enq_all (pr k) W R)" for x
      using that wf by (auto simp: k'(4) set_enq_all kwf_def)
    show "(fld event_status k' x AND CN_STS_SYNC_TIMEOUT \<noteq> 0) = (x \<in> set (fold remove1 W D))" if "x \<in> set ((S(h := ?Q)) h')" for x h'
    proof -
      have x: "x \<in> set (S h')" "x \<notin> set W" using that I(8) [of h' h] by (auto simp: W_def split: if_splits)
      then show ?thesis using wf set_fold_remove1 [OF delay_repD(5) [OF I(2)]] by (simp add: k'(4) kwf_def)
    qed
  qed
  moreover have "sync_scan_all h ok dec reason k = Some k'" using k'(1) c by (simp add: sync_scan_all_def)
  ultimately show ?thesis using k' by blast
qed

text \<open>The blocks of \<open>F\<close> are free and in no queue.\<close>

definition spare :: "'a kernel_scheme \<Rightarrow> nat list \<Rightarrow> nat list \<Rightarrow> (qhead \<Rightarrow> nat list) \<Rightarrow> nat list \<Rightarrow> bool" where
  "spare k R D S F \<longleftrightarrow> free_rep k F \<and> (\<forall>f\<in>set F. f \<notin> set R \<union> set D \<and> (\<forall>h. f \<notin> set (S h)))"

lemma free_rep_cong:
  assumes "free_rep k F" "ptEventFree k' = ptEventFree k" "\<And>f. f \<in> set F \<Longrightarrow> nx k' f = nx k f \<and> pv k' f = pv k f"
  shows "free_rep k' F"
  using assms fpath_cong [of F "nx k'" "nx k" "ptEventFree k"] by (auto simp: free_rep_def)

lemma pop_create_rep:
  fixes pri p1 p2 :: u32 and i :: nat
  assumes wf: "kwf k R D S" and sp: "spare k R D S (f # F)" and S: "S (EcbSync f) = []"
  defines "np \<equiv> if pri \<noteq> 0 then ucast pri else ucast (default_prio (evtts k i)) :: u8"
  shows "\<exists>k'. pop_create i f p1 p2 pri k = Some k' \<and> kwf k' (walk_insert (\<lambda>x. pr k x \<le> np) f R) D S \<and>
    spare k' (walk_insert (\<lambda>x. pr k x \<le> np) f R) D S F \<and> pr k' = (pr k)(f := np) \<and> fld vm k' = (fld vm k)(f := None) \<and>
    fld event_id k' = fld event_id k \<and> fld evtt_id k' f = word_of_nat i OR CN_EVTT_ID_MASK \<and>
    fld param1 k' f = p1 \<and> fld param2 k' f = p2 \<and>
    evtts k' = (evtts k)(i := (evtts k i)\<lparr>events := events (evtts k i) + 1, inuse := True, correlativeID := fld event_id k f\<rparr>) \<and>
    ptEventRunning k' = ptEventRunning k \<and> nest_asyn_signal k' = nest_asyn_signal k \<and>
    en_asyn_signal_counter k' = en_asyn_signal_counter k \<and> kernel.more k' = kernel.more k"
proof -
  note inv = kwf_kinv [OF wf]
  have f: "f \<notin> set R" "f \<notin> set D" "\<And>h. f \<notin> set (S h)" "f \<notin> set F" "nx k f = (case F of [] \<Rightarrow> None | g # _ \<Rightarrow> Some g)"
    using sp by (auto simp: spare_def free_rep_def split: list.split)
  have cell: "cells k (EcbSync f) = None" using kinvD(3) [OF inv, of "EcbSync f"] S by (simp add: sync_rep_def)
  define k1 where "k1 = upd_evtt i (\<lambda>t. t\<lparr>inuse := True, correlativeID := fld event_id k f\<rparr>) (upd_ecb f (new_ecb i p1 p2 np (SysTime k))
      (set_cell (EcbSync f) None (upd_evtt i (\<lambda>t. t\<lparr>events := events t + 1\<rparr>) (k\<lparr>ptEventFree := nx k f\<rparr>))))"
  have eval: "pop_create i f p1 p2 pri k = DJY_EventReady f k1"
    by (simp add: pop_create_def Let_def k1_def np_def upd_evtt_def new_ecb_def fld_def ecbs_upd_ecb)
  have o: "ecbs k1 y = ecbs k y" if "y \<noteq> f" for y using that by (simp add: k1_def ecbs_upd_ecb upd_evtt_def)
  have oe: "fld g k1 y = fld g k y" if "y \<noteq> f" for g y using o [OF that] by (simp add: fld_def)
  have own: "shd k1 f = None" "pr k1 f = np" "fld vm k1 f = None" "fld event_id k1 f = fld event_id k f"
    "fld evtt_id k1 f = word_of_nat i OR CN_EVTT_ID_MASK" "fld param1 k1 f = p1" "fld param2 k1 f = p2" "fld event_status k1 f = CN_STS_EVENT_READY"
    by (simp_all add: k1_def fld_def ecbs_upd_ecb upd_evtt_def new_ecb_def)
  have hd1: "ptEventReady k1 = ptEventReady k" "ptEventDelay k1 = ptEventDelay k" "cells k1 = cells k" "ptEventFree k1 = nx k f"
    using cell by (auto simp: k1_def upd_evtt_def)
  have inv1: "kinv k1 R D S"
  proof (rule kinv_local [OF inv hd1(1-3)])
    fix x assume "x \<in> set R \<union> set D \<or> (\<exists>h. x \<in> set (S h))"
    then have "x \<noteq> f" using f by auto
    then show "nx k1 x = nx k x \<and> pv k1 x = pv k x \<and> mnx k1 x = mnx k x \<and> mpv k1 x = mpv k x \<and> pr k1 x = pr k x \<and>
        det k1 x = det k x \<and> shd k1 x = shd k x" by (simp add: oe)
  qed
  from kinv_EventReady [OF inv1 f(1,2) own(1)] obtain k2 where k2: "DJY_EventReady f k1 = Some k2"
      "kinv k2 (walk_insert (\<lambda>x. pr k1 x \<le> pr k1 f) f R) D S" "relinked (insert f (set R)) k1 k2" by blast
  note r = relinked_data [OF k2(3)] relinked_kernel [OF k2(3)] relinked_pr [OF k2(3)]
  have W: "walk_insert (\<lambda>x. pr k1 x \<le> pr k1 f) f R = walk_insert (\<lambda>x. pr k x \<le> np) f R"
    proof (rule walk_insert_cong)
    fix x assume "x \<in> set R"
    then have "x \<noteq> f" using f(1) by auto
    then show "(pr k1 x \<le> pr k1 f) = (pr k x \<le> np)" by (simp add: own(2) oe)
  qed
  have fl: "fld g k2 = fld g k1" if "\<And>e. g (ecb_data e) = g e" for g :: "EventECB \<Rightarrow> 'v"
    using relinked_fld [OF k2(3), of g] that by blast
  have "fld event_id k1 x = fld event_id k x" for x by (cases "x = f") (simp_all add: own oe)
  then have e: "fld event_id k2 = fld event_id k" "pr k2 = (pr k)(f := np)" "fld vm k2 = (fld vm k)(f := None)"
    "fld event_status k2 = (fld event_status k)(f := CN_STS_EVENT_READY)" "fld evtt_id k2 f = word_of_nat i OR CN_EVTT_ID_MASK"
    "fld param1 k2 f = p1" "fld param2 k2 f = p2"
    by (auto simp: fl ecb_data_def own oe fun_eq_iff)
  have "kwf k2 (walk_insert (\<lambda>x. pr k x \<le> np) f R) D S"
    using wf k2(2) f(3) unfolding W kwf_def by (auto simp: e(4))
  moreover have "free_rep k2 F"
  proof -
    have "nx k1 y = nx k y" "pv k1 y = pv k y" if "y \<in> set F" for y using that f(4) oe [of y] by (metis, metis)
    then have "free_rep k1 F" using sp hd1(4) fpath_cong [of F "nx k1" "nx k" "nx k f"] by (auto simp: spare_def free_rep_def)
    then show ?thesis
    proof (rule free_rep_cong)
      show "nx k2 y = nx k1 y \<and> pv k2 y = pv k1 y" if "y \<in> set F" for y
        using that sp f(4) relinked_outside [OF k2(3), of y] by (auto simp: spare_def)
    qed (simp add: r)
  qed
  then have "spare k2 (walk_insert (\<lambda>x. pr k x \<le> np) f R) D S F" using sp f(4) by (auto simp: spare_def)
  moreover have "evtts k1 = (evtts k)(i := (evtts k i)\<lparr>events := events (evtts k i) + 1, inuse := True, correlativeID := fld event_id k f\<rparr>)"
    "ptEventRunning k1 = ptEventRunning k" "nest_asyn_signal k1 = nest_asyn_signal k"
    "en_asyn_signal_counter k1 = en_asyn_signal_counter k" "kernel.more k1 = kernel.more k"
    by (auto simp: k1_def upd_evtt_def upd_ecb_def set_cell_def)
  ultimately show ?thesis using eval k2(1) e by (auto simp: r)
qed

lemma pop_stable:
  "stable_on Y (pop_wakes hid i) k" "stable_on Y (pop_counts hid i) k"
proof -
  have "pop_counts hid i y k1 = pop_counts hid i y k" "fld sync_counter k1 = c" if "qframe (counted c k) k1" for c k1 y
    using qframe_kernel(3) [OF that] qframe_data [OF that] by (simp_all add: pop_counts_def)
  then show "stable_on Y (pop_wakes hid i) k" "stable_on Y (pop_counts hid i) k"
    by (auto simp: stable_on_def pop_wakes_def)
qed


text \<open>Popping by event identifier reads a member of the event's type before it checks that the event exists: for the
  identifier of a free block, whose type number is \<open>CN_EVENT_ID_INVALID\<close>, the access is outside the table of types.\<close>

theorem EventPop_free_block:
  assumes "unat hid < cfg_event_limit k" "hid < 16384" "fld evtt_id k (unat hid) = CN_EVENT_ID_INVALID_ID"
    and "cfg_evtt_limit k \<le> 16384" "timeout = 0 \<or> DJY_QuerySch k"
  shows "DJY_EventPop E hid timeout p1 p2 pri k = None"
proof -
  have "evtt_index CN_EVENT_ID_INVALID_ID = 0xBFFF" by (simp add: evtt_index_def CN_EVENT_ID_INVALID_ID_def CN_EVTT_ID_MASK_def)
  moreover have "\<not> (16384 \<le> hid \<and> hid \<le> 32767)" using assms(2) by auto
  ultimately have "pop_type hid k = Inr 0xBFFF" using assms by (simp add: pop_type_def)
  then show ?thesis using assms(4,5) by (auto simp: DJY_EventPop_def)
qed

lemma busy_spare: "spare (busy_kernel m) [1, 0] [2, 3] busy_syncs [8, 9]"
  unfolding spare_def
proof (intro conjI ballI)
  show "free_rep (busy_kernel m) [8, 9]" by (simp add: free_rep_def busy_defs)
  show "f \<notin> set [1, 0] \<union> set [2, 3]" "\<forall>h. f \<notin> set (busy_syncs h)" if "f \<in> set [8, 9]" for f
    using that by (auto simp: busy_syncs_def)
qed



theorem EventPop_free_block_witness: "DJY_EventPop sample_env 9 0 11 12 0 (busy_kernel ()) = None"
  by (rule EventPop_free_block) (simp_all add: busy_defs CN_EVENT_ID_INVALID_ID_def)

end
