(* ===== verification/Djy_Final.thy ===== *)
theory Djy_Final
  imports Djy_Event
begin

text \<open>
  The end of an event (\<open>__DJY_EventFinal\<close> and \<open>__DJY_EventExit\<close> of \<open>src/djyos/core/djyos.c\<close>): the events that
  wait for it or for its type are woken, its block returns to the list of free blocks, and its thread is
  kept for the type or put on the list of threads that the idle event frees.  Neither function returns:
  the model ends with the switch to the next event, recorded in \<open>kout\<close>.

  \<open>cleanup\<close> is the action of \<open>__Heap_CleanUp\<close>, which releases the memory an event has left allocated.
  Reports to the black box are not modelled.  The source's third way to treat a thread is never taken,
  since \<open>vm_final\<close> is always one of the first two.
\<close>

section \<open>Definitions\<close>

definition done_counts :: "nat \<Rightarrow> 'a kernel_scheme \<Rightarrow> bool" where
  "done_counts x k = (fld sync_counter k x \<noteq> 0)"

definition done_wakes :: "nat \<Rightarrow> nat \<Rightarrow> 'a kernel_scheme \<Rightarrow> bool" where
  "done_wakes i x k = (fld sync_counter k x = 1 \<or> fld sync_counter k x = 0 \<and> vpus (evtts k i) = 1)"

text \<open>The block of the running event leaves the ready queue and becomes the first free block.\<close>

definition free_block :: "'a kernel_scheme \<Rightarrow> 'a kernel_scheme option" where
  "free_block k = do {
     let run = ptEventRunning k;
     k \<leftarrow> DJY_CutReadyEvent run k;
     let k = set_previous run (Some ev_free_addr) k;
     let k = set_next run (ptEventFree k) k;
     let k = set_fld evtt_id_update run CN_EVTT_ID_INVALID k;
     let k = k\<lparr>ptEventFree := Some run\<rparr>;
     Some (set_fld event_id_update run (word_of_nat run) k) }"

text \<open>What happens to the thread: \<^const>\<open>True\<close> stands for \<open>CN_KEEP\<close>.\<close>

definition final_vm :: "nat \<Rightarrow> 'a kernel_scheme \<Rightarrow> 'a kernel_scheme \<times> bool" where
  "final_vm i k =
     (let t = evtts k i; unused = upd_evtt i (\<lambda>t. t\<lparr>inuse := False\<rparr>) k in
      if correlative t then (unused, default_prio t < 0x80)
      else if vpus t \<le> events t then (k, True)
      else if vpus t \<le> vpus_res t then (k, True)
      else if vpus t = 1 then (unused, default_prio t < 0x80)
      else (k, False))"

partial_function (option) retire_vms :: "nat option \<Rightarrow> 'a kernel_scheme \<Rightarrow> 'a kernel_scheme option" where
  "retire_vms next_vm k = (case next_vm of None \<Rightarrow> Some k
     | Some temp \<Rightarrow>
         retire_vms (vm_next (vms k temp))
           ((upd_vm temp (\<lambda>v. v\<lparr>vm_next := ptWaitFreeVm k\<rparr>) k)\<lparr>ptWaitFreeVm := Some temp\<rparr>))"

definition final_unregist :: "nat \<Rightarrow> 'a kernel_scheme \<Rightarrow> 'a kernel_scheme option" where
  "final_unregist i k =
     (if \<not> inuse (evtts k i) \<and> deleting (evtts k i) then
        retire_vms (my_free_vm (evtts k i)) (upd_evtt i (\<lambda>t. t\<lparr>registered := False, evtt_name := []\<rparr>) k)
      else Some k)"

text \<open>The switch that does not save the context.\<close>

definition turn_to_ready :: "'a kernel_scheme \<Rightarrow> 'a kernel_scheme" where
  "turn_to_ready k =
     (let k = k\<lparr>ptEventRunning := ptEventReady k\<rparr>;
          k = k\<lparr>RunningStartTime := SysTime k\<rparr>
      in Int_HalfEnableAsynSignal (SchHook_call (ptEventRunning k) True k))"

definition final_switch :: "'a kernel_scheme stack_env \<Rightarrow> nat \<Rightarrow> bool \<Rightarrow> 'a kernel_scheme \<Rightarrow> 'a kernel_scheme option" where
  "final_switch E i keep k = do {
     k \<leftarrow> DJY_SelectEventToRun E k;
     v \<leftarrow> fld vm k (ptEventRunning k);
     if keep then do {
       let k = upd_vm v (\<lambda>w. w\<lparr>vm_next := my_free_vm (evtts k i)\<rparr>) k;
       let k = upd_evtt i (\<lambda>t. t\<lparr>my_free_vm := Some v\<rparr>) k;
       let k = k\<lparr>kout := kout k @ [HookCall (SchHook (evtts k i)) False]\<rparr>;
       let k = turn_to_ready k;
       let k = upd_vm v (\<lambda>w. w\<lparr>stack_used := stack_top w\<rparr>) k;
       Some (k\<lparr>kout := kout k @ [ResetSwitch (thread_routine (evtts k i)) (fld vm k (ptEventRunning k)) (Some v)]\<rparr>) }
     else do {
       let k = upd_vm v (\<lambda>w. w\<lparr>vm_next := ptWaitFreeVm k\<rparr>) k;
       let k = k\<lparr>ptWaitFreeVm := Some v\<rparr>;
       let k = upd_evtt i (\<lambda>t. t\<lparr>vpus := vpus t - 1\<rparr>) k;
       let k = turn_to_ready k;
       Some (k\<lparr>kout := kout k @ [TurnToContext (fld vm k (ptEventRunning k))]\<rparr>) } }"

definition final_cleanup :: "(u16 \<Rightarrow> 'a kernel_scheme \<Rightarrow> 'a kernel_scheme option) \<Rightarrow> 'a kernel_scheme \<Rightarrow> 'a kernel_scheme option" where
  "final_cleanup cleanup k =
     (if fld local_memory k (ptEventRunning k) \<noteq> 0 then cleanup (fld event_id k (ptEventRunning k)) k else Some k)"

definition DJY_EventFinal ::
    "'a kernel_scheme stack_env \<Rightarrow> (u16 \<Rightarrow> 'a kernel_scheme \<Rightarrow> 'a kernel_scheme option) \<Rightarrow> u32 \<Rightarrow>
     'a kernel_scheme \<Rightarrow> 'a kernel_scheme option" where
  "DJY_EventFinal E cleanup result k = do {
     let i = evtt_index (fld evtt_id k (ptEventRunning k));
     k \<leftarrow> final_cleanup cleanup k;
     let k = Int_ResetAsynSignal k;
     k \<leftarrow> sync_wake_all result CN_STS_WAIT_EVENT_DONE (cells k (EcbSync (ptEventRunning k))) k;
     k \<leftarrow> sync_scan_all (EvttDone i) (done_wakes i) done_counts CN_STS_WAIT_EVTT_DONE k;
     k \<leftarrow> free_block k;
     let k = upd_evtt i (\<lambda>t. t\<lparr>events := events t - 1\<rparr>) k;
     let (k, keep) = final_vm i k;
     k \<leftarrow> final_unregist i k;
     final_switch E i keep k }"

definition DJY_EventExit ::
    "'a kernel_scheme stack_env \<Rightarrow> (u16 \<Rightarrow> 'a kernel_scheme \<Rightarrow> 'a kernel_scheme option) \<Rightarrow> knl_error \<Rightarrow>
     'a kernel_scheme \<Rightarrow> 'a kernel_scheme option" where
  "DJY_EventExit E cleanup exit_code k = do {
     let k = DJY_SaveLastError exit_code k;
     k \<leftarrow> final_cleanup cleanup k;
     let k = Int_ResetAsynSignal k;
     k \<leftarrow> DJY_ActiveEventSyncExp (cells k (EcbSync (ptEventRunning k))) k;
     let i = evtt_index (fld evtt_id k (ptEventRunning k));
     k \<leftarrow> free_block k;
     let k = upd_evtt i (\<lambda>t. t\<lparr>events := events t - 1\<rparr>) k;
     k \<leftarrow> sync_scan_all (EvttDone i) (done_wakes i) done_counts CN_STS_WAIT_EVTT_DONE k;
     let (k, keep) = final_vm i k;
     k \<leftarrow> final_unregist i k;
     final_switch E i keep k }"

section \<open>The queue of the ended event\<close>

text \<open>The events that waited for the ended one have left, but its \<open>sync\<close> member still points to the first of
  them; it is cleared when the block is used again.  No operation on the way to the next event looks at it.\<close>

lemma set_cell_upd:
  "upd_ecb i f (set_cell h v k) = set_cell h v (upd_ecb i f k)"
  "(set_cell h v k)\<lparr>ptEventReady := e\<rparr> = set_cell h v (k\<lparr>ptEventReady := e\<rparr>)"
  "(set_cell h v k)\<lparr>ptEventDelay := d\<rparr> = set_cell h v (k\<lparr>ptEventDelay := d\<rparr>)"
  "(set_cell h v k)\<lparr>ptEventFree := d\<rparr> = set_cell h v (k\<lparr>ptEventFree := d\<rparr>)"
  "upd_evtt j g (set_cell h v k) = set_cell h v (upd_evtt j g k)"
  "init_vm w l (set_cell h v k) = set_cell h v (init_vm w l k)"
  "set_cell h v (set_cell h u k) = set_cell h v k"
  by (simp_all add: set_cell_def upd_ecb_def upd_evtt_def init_vm_def upd_vm_def)

lemma set_cell_other: "h' \<noteq> h \<Longrightarrow> set_cell h' u (set_cell h v k) = set_cell h v (set_cell h' u k)"
  by (simp add: set_cell_def fun_upd_twist)

lemmas blind_simps = set_cell_upd set_ecb_defs map_bind if_bind Option.bind_assoc

lemma blind_EventReady: "DJY_EventReady e (set_cell h v k) = map_option (set_cell h v) (DJY_EventReady e k)"
  unfolding DJY_EventReady_def Let_def
  by (simp add: blind_simps if_distrib [of "map_option (set_cell h v)"] if_distrib [of "set_cell h v"] cong: if_cong)

lemma blind_unlink: "unlink e (set_cell h v k) = map_option (set_cell h v) (unlink e k)"
  unfolding unlink_def Let_def by (simp add: blind_simps)

lemma blind_leave_delay: "leave_delay e (set_cell h v k) = map_option (set_cell h v) (leave_delay e k)"
proof (cases "ptEventDelay k")
  case (Some d)
  then show ?thesis
    by (simp add: leave_delay_def DJY_ResumeDelay_def DJY_GetSysTick_def Let_def blind_simps blind_unlink bind_map_option comp_def)
qed (simp add: leave_delay_def DJY_ResumeDelay_def)

lemma blind_cut_multi: "cut_multi e q (set_cell h v k) = map_option (set_cell h v) (cut_multi e q k)"
  unfolding cut_multi_def Let_def
  by (simp add: blind_simps if_distrib [of "map_option (set_cell h v)"] cong: if_cong)

lemma blind_CutReadyEvent: "DJY_CutReadyEvent e (set_cell h v k) = map_option (set_cell h v) (DJY_CutReadyEvent e k)"
  unfolding DJY_CutReadyEvent_def Let_def
  by (simp add: blind_simps blind_unlink blind_cut_multi bind_map_option comp_def)

lemma blind_free_block: "free_block (set_cell h v k) = map_option (set_cell h v) (free_block k)"
  unfolding free_block_def Let_def
  by (simp add: blind_simps blind_CutReadyEvent bind_map_option comp_def)

lemma blind_sync_scan:
  assumes "sync_scan h' ok dec reason e k = Some k'"
    and "\<And>x k. ok x (set_cell h v k) = ok x k" "\<And>x k. dec x (set_cell h v k) = dec x k" "h' \<noteq> h"
  shows "sync_scan h' ok dec reason e (set_cell h v k) = Some (set_cell h v k')"
  using assms
proof (induction rule: sync_scan.raw_induct [rotated, consumes 1, case_names step])
  case (step scan h' ok dec reason x k k')
  have IH: "sync_scan h' ok dec reason n (set_cell h v j) = Some (set_cell h v j')" if "scan h' ok dec reason n j = Some j'" for n j j'
    by (rule step.IH [OF that]) (use step.prems in auto)
  show ?case
  proof (cases "ok x k")
    case True
    obtain kd where kd: "leave_delay x (set_fld sync_head_update x None k) = Some kd"
      using step.hyps True by (auto simp: Let_def bind_eq_Some_conv)
    show ?thesis
      using step.hyps True kd step.prems
      by (subst sync_scan.simps)
        (auto simp: Let_def blind_simps blind_leave_delay blind_EventReady set_cell_other bind_eq_Some_conv intro: IH split: if_splits)
  next
    case False
    then show ?thesis
      using step.hyps step.prems
      by (subst sync_scan.simps) (auto simp: Let_def blind_simps intro: IH split: if_splits option.splits)
  qed
qed

lemma blind_sync_scan_all:
  assumes "sync_scan_all h' ok dec reason k = Some k'"
    and "\<And>x k. ok x (set_cell h v k) = ok x k" "\<And>x k. dec x (set_cell h v k) = dec x k" "h' \<noteq> h"
  shows "sync_scan_all h' ok dec reason (set_cell h v k) = Some (set_cell h v k')"
  using assms blind_sync_scan [of h' ok dec reason _ k k' h v] by (auto simp: sync_scan_all_def split: option.splits)

text \<open>The allocator of stacks does not look at the queue of a single event.\<close>

definition cell_blind :: "'a kernel_scheme stack_env \<Rightarrow> qhead \<Rightarrow> bool" where
  "cell_blind E h \<longleftrightarrow> (\<forall>e len k k' r v. se_malloc E e len k = Some (k', r) \<longrightarrow>
     se_malloc E e len (set_cell h v k) = Some (set_cell h v k', r))"

lemma blind_CreateThread:
  assumes "cell_blind E h" "DJY_CreateThread E t k = Some (k', r)"
  shows "DJY_CreateThread E t (set_cell h v k) = Some (set_cell h v k', r)"
proof -
  obtain k1 r1 where k1: "se_malloc E (ptEventReady k) (align_up_sys (stack_size (evtts k t))) k = Some (k1, r1)"
    using assms(2) by (auto simp: DJY_CreateThread_def Let_def bind_eq_Some_conv)
  then have "se_malloc E (ptEventReady k) (align_up_sys (stack_size (evtts k t))) (set_cell h v k) = Some (set_cell h v k1, r1)"
    using assms(1) unfolding cell_blind_def by blast
  then show ?thesis using k1 assms(2)
    by (auto simp: DJY_CreateThread_def Let_def DJY_SaveLastError_def set_cell_upd split: option.splits)
qed

lemma blind_SelectEventToRun:
  assumes "DJY_SelectEventToRun E k = Some k'" "cell_blind E h"
  shows "DJY_SelectEventToRun E (set_cell h v k) = Some (set_cell h v k')"
  using assms
proof (induction rule: DJY_SelectEventToRun.raw_induct [rotated, consumes 1, case_names step])
  case (step sel E k k')
  have IH: "DJY_SelectEventToRun E (set_cell h v j) = Some (set_cell h v j')" if "sel E j = Some j'" for j j'
    by (rule step.IH [OF that step.prems])
  show ?case
  proof (cases "fld vm k (ptEventReady k) = None")
    case True
    show ?thesis
    proof (cases "my_free_vm (evtts k (evtt_index (fld evtt_id k (ptEventReady k))))")
      case None
      then obtain k1 r where k1: "DJY_CreateThread E (evtt_index (fld evtt_id k (ptEventReady k))) k = Some (k1, r)"
        using True step.hyps by (auto simp: Let_def bind_eq_Some_conv)
      from blind_CreateThread [OF step.prems k1, of v] show ?thesis using True None step.hyps k1
        by (subst DJY_SelectEventToRun.simps) (auto simp: Let_def set_cell_upd intro: IH split: option.splits)
    next
      case (Some w)
      then show ?thesis using True step.hyps
        by (subst DJY_SelectEventToRun.simps) (simp add: Let_def set_cell_upd IH)
    qed
  next
    case False
    then show ?thesis using step.hyps by (subst DJY_SelectEventToRun.simps) (simp add: Let_def)
  qed
qed

section \<open>The block and the thread\<close>

lemma free_block_rep:
  assumes wf: "kwf k R D S" and run: "ptEventRunning k \<in> set R" "R \<noteq> [ptEventRunning k]" and sp: "spare k R D S F"
  defines "run \<equiv> ptEventRunning k"
  shows "\<exists>k'. free_block k = Some k' \<and> kwf k' (remove1 run R) D S \<and> spare k' (remove1 run R) D S (run # F) \<and>
    fld vm k' = fld vm k \<and> pr k' = pr k \<and> fld event_result k' = fld event_result k \<and> fld wakeup_from k' = fld wakeup_from k \<and>
    fld evtt_id k' run = CN_EVTT_ID_INVALID \<and> evtts k' = evtts k \<and> ptEventRunning k' = run \<and> cells k' = cells k \<and>
    ptWaitFreeVm k' = ptWaitFreeVm k"
proof -
  note inv = kwf_kinv [OF wf]
  note I = kinvD [OF inv]
  obtain k1 where k1: "DJY_CutReadyEvent run k = Some k1" "kinv k1 (remove1 run R) D S" "relinked (set R) k k1"
    using kinv_CutReadyEvent [OF inv run] by (auto simp: run_def)
  note r = relinked_data [OF k1(3)] relinked_kernel [OF k1(3)] relinked_pr [OF k1(3)]
  define k2 where "k2 = set_fld event_id_update run (word_of_nat run) ((set_fld evtt_id_update run CN_EVTT_ID_INVALID
    (set_next run (ptEventFree k) (set_previous run (Some ev_free_addr) k1)))\<lparr>ptEventFree := Some run\<rparr>)"
  have eval: "free_block k = Some k2" using k1(1) by (simp add: free_block_def run_def [symmetric] k2_def Let_def r set_ecb_defs)
  have dR: "distinct R" by (rule ready_repD(6) [OF I(1)])
  have out: "run \<notin> set (remove1 run R)" "run \<notin> set D" "run \<notin> set (S h)" for h
    using dR I(4) I(5) [of h] run(1) by (auto simp: run_def)
  have inv2: "kinv k2 (remove1 run R) D S"
    by (rule kinv_local [OF k1(2)]) (use out in \<open>auto simp: k2_def set_ecb_defs\<close>)
  have fl: "fld g k1 = fld g k" if "\<And>e. g (ecb_data e) = g e" for g :: "EventECB \<Rightarrow> 'v"
    using relinked_fld [OF k1(3), of g] that by blast
  have e2: "fld vm k2 = fld vm k" "pr k2 = pr k" "fld event_result k2 = fld event_result k" "fld wakeup_from k2 = fld wakeup_from k"
    "fld event_status k2 = fld event_status k" by (simp_all add: k2_def set_ecb_defs fl ecb_data_def)
  have "kwf k2 (remove1 run R) D S" using wf inv2 by (auto simp: kwf_def e2 dest: notin_set_remove1 in_set_remove1 [THEN iffD1])
  moreover have "free_rep k2 (run # F)"
  proof -
    have f: "y \<notin> set R" "y \<noteq> run" if "y \<in> set F" for y using sp that run by (auto simp: spare_def run_def)
    have "nx k2 y = nx k y" "pv k2 y = pv k y" if "y \<in> set F" for y
      using f [OF that] relinked_outside [OF k1(3), of y] by (simp_all add: k2_def set_ecb_defs)
    then show ?thesis using sp fpath_cong [of F "nx k2" "nx k" "ptEventFree k"] f(2)
      by (auto simp: spare_def free_rep_def k2_def set_ecb_defs)
  qed
  ultimately show ?thesis using eval e2 sp out run_def by (auto simp: spare_def k2_def r set_ecb_defs dest: notin_set_remove1)
qed

lemma done_stable: "stable_on Y (done_wakes i) k" "stable_on Y done_counts k"
proof -
  have "evtts k1 = evtts k" "fld sync_counter k1 = c" if "qframe (counted c k) k1" for c k1
    using qframe_kernel(3) [OF that] qframe_data [OF that] by simp_all
  then show "stable_on Y (done_wakes i) k" "stable_on Y done_counts k" by (auto simp: stable_on_def done_wakes_def done_counts_def)
qed

lemma spare_cong:
  assumes sp: "spare k R D S F" and eq: "ptEventFree k' = ptEventFree k"
    "\<And>x. x \<notin> set R \<union> set D \<union> \<Union> (set ` S ` H) \<Longrightarrow> ecbs k' x = ecbs k x"
    and sub: "set R' \<union> set D' \<subseteq> set R \<union> set D \<union> \<Union> (set ` S ` H)" "\<And>h. set (S' h) \<subseteq> set (S h)"
  shows "spare k' R' D' S' F"
proof -
  have o: "f \<notin> set R \<union> set D" "\<And>h. f \<notin> set (S h)" if "f \<in> set F" for f using sp that by (auto simp: spare_def)
  have "ecbs k' f = ecbs k f" if "f \<in> set F" for f by (rule eq(2)) (use o [OF that] in auto)
  then have "free_rep k' F" using sp free_rep_cong [OF _ eq(1)] by (auto simp: spare_def fld_def)
  moreover have "f \<notin> set R' \<union> set D'" "f \<notin> set (S' h)" if "f \<in> set F" for f h using o [OF that] sub by blast+
  ultimately show ?thesis by (auto simp: spare_def)
qed

text \<open>Both queues of waiting events: \<open>k2\<close> is the state they leave, but for the stale \<open>sync\<close> of the event.\<close>

lemma waiters_woken:
  fixes reason result :: u32 and k :: "'a kernel_scheme" and e i :: nat
  assumes wf: "kwf k R D S" and sp: "spare k R D S F"
  defines "h \<equiv> EcbSync e" and "g \<equiv> EvttDone i"
  defines "Q \<equiv> S h" and "W \<equiv> filter (\<lambda>y. done_wakes i y k) (S g)"
  defines "R1 \<equiv> enq_all (pr k) W (enq_all (pr k) Q R)" and "D1 \<equiv> fold remove1 W (fold remove1 Q D)"
    and "S1 \<equiv> S(h := [], g := filter (\<lambda>y. \<not> done_wakes i y k) (S g))"
  shows "\<exists>k1 k2 v. sync_wake_all result reason (cells k h) k = Some k1 \<and>
    sync_scan_all g (done_wakes i) done_counts CN_STS_WAIT_EVTT_DONE k1 = Some (set_cell h v k2) \<and>
    kwf k2 R1 D1 S1 \<and> spare k2 R1 D1 S1 F \<and>
    (\<forall>x\<in>set Q. fld event_result k2 x = result \<and> fld wakeup_from k2 x = reason) \<and>
    (\<forall>x\<in>set W. fld wakeup_from k2 x = CN_STS_WAIT_EVTT_DONE) \<and>
    fld vm k2 = fld vm k \<and> pr k2 = pr k \<and> fld evtt_id k2 = fld evtt_id k \<and> evtts k2 = evtts k \<and> ptEventRunning k2 = ptEventRunning k"
proof -
  note I = kinvD [OF kwf_kinv [OF wf]]
  obtain k1 where k1: "sync_wake_all result reason (cells k h) k = Some k1"
      "kwf (set_cell h None k1) (enq_all (pr k) Q R) (fold remove1 Q D) (S(h := []))"
      "qframe (fold (\<lambda>x. set_fld event_result_update x result) Q k) k1"
      "fld wakeup_from k1 = (\<lambda>x. if x \<in> set Q then reason else fld wakeup_from k x)"
      "\<forall>x. x \<notin> set Q \<union> set R \<union> set D \<longrightarrow> ecbs k1 x = ecbs k x"
    using sync_wake_all_rep [OF wf, of result reason h] unfolding Q_def by blast
  note f1 = qframe_kernel [OF k1(3)] qframe_data [OF k1(3)]
  define K1 where "K1 = set_cell h None k1"
  have ev: "evtts (fold (\<lambda>x. set_fld event_result_update x result) Q k) = evtts k"
    "ptEventFree (fold (\<lambda>x. set_fld event_result_update x result) Q k) = ptEventFree k" for Q k
    by (induction Q arbitrary: k) simp_all
  have e1: "pr K1 = pr k" "fld vm K1 = fld vm k" "evtts K1 = evtts k" "fld sync_counter K1 = fld sync_counter k"
    "ptEventRunning K1 = ptEventRunning k" "fld evtt_id K1 = fld evtt_id k" "ptEventFree K1 = ptEventFree k" "cells K1 = (cells k1)(h := None)"
    by (simp_all add: K1_def f1 fld_fold_result ev)
  have res: "fld event_result K1 = (\<lambda>x. if x \<in> set Q then result else fld event_result k x)"
    using qframe_fld [OF k1(3), of event_result] by (simp add: fold_result K1_def ecb_core_def)
  have gh: "g \<noteq> h" by (simp add: g_def h_def)
  have W: "W = filter (\<lambda>y. done_wakes i y K1) ((S(h := [])) g)" "S1 = (S(h := []))(g := filter (\<lambda>y. \<not> done_wakes i y K1) ((S(h := [])) g))"
    using gh by (auto simp: W_def S1_def done_wakes_def e1)
  obtain k2 where k2: "sync_scan_all g (done_wakes i) done_counts CN_STS_WAIT_EVTT_DONE K1 = Some k2" "kwf k2 R1 D1 S1"
      "qframe (counted (\<lambda>y. if y \<in> set ((S(h := [])) g) \<and> \<not> done_wakes i y K1 \<and> done_counts y K1 then fld sync_counter K1 y - 1
         else fld sync_counter K1 y) K1) k2"
      "fld wakeup_from k2 = (\<lambda>y. if y \<in> set W then CN_STS_WAIT_EVTT_DONE else fld wakeup_from K1 y)"
      "\<forall>y. y \<notin> set (enq_all (pr k) Q R) \<union> set (fold remove1 Q D) \<union> set (S g) \<longrightarrow> ecbs k2 y = ecbs K1 y"
    using sync_scan_all_rep [OF k1(2) [folded K1_def] done_stable, of g i CN_STS_WAIT_EVTT_DONE] gh
    unfolding W(1) [symmetric] W(2) [symmetric] R1_def D1_def e1(1) by auto
  note f2 = qframe_kernel [OF k2(3)] qframe_data [OF k2(3)]
  have sD: "set (fold remove1 Q D) = set D - set Q" "set D1 = set D - set Q - set W"
    using delay_repD(5) [OF I(2)] delay_repD(5) [OF kinvD(2) [OF kwf_kinv [OF k1(2)]]] by (simp_all add: D1_def set_fold_remove1)
  have "sync_scan_all g (done_wakes i) done_counts CN_STS_WAIT_EVTT_DONE (set_cell h (cells k1 h) K1) = Some (set_cell h (cells k1 h) k2)"
    by (rule blind_sync_scan_all [OF k2(1)]) (simp_all add: done_wakes_def done_counts_def gh)
  moreover have "set_cell h (cells k1 h) K1 = k1" by (simp add: K1_def set_cell_def)
  moreover have "spare k2 R1 D1 S1 F"
  proof (rule spare_cong [OF sp, where H = "{h, g}"])
    fix x assume x: "x \<notin> set R \<union> set D \<union> \<Union> (set ` S ` {h, g})"
    then show "ecbs k2 x = ecbs k x" using k2(5) k1(5) by (auto simp: set_enq_all sD [unfolded Q_def] Q_def K1_def)
  qed (auto simp: f2 e1 R1_def set_enq_all sD [unfolded Q_def] Q_def W_def S1_def)
  moreover have "set Q \<inter> set W = {}" using I(8) [of g h] gh by (auto simp: Q_def W_def)
  then have "\<forall>x\<in>set Q. fld event_result k2 x = result \<and> fld wakeup_from k2 x = reason"
    using qframe_fld [OF k2(3), of event_result] res by (auto simp: k2(4) k1(4) K1_def ecb_core_def)
  ultimately show ?thesis using k1(1) k2(2) by (auto simp: k2(4) f2 e1)
qed

lemma final_vm_fld [simp]:
  "ptEventReady (fst (final_vm i k)) = ptEventReady k" "ptEventDelay (fst (final_vm i k)) = ptEventDelay k"
  "ptEventRunning (fst (final_vm i k)) = ptEventRunning k" "cells (fst (final_vm i k)) = cells k"
  "ptEventFree (fst (final_vm i k)) = ptEventFree k" "fld f (fst (final_vm i k)) = fld f k"
  "deleting (evtts (fst (final_vm i k)) j) = deleting (evtts k j)"
  by (simp_all add: final_vm_def Let_def upd_evtt_def)

lemma final_vm_cell:
  "final_vm i (set_cell h v k) = map_prod (set_cell h v) id (final_vm i k)"
  "snd (final_vm i k') = snd (final_vm i k)" if "evtts k' i = evtts k i"
  using that by (simp_all add: final_vm_def Let_def set_cell_upd)

lemma turn_to_ready_simps [simp]:
  "ptEventRunning (turn_to_ready k) = ptEventReady k" "ptEventReady (turn_to_ready k) = ptEventReady k"
  "ptEventDelay (turn_to_ready k) = ptEventDelay k" "cells (turn_to_ready k) = cells k" "fld f (turn_to_ready k) = fld f k"
  "kernel.more (turn_to_ready k) = kernel.more k" "evtts (turn_to_ready k) = evtts k" "ptWaitFreeVm (turn_to_ready k) = ptWaitFreeVm k"
  by (simp_all add: turn_to_ready_def Let_def Int_HalfEnableAsynSignal_def SchHook_call_def)

lemma final_switch_settles:
  assumes E: "stack_provider E" and inv: "kinv k R D S" and i: "idle \<in> set R" "fld vm k idle \<noteq> None"
    and run: "fld vm k (ptEventRunning k) = Some v" and B: "cell_blind E h" and c: "cells k h = None"
  shows "\<exists>k' R'. final_switch E i keep (set_cell h u k) = Some k' \<and> settled k R (set_cell h None k') R' D \<and>
    ptEventRunning k' = ptEventReady k' \<and> (if keep then my_free_vm (evtts k' i) = Some v else ptWaitFreeVm k' = Some v)"
proof -
  obtain k1 R' where k1: "DJY_SelectEventToRun E k = Some k1" "settled k R k1 R' D" "ptEventRunning k1 = ptEventRunning k"
    using SelectEventToRun_settles [OF E inv i] by blast
  have none: "set_cell h None k = k" by (simp add: set_cell_def c fun_upd_idem)
  have none1: "cells k1 h = None"
    using blind_SelectEventToRun [OF k1(1) B, of None] k1(1) unfolding none by (metis fun_upd_same option.inject set_cell_simps(1))
  have sel: "DJY_SelectEventToRun E (set_cell h u k) = Some (set_cell h u k1)" by (rule blind_SelectEventToRun [OF k1(1) B])
  have v1: "fld vm k1 (ptEventRunning k1) = Some v" using k1(2,3) run by (simp add: settled_def)
  define K where "K = (if keep then (let k = upd_vm v (\<lambda>w. w\<lparr>vm_next := my_free_vm (evtts k1 i)\<rparr>) (set_cell h u k1);
      k = upd_evtt i (\<lambda>t. t\<lparr>my_free_vm := Some v\<rparr>) k; k = k\<lparr>kout := kout k @ [HookCall (SchHook (evtts k i)) False]\<rparr>;
      k = upd_vm v (\<lambda>w. w\<lparr>stack_used := stack_top w\<rparr>) (turn_to_ready k)
    in k\<lparr>kout := kout k @ [ResetSwitch (thread_routine (evtts k i)) (fld vm k (ptEventRunning k)) (Some v)]\<rparr>)
    else (let k = upd_evtt i (\<lambda>t. t\<lparr>vpus := vpus t - 1\<rparr>) ((upd_vm v (\<lambda>w. w\<lparr>vm_next := ptWaitFreeVm k1\<rparr>) (set_cell h u k1))\<lparr>ptWaitFreeVm := Some v\<rparr>);
      k = turn_to_ready k in k\<lparr>kout := kout k @ [TurnToContext (fld vm k (ptEventRunning k))]\<rparr>))"
  have eval: "final_switch E i keep (set_cell h u k) = Some K"
    by (simp add: final_switch_def sel v1 K_def Let_def)
  have "cells (set_cell h None K) = cells k1" using none1 by (auto simp: K_def Let_def)
  moreover have fl: "fld g K = fld g k1" for g :: "EventECB \<Rightarrow> 'v" by (simp add: K_def Let_def)
  moreover have "ptEventReady K = ptEventReady k1" "ptEventDelay K = ptEventDelay k1" "kernel.more (set_cell h None K) = kernel.more k1"
    by (simp_all add: K_def Let_def upd_vm_def set_cell_def)
  ultimately have "settled k R (set_cell h None K) R' D"
    by (intro settled_cong [OF k1(2)]) (simp_all add: fl)
  moreover have "ptEventRunning K = ptEventReady K" "if keep then my_free_vm (evtts K i) = Some v else ptWaitFreeVm K = Some v"
    by (simp_all add: K_def Let_def upd_evtt_def upd_vm_def)
  ultimately show ?thesis using eval by blast
qed



end
