(* ===== verification/Djy_Bytes.thy ===== *)
theory Djy_Bytes
  imports Djy_Prelude
begin

text \<open>
  Pieces of memory: lists of bytes, read and written at an offset.  \<open>memcpy\<close> is \<open>mem_read\<close> followed by \<open>mem_write\<close>,
  and an access that leaves the piece of memory is the outcome \<^const>\<open>None\<close>.
\<close>

definition mem_read :: "u8 list \<Rightarrow> nat \<Rightarrow> nat \<Rightarrow> u8 list option" where
  "mem_read m off n = (if off + n \<le> length m then Some (take n (drop off m)) else None)"

definition mem_write :: "u8 list \<Rightarrow> nat \<Rightarrow> u8 list \<Rightarrow> u8 list option" where
  "mem_write m off d = (if off + length d \<le> length m then Some (take off m @ d @ drop (off + length d) m) else None)"

definition memcpy :: "u8 list \<Rightarrow> nat \<Rightarrow> u8 list \<Rightarrow> nat \<Rightarrow> u32 \<Rightarrow> u8 list option" where
  "memcpy dst doff src soff n = do {
     d \<leftarrow> mem_read src soff (unat n);
     mem_write dst doff d }"

lemma mem_write_nth:
  assumes "mem_write m off d = Some m'"
  shows "length m' = length m" "off + length d \<le> length m"
    "k < length m \<Longrightarrow> m' ! k = (if off \<le> k \<and> k < off + length d then d ! (k - off) else m ! k)"
  using assms by (auto simp: mem_write_def nth_append split: if_splits)

lemma memcpy_nth:
  assumes "memcpy m off b j n = Some m'"
  shows "length m' = length m" "off + unat n \<le> length m" "j + unat n \<le> length b"
    "k < length m \<Longrightarrow> m' ! k = (if off \<le> k \<and> k < off + unat n then b ! (j + (k - off)) else m ! k)"
proof -
  obtain d where d: "mem_read b j (unat n) = Some d" "mem_write m off d = Some m'"
    using assms by (auto simp: memcpy_def bind_eq_Some_conv)
  then have b: "j + unat n \<le> length b" "d = take (unat n) (drop j b)" by (auto simp: mem_read_def split: if_splits)
  then have "length d = unat n" by simp
  then show "length m' = length m" "off + unat n \<le> length m" "j + unat n \<le> length b"
    "k < length m \<Longrightarrow> m' ! k = (if off \<le> k \<and> k < off + unat n then b ! (j + (k - off)) else m ! k)"
    using mem_write_nth [OF d(2)] b by (auto simp: add.commute)
qed

lemma memcpy_Some: "off + unat n \<le> length m \<Longrightarrow> j + unat n \<le> length b \<Longrightarrow> \<exists>m'. memcpy m off b j n = Some m'"
  by (simp add: memcpy_def mem_read_def mem_write_def)

end
