(* ===== verification/Djy_Ring.thy ===== *)
theory Djy_Ring
  imports Djy_Bytes
begin

text \<open>
  The ring buffer (\<open>src/component/buffer/ring.c\<close>) and the linear buffer (\<open>src/component/buffer/line.c\<close>).

  A buffer owns a piece of memory, a list of bytes; a copy that leaves its memory is the outcome \<^const>\<open>None\<close>.  All offsets and lengths are
  32-bit words and are computed with wrap-around as the source does.  A buffer passed by the caller is the
  list of the bytes that may be read there.  The low level atomic sections around the updates of \<open>len\<close>
  have no effect of their own in this sequential model.  \<open>char\<close> is unsigned, as on the ARM targets.

  Both modules promise a queue of bytes; this contract is the locale \<open>byte_fifo\<close>.
\<close>

section \<open>Searching\<close>

definition CN_LIMIT_UINT32 :: u32 where "CN_LIMIT_UINT32 = 0xFFFFFFFF"

text \<open>A loop that looks for the first index with a property; the test may leave the buffer.\<close>

fun first_match :: "(nat \<Rightarrow> bool option) \<Rightarrow> nat list \<Rightarrow> nat option option" where
  "first_match t [] = Some None"
| "first_match t (i # is) = (case t i of None \<Rightarrow> None | Some True \<Rightarrow> Some (Some i) | Some False \<Rightarrow> first_match t is)"

definition same_bytes :: "u8 list \<Rightarrow> nat \<Rightarrow> u8 list \<Rightarrow> nat \<Rightarrow> nat \<Rightarrow> bool option" where
  "same_bytes buf i s j n = do {
     a \<leftarrow> mem_read buf i n;
     b \<leftarrow> mem_read s j n;
     Some (a = b) }"

section \<open>The ring buffer\<close>

record RingBuf =
  rlen :: u32
  offset_read :: u32
  offset_write :: u32
  max_len :: u32
  rbuf :: "u8 list"

definition Ring_Init :: "u8 list \<Rightarrow> u32 \<Rightarrow> RingBuf" where
  "Ring_Init buf n = \<lparr>rlen = 0, offset_read = 0, offset_write = 0, max_len = n, rbuf = buf\<rparr>"

definition Ring_Capacity :: "RingBuf \<Rightarrow> u32" where
  "Ring_Capacity ring = max_len ring"

definition Ring_GetBuf :: "RingBuf \<Rightarrow> u8 list" where
  "Ring_GetBuf ring = rbuf ring"

definition Ring_Write :: "u8 list \<Rightarrow> u32 \<Rightarrow> RingBuf \<Rightarrow> (RingBuf \<times> u32) option" where
  "Ring_Write buffer n ring =
     (let wr_len = max_len ring - rlen ring in
      if wr_len = 0 then Some (ring, 0)
      else let wr_len = (if wr_len > n then n else wr_len) in do {
        ring \<leftarrow> (if offset_write ring + wr_len > max_len ring then do {
            let partial = max_len ring - offset_write ring;
            m \<leftarrow> memcpy (rbuf ring) (unat (offset_write ring)) buffer 0 partial;
            m \<leftarrow> memcpy m 0 buffer (unat partial) (wr_len - partial);
            Some (ring\<lparr>rbuf := m, offset_write := wr_len - partial\<rparr>) }
          else do {
            m \<leftarrow> memcpy (rbuf ring) (unat (offset_write ring)) buffer 0 wr_len;
            Some (ring\<lparr>rbuf := m, offset_write := offset_write ring + wr_len\<rparr>) });
        Some (ring\<lparr>rlen := rlen ring + wr_len\<rparr>, wr_len) })"

definition Ring_PseudoWrite :: "u32 \<Rightarrow> RingBuf \<Rightarrow> RingBuf \<times> u32" where
  "Ring_PseudoWrite n ring =
     (let wr_len = max_len ring - rlen ring in
      if wr_len = 0 then (ring, 0)
      else let wr_len = (if wr_len > n then n else wr_len);
               ring = (if offset_write ring + wr_len > max_len ring
                       then ring\<lparr>offset_write := wr_len - (max_len ring - offset_write ring)\<rparr>
                       else ring\<lparr>offset_write := offset_write ring + wr_len\<rparr>)
           in (ring\<lparr>rlen := rlen ring + wr_len\<rparr>, wr_len))"

text \<open>The bytes that the caller finds in its buffer are the second component.\<close>

definition Ring_Read :: "u32 \<Rightarrow> RingBuf \<Rightarrow> (RingBuf \<times> u8 list \<times> u32) option" where
  "Ring_Read n ring =
     (let wr_len = (if rlen ring < n then rlen ring else n) in do {
        (ring, d) \<leftarrow> (if offset_read ring + wr_len > max_len ring then do {
            let partial = max_len ring - offset_read ring;
            a \<leftarrow> mem_read (rbuf ring) (unat (offset_read ring)) (unat partial);
            b \<leftarrow> mem_read (rbuf ring) 0 (unat (wr_len - partial));
            Some (ring\<lparr>offset_read := wr_len - partial\<rparr>, a @ b) }
          else do {
            a \<leftarrow> mem_read (rbuf ring) (unat (offset_read ring)) (unat wr_len);
            Some (ring\<lparr>offset_read := offset_read ring + wr_len\<rparr>, a) });
        Some (ring\<lparr>rlen := rlen ring - wr_len\<rparr>, d, wr_len) })"

definition Ring_Check :: "RingBuf \<Rightarrow> u32" where "Ring_Check ring = rlen ring"
definition Ring_IsEmpty :: "RingBuf \<Rightarrow> bool" where "Ring_IsEmpty ring = (rlen ring = 0)"
definition Ring_IsFull :: "RingBuf \<Rightarrow> bool" where "Ring_IsFull ring = (rlen ring = max_len ring)"
definition Ring_CheckFree :: "RingBuf \<Rightarrow> u32" where "Ring_CheckFree ring = max_len ring - rlen ring"

definition Ring_PseudoRead :: "u32 \<Rightarrow> RingBuf \<Rightarrow> RingBuf \<times> u32" where
  "Ring_PseudoRead n ring =
     (let result = (if rlen ring < n then rlen ring else n);
          ring = (if offset_read ring + result > max_len ring
                  then ring\<lparr>offset_read := result + offset_read ring - max_len ring\<rparr>
                  else ring\<lparr>offset_read := offset_read ring + result\<rparr>)
      in (ring\<lparr>rlen := rlen ring - result\<rparr>, result))"

definition Ring_RecedeRead :: "u32 \<Rightarrow> u8 list option \<Rightarrow> RingBuf \<Rightarrow> (RingBuf \<times> u32) option" where
  "Ring_RecedeRead n buf ring =
     (let result = (if max_len ring - rlen ring > n then n else max_len ring - rlen ring) in do {
        ring \<leftarrow> (if offset_read ring < result then do {
            let ring = ring\<lparr>offset_read := max_len ring - (result - offset_read ring)\<rparr>;
            let offset = n - result;
            case buf of
              None \<Rightarrow> Some ring
            | Some b \<Rightarrow> do {
                m \<leftarrow> memcpy (rbuf ring) (unat (offset_read ring)) b (unat offset) (max_len ring - offset_read ring);
                let offset = offset + (max_len ring - offset_read ring);
                m \<leftarrow> memcpy m 0 b (unat offset) (result - max_len ring - offset_read ring);
                Some (ring\<lparr>rbuf := m\<rparr>) } }
          else do {
            let ring = ring\<lparr>offset_read := offset_read ring - result\<rparr>;
            case buf of
              None \<Rightarrow> Some ring
            | Some b \<Rightarrow> do {
                m \<leftarrow> memcpy (rbuf ring) (unat (offset_read ring)) b (unat (n - result)) result;
                Some (ring\<lparr>rbuf := m\<rparr>) } });
        Some (ring\<lparr>rlen := rlen ring + result\<rparr>, result) })"

definition Ring_Clean :: "RingBuf \<Rightarrow> RingBuf" where
  "Ring_Clean ring = ring\<lparr>offset_write := 0, offset_read := 0, rlen := 0\<rparr>"

definition Ring_SkipTail :: "u32 \<Rightarrow> RingBuf \<Rightarrow> RingBuf \<times> u32" where
  "Ring_SkipTail sz ring =
     (if rlen ring > sz then
        (let ring = (if offset_write ring < sz
                     then ring\<lparr>offset_write := max_len ring - (sz - offset_write ring)\<rparr>
                     else ring\<lparr>offset_write := offset_write ring - sz\<rparr>)
         in (ring\<lparr>rlen := rlen ring - sz\<rparr>, sz))
      else (Ring_Clean ring, rlen ring))"

definition ch_at :: "u8 list \<Rightarrow> u8 \<Rightarrow> nat \<Rightarrow> bool option" where
  "ch_at buf c i = (if i < length buf then Some (buf ! i = c) else None)"

definition Ring_SearchCh :: "u8 \<Rightarrow> RingBuf \<Rightarrow> u32 option" where
  "Ring_SearchCh c ring =
     (if offset_read ring > offset_write ring then do {
        r \<leftarrow> first_match (ch_at (rbuf ring) c) [unat (offset_read ring)..<unat (max_len ring)];
        case r of
          Some i \<Rightarrow> Some (word_of_nat i - offset_read ring)
        | None \<Rightarrow> do {
            r \<leftarrow> first_match (ch_at (rbuf ring) c) [0..<unat (offset_write ring)];
            Some (case r of Some i \<Rightarrow> word_of_nat i - offset_read ring + max_len ring | None \<Rightarrow> CN_LIMIT_UINT32) } }
      else do {
        r \<leftarrow> first_match (ch_at (rbuf ring) c) [unat (offset_read ring)..<unat (offset_write ring)];
        Some (case r of Some i \<Rightarrow> word_of_nat i - offset_read ring | None \<Rightarrow> CN_LIMIT_UINT32) })"

text \<open>The test of the loops over the seam of the buffer: \<open>end\<close> characters at its end, \<open>start\<close> at its beginning.\<close>

definition seam_match :: "u8 list \<Rightarrow> u32 \<Rightarrow> RingBuf \<Rightarrow> nat \<Rightarrow> bool option" where
  "seam_match s str_len ring i =
     (let end = max_len ring - word_of_nat i; start = str_len - end in do {
        a \<leftarrow> same_bytes (rbuf ring) i s 0 (unat end);
        if a then same_bytes (rbuf ring) 0 s (unat start) (unat start) else Some False })"

definition found_at :: "RingBuf \<Rightarrow> nat option \<Rightarrow> u32" where
  "found_at ring r = (case r of Some i \<Rightarrow> word_of_nat i - offset_read ring | None \<Rightarrow> CN_LIMIT_UINT32)"

definition Ring_SearchStr :: "u8 list \<Rightarrow> u32 \<Rightarrow> RingBuf \<Rightarrow> u32 option" where
  "Ring_SearchStr s str_len ring =
     (let inner = (\<lambda>i. same_bytes (rbuf ring) i s 0 (unat str_len)); r0 = unat (offset_read ring) in
      if rlen ring < str_len then Some CN_LIMIT_UINT32
      else if offset_read ring \<le> offset_write ring then
        map_option (found_at ring) (first_match inner [r0..<unat (offset_write ring - str_len) + 1])
      else do {
        r \<leftarrow> first_match inner [r0..<unat (max_len ring - str_len) + 1];
        if r \<noteq> None then Some (found_at ring r)
        else let i = max r0 (unat (max_len ring - str_len) + 1) in
          if offset_write ring \<ge> str_len then do {
            r \<leftarrow> first_match (seam_match s str_len ring) [i..<unat (max_len ring)];
            if r \<noteq> None then Some (found_at ring r)
            else map_option (found_at ring) (first_match inner [0..<unat (offset_write ring - str_len)]) }
          else map_option (found_at ring)
                 (first_match (seam_match s str_len ring) [i..<unat (offset_read ring + rlen ring - str_len)]) })"

text \<open>\<open>mem\<close> is the memory after the header that \<open>malloc\<close> returned, \<open>None\<close> when it failed.\<close>

definition Ring_Create :: "u8 list option \<Rightarrow> u32 \<Rightarrow> RingBuf option" where
  "Ring_Create mem dwLen = map_option (\<lambda>buf.
     \<lparr>rlen = 0, offset_read = 0, offset_write = 0, max_len = dwLen, rbuf = buf\<rparr>) mem"

text \<open>The memory goes back to the heap by \<open>free\<close>.\<close>

definition Ring_Destroy :: "RingBuf option \<Rightarrow> int" where
  "Ring_Destroy pRing = (case pRing of None \<Rightarrow> - 1 | Some _ \<Rightarrow> 0)"

section \<open>The linear buffer\<close>

record LineBuf =
  current :: u32
  limit :: u32
  lbuf :: "u8 list"

definition Line_Init :: "u8 list \<Rightarrow> u32 \<Rightarrow> LineBuf" where
  "Line_Init buf n = \<lparr>current = 0, limit = n, lbuf = buf\<rparr>"

definition Line_Capacity :: "LineBuf \<Rightarrow> u32" where "Line_Capacity line = limit line"

definition Line_SkipTail :: "u32 \<Rightarrow> LineBuf \<Rightarrow> LineBuf \<times> u32" where
  "Line_SkipTail n line =
     (if current line > n then (line\<lparr>current := current line - n\<rparr>, n) else (line\<lparr>current := 0\<rparr>, current line))"

definition Line_Write :: "u8 list \<Rightarrow> u32 \<Rightarrow> LineBuf \<Rightarrow> (LineBuf \<times> u32) option" where
  "Line_Write buffer n line =
     (let wr_len = limit line - current line in
      if wr_len = 0 then Some (line, 0)
      else let wr_len = (if wr_len > n then n else wr_len) in do {
        m \<leftarrow> memcpy (lbuf line) (unat (current line)) buffer 0 wr_len;
        Some (line\<lparr>lbuf := m, current := current line + wr_len\<rparr>, wr_len) })"

definition Line_Read :: "LineBuf \<Rightarrow> (LineBuf \<times> u8 list \<times> u32) option" where
  "Line_Read line = do {
     d \<leftarrow> mem_read (lbuf line) 0 (unat (current line));
     Some (line\<lparr>current := 0\<rparr>, d, current line) }"

definition Line_GetBuf :: "LineBuf \<Rightarrow> u8 list" where "Line_GetBuf line = lbuf line"
definition Line_Check :: "LineBuf \<Rightarrow> u32" where "Line_Check line = current line"
definition Line_IsEmpty :: "LineBuf \<Rightarrow> bool" where "Line_IsEmpty line = (current line = 0)"
definition Line_IsFull :: "LineBuf \<Rightarrow> bool" where "Line_IsFull line = (current line = limit line)"
definition Line_Flush :: "LineBuf \<Rightarrow> LineBuf" where "Line_Flush line = line\<lparr>current := 0\<rparr>"
definition Line_CheckFree :: "LineBuf \<Rightarrow> u32" where "Line_CheckFree line = limit line - current line"

definition line_found :: "nat option \<Rightarrow> u32" where
  "line_found r = (case r of Some i \<Rightarrow> word_of_nat i | None \<Rightarrow> CN_LIMIT_UINT32)"

definition Line_SearchCh :: "u8 \<Rightarrow> LineBuf \<Rightarrow> u32 option" where
  "Line_SearchCh c line = map_option line_found (first_match (ch_at (lbuf line) c) [0..<unat (current line)])"

definition Line_SearchStr :: "u8 list \<Rightarrow> u32 \<Rightarrow> LineBuf \<Rightarrow> u32 option" where
  "Line_SearchStr s str_len line =
     (if current line < str_len then Some CN_LIMIT_UINT32
      else map_option line_found
             (first_match (\<lambda>i. same_bytes (lbuf line) i s 0 (unat str_len)) [0..<unat (current line - str_len) + 1]))"

section \<open>The ring buffer as a queue of bytes\<close>

definition ring_wf :: "RingBuf \<Rightarrow> bool" where
  "ring_wf ring \<longleftrightarrow> length (rbuf ring) = unat (max_len ring) \<and> unat (max_len ring) < 2 ^ 31 \<and>
     rlen ring \<le> max_len ring \<and> offset_read ring \<le> max_len ring \<and> offset_write ring \<le> max_len ring \<and>
     (unat (offset_write ring) = unat (offset_read ring) + unat (rlen ring) \<or>
      unat (offset_write ring) + unat (max_len ring) = unat (offset_read ring) + unat (rlen ring))"

definition ring_data :: "RingBuf \<Rightarrow> u8 list" where
  "ring_data ring = take (unat (rlen ring)) (drop (unat (offset_read ring)) (rbuf ring @ rbuf ring))"

lemma ring_data_length: "ring_wf ring \<Longrightarrow> length (ring_data ring) = unat (rlen ring)"
  by (auto simp: ring_wf_def ring_data_def word_le_nat_alt)

text \<open>The effect on the contents of bytes stored from \<open>w\<close> on, with wrap-around.\<close>

lemma ring_put:
  fixes B B' d :: "u8 list"
  assumes "length B' = length B" "r \<le> length B" "l + length d \<le> length B" "w = r + l \<or> w + length B = r + l" "w \<le> length B"
    and B': "\<And>k. k < length B \<Longrightarrow> B' ! k = (if w \<le> k \<and> k < w + length d then d ! (k - w)
         else if k + length B < w + length d then d ! (k + length B - w) else B ! k)"
  shows "take (l + length d) (drop r (B' @ B')) = take l (drop r (B @ B)) @ d"
proof (rule nth_equalityI)
  show "length (take (l + length d) (drop r (B' @ B'))) = length (take l (drop r (B @ B)) @ d)" using assms by simp
  fix i assume i: "i < length (take (l + length d) (drop r (B' @ B')))"
  have len: "length (take l (drop r (B @ B))) = l" using assms by simp
  have two: "(X @ X) ! j = (if j < length X then X ! j else X ! (j - length X))" for X :: "u8 list" and j by (simp add: nth_append)
  show "take (l + length d) (drop r (B' @ B')) ! i = (take l (drop r (B @ B)) @ d) ! i"
  proof (cases "i < l")
    case True
    have "(B' @ B') ! (r + i) = (B @ B) ! (r + i)"
      using True assms(1-5) B' [of "r + i"] B' [of "r + i - length B"] by (auto simp: two)
    then show ?thesis using True assms(1-3) nth_append [of "take l (drop r (B @ B))" d i] len by (simp del: take_append drop_append)
  next
    case False
    have e: "r + i - (length B + w) = i - l" if "w + length B = r + l" using that by linarith
    have "(B' @ B') ! (r + i) = d ! (i - l)"
      using e False i assms(1-5) B' [of "r + i"] B' [of "r + i - length B"] by (auto simp: two)
    then show ?thesis using False i assms(1-3) nth_append [of "take l (drop r (B @ B))" d i] len by (simp del: take_append drop_append)
  qed
qed


text \<open>The words of a well-formed ring as natural numbers.\<close>

lemma ring_wf_nat:
  assumes "ring_wf ring"
  shows "unat (max_len ring - rlen ring) = unat (max_len ring) - unat (rlen ring)"
    "unat (max_len ring - offset_write ring) = unat (max_len ring) - unat (offset_write ring)"
    "unat (max_len ring - offset_read ring) = unat (max_len ring) - unat (offset_read ring)"
    "unat (rlen ring) \<le> unat (max_len ring)" "unat (offset_read ring) \<le> unat (max_len ring)" "unat (offset_write ring) \<le> unat (max_len ring)"
    "length (rbuf ring) = unat (max_len ring)" "unat (max_len ring) < 2 ^ 31"
    "n \<le> max_len ring \<Longrightarrow> unat (offset_write ring + n) = unat (offset_write ring) + unat n"
    "n \<le> max_len ring \<Longrightarrow> unat (offset_read ring + n) = unat (offset_read ring) + unat n"
    "n \<le> max_len ring - rlen ring \<Longrightarrow> unat (rlen ring + n) = unat (rlen ring) + unat n"
  using assms by (auto simp: ring_wf_def word_le_nat_alt unat_sub_if' unat_plus_if')

lemma ring_filled:
  assumes wf: "ring_wf ring" and wr: "wr \<le> max_len ring - rlen ring" "unat wr \<le> length b"
    and w': "w' \<le> max_len ring" "unat w' = unat (offset_write ring) + unat wr \<or>
      0 < unat w' \<and> unat w' + unat (max_len ring) = unat (offset_write ring) + unat wr" and B': "length B' = length (rbuf ring)"
      "\<And>k. k < length (rbuf ring) \<Longrightarrow> B' ! k =
         (if unat (offset_write ring) \<le> k \<and> k < unat (offset_write ring) + unat wr then b ! (k - unat (offset_write ring))
          else if k + length (rbuf ring) < unat (offset_write ring) + unat wr then b ! (k + length (rbuf ring) - unat (offset_write ring))
          else rbuf ring ! k)"
  defines "ring' \<equiv> ring\<lparr>rbuf := B', offset_write := w', rlen := rlen ring + wr\<rparr>"
  shows "ring_wf ring' \<and> ring_data ring' = ring_data ring @ take (unat wr) b \<and> max_len ring' = max_len ring"
proof -
  note W = ring_wf_nat [OF wf]
  have pos: "unat (offset_write ring) = unat (offset_read ring) + unat (rlen ring) \<or>
      unat (offset_write ring) + unat (max_len ring) = unat (offset_read ring) + unat (rlen ring)" using wf by (simp add: ring_wf_def)
  have l: "unat (rlen ring + wr) = unat (rlen ring) + unat wr" "unat (rlen ring) + unat wr \<le> unat (max_len ring)"
    using W(1,4,11) wr(1) by (auto simp: word_le_nat_alt)
  let ?d = "take (unat wr) b"
  have "take (unat (rlen ring) + length ?d) (drop (unat (offset_read ring)) (B' @ B')) =
      take (unat (rlen ring)) (drop (unat (offset_read ring)) (rbuf ring @ rbuf ring)) @ ?d"
  proof (rule ring_put [OF B'(1)])
    fix k assume k: "k < length (rbuf ring)"
    show "B' ! k = (if unat (offset_write ring) \<le> k \<and> k < unat (offset_write ring) + length ?d then ?d ! (k - unat (offset_write ring))
          else if k + length (rbuf ring) < unat (offset_write ring) + length ?d then ?d ! (k + length (rbuf ring) - unat (offset_write ring))
          else rbuf ring ! k)"
      unfolding B'(2) [OF k] using wr(2) W(6,7) by (auto simp: min_def)
  qed (use W pos l wr(2) in \<open>auto simp: min_def\<close>)
  moreover have "length ?d = unat wr" using wr(2) by simp
  ultimately have "ring_data ring' = ring_data ring @ ?d" using l(1) by (simp add: ring_data_def ring'_def del: take_append drop_append)
  moreover have "ring_wf ring'" using wf w' l B'(1) unfolding ring_wf_def ring'_def by (auto simp: word_le_nat_alt)
  ultimately show ?thesis by (simp add: ring'_def)
qed

lemma Ring_Write_rep:
  assumes wf: "ring_wf ring" and b: "unat n \<le> length buffer"
  defines "k \<equiv> min (unat n) (unat (max_len ring) - length (ring_data ring))"
  shows "\<exists>ring'. Ring_Write buffer n ring = Some (ring', word_of_nat k) \<and> ring_wf ring' \<and>
    ring_data ring' = ring_data ring @ take k buffer \<and> max_len ring' = max_len ring"
proof -
  note W = ring_wf_nat [OF wf]
  define wr where "wr = (if max_len ring - rlen ring > n then n else max_len ring - rlen ring)"
  have wr: "unat wr = k" "wr \<le> max_len ring - rlen ring" "wr \<le> max_len ring" "unat wr \<le> length buffer"
    using W(1,4) b by (auto simp: wr_def k_def ring_data_length [OF wf] word_less_nat_alt word_le_nat_alt)
  have kw: "word_of_nat k = wr" by (simp flip: wr(1))
  let ?w = "unat (offset_write ring)" and ?m = "unat (max_len ring)"
  consider "max_len ring - rlen ring = 0" | (wrap) "max_len ring - rlen ring \<noteq> 0" "offset_write ring + wr > max_len ring"
    | (flat) "max_len ring - rlen ring \<noteq> 0" "\<not> offset_write ring + wr > max_len ring" by blast
  then show ?thesis
  proof cases
    case 1
    then have "unat (max_len ring - rlen ring) = 0" by simp
    then have "k = 0" using wr(1,2) by (simp add: word_le_nat_alt)
    then show ?thesis using 1 wf by (simp add: Ring_Write_def)
  next
    case wrap
    define p where "p = max_len ring - offset_write ring"
    have p: "unat p = ?m - ?w" "?m < ?w + unat wr" "unat (wr - p) = unat wr - unat p" "unat p < unat wr" "unat wr \<le> ?m"
      using wrap W(2,6,9) wr(3) by (auto simp: p_def word_less_nat_alt word_le_nat_alt unat_sub_if' split: if_splits)
    have c: "?w + unat p \<le> length (rbuf ring)" "unat p \<le> length buffer" "unat p + unat (wr - p) \<le> length buffer"
        "unat (wr - p) \<le> length (rbuf ring)"
      using p W(6,7) wr(4) by linarith+
    obtain m1 where m1: "memcpy (rbuf ring) ?w buffer 0 p = Some m1" using memcpy_Some [of ?w p "rbuf ring" 0 buffer] c by auto
    note n1 = memcpy_nth [OF m1]
    obtain m2 where m2: "memcpy m1 0 buffer (unat p) (wr - p) = Some m2"
      using memcpy_Some [of 0 "wr - p" m1 "unat p" buffer] n1(1) c by auto
    note n2 = memcpy_nth [OF m2]
    have eval: "Ring_Write buffer n ring = Some (ring\<lparr>rbuf := m2, offset_write := wr - p, rlen := rlen ring + wr\<rparr>, wr)"
      using wrap m1 m2 by (simp add: Ring_Write_def Let_def wr_def [symmetric] p_def [symmetric])
    have "m2 ! j = (if ?w \<le> j \<and> j < ?w + unat wr then buffer ! (j - ?w)
        else if j + length (rbuf ring) < ?w + unat wr then buffer ! (j + length (rbuf ring) - ?w) else rbuf ring ! j)"
      if j: "j < length (rbuf ring)" for j
    proof -
      have "j < unat (wr - p) \<longleftrightarrow> j + ?m < ?w + unat wr" "unat p + j = j + ?m - ?w" "\<not> (?w \<le> j \<and> j < unat (wr - p))"
        "?w + unat p = ?m" using p W(6) wr(1,2) W(1,4) by (auto simp: word_le_nat_alt)
      then show ?thesis using j n2(4) [of j] n1(1) n1(4) [of j] p(2) W(7) by auto
    qed
    from ring_filled [OF wf wr(2,4) _ _ _ this, of "wr - p"] show ?thesis
      using eval kw wr(1) n1(1) n2(1) p W(6) by (auto simp: word_le_nat_alt)
  next
    case flat
    then have fl: "unat (offset_write ring + wr) = ?w + unat wr" "?w + unat wr \<le> ?m"
      using W(9) [OF wr(3)] by (simp_all add: word_less_nat_alt)
    obtain m1 where m1: "memcpy (rbuf ring) ?w buffer 0 wr = Some m1"
      using memcpy_Some [of ?w wr "rbuf ring" 0 buffer] W(7) fl wr(4) by auto
    note n1 = memcpy_nth [OF m1]
    have eval: "Ring_Write buffer n ring = Some (ring\<lparr>rbuf := m1, offset_write := offset_write ring + wr, rlen := rlen ring + wr\<rparr>, wr)"
      using flat m1 by (simp add: Ring_Write_def Let_def wr_def [symmetric])
    have "m1 ! j = (if ?w \<le> j \<and> j < ?w + unat wr then buffer ! (j - ?w)
        else if j + length (rbuf ring) < ?w + unat wr then buffer ! (j + length (rbuf ring) - ?w) else rbuf ring ! j)"
      if j: "j < length (rbuf ring)" for j using j n1(4) [of j] fl(2) W(7) by auto
    from ring_filled [OF wf wr(2,4) _ _ n1(1) this, of "offset_write ring + wr"] show ?thesis
      using eval kw wr(1) fl by (auto simp: word_le_nat_alt)
  qed
qed


lemma Ring_Read_rep:
  fixes n :: u32
  assumes wf: "ring_wf ring"
  defines "k \<equiv> min (unat n) (length (ring_data ring))"
  shows "\<exists>ring'. Ring_Read n ring = Some (ring', take k (ring_data ring), word_of_nat k) \<and> ring_wf ring' \<and>
    ring_data ring' = drop k (ring_data ring) \<and> max_len ring' = max_len ring"
proof -
  note W = ring_wf_nat [OF wf]
  define wr where "wr = (if rlen ring < n then rlen ring else n)"
  have wr: "unat wr = k" "wr \<le> rlen ring" "wr \<le> max_len ring"
    using W(4) by (auto simp: wr_def k_def ring_data_length [OF wf] word_less_nat_alt word_le_nat_alt)
  have kw: "word_of_nat k = wr" by (simp flip: wr(1))
  let ?r = "unat (offset_read ring)" and ?m = "unat (max_len ring)" and ?B = "rbuf ring" and ?l = "unat (rlen ring)"
  have l: "unat (rlen ring - wr) = ?l - k" "k \<le> ?l" using wr(1,2) by (simp_all add: unat_sub_if' word_le_nat_alt)
  have pos: "unat (offset_write ring) = ?r + ?l \<or> unat (offset_write ring) + ?m = ?r + ?l" using wf by (simp add: ring_wf_def)
  show ?thesis
  proof (cases "offset_read ring + wr > max_len ring")
    case True
    define p where "p = max_len ring - offset_read ring"
    have p: "unat p = ?m - ?r" "unat (wr - p) = k - unat p" "unat p < k" "k \<le> ?m"
      using True W(3,5,10) wr by (auto simp: p_def word_less_nat_alt word_le_nat_alt unat_sub_if' split: if_splits)
    have ab: "mem_read ?B ?r (unat p) = Some (drop ?r ?B)" "mem_read ?B 0 (unat (wr - p)) = Some (take (k - unat p) ?B)"
      using p W(5,7) by (auto simp: mem_read_def)
    have d: "drop ?r ?B @ take (k - unat p) ?B = take k (ring_data ring)"
      using p l W(5,7) by (simp add: ring_data_def min_def)
    have "drop k (take ?l (drop ?r (?B @ ?B))) = take (?l - k) (drop (?r + k - ?m) (?B @ ?B))"
    proof -
      have mn: "min (?m - ?r) ?l = ?m - ?r" using p l(2) by simp
      have "drop k (take ?l (drop ?r (?B @ ?B))) = take (?l - k) (drop (?r + k - ?m) ?B)"
        using p W(5,7) mn by (simp add: drop_take add.commute)
      also have "\<dots> = take (?l - k) (drop (?r + k - ?m) (?B @ ?B))" using p l W(4,5,7) pos by simp
      finally show ?thesis .
    qed
    moreover have "k - unat p = ?r + k - ?m" using p W(5) by simp
    ultimately have data: "drop k (ring_data ring) = ring_data (ring\<lparr>offset_read := wr - p, rlen := rlen ring - wr\<rparr>)"
      using l p(2) by (simp add: ring_data_def del: take_append drop_append)
    moreover have "ring_wf (ring\<lparr>offset_read := wr - p, rlen := rlen ring - wr\<rparr>)"
      using wf p l pos W(5) unfolding ring_wf_def by (auto simp: word_le_nat_alt)
    moreover have "Ring_Read n ring = Some (ring\<lparr>offset_read := wr - p, rlen := rlen ring - wr\<rparr>, take k (ring_data ring), wr)"
      using True ab by (simp add: Ring_Read_def Let_def wr_def [symmetric] p_def [symmetric] d)
    ultimately show ?thesis using kw by auto
  next
    case False
    then have fl: "unat (offset_read ring + wr) = ?r + k" "?r + k \<le> ?m" using W(10) [OF wr(3)] wr(1) by (simp_all add: word_less_nat_alt)
    have "mem_read ?B ?r (unat wr) = Some (take k (ring_data ring))"
      using fl l W(7) wr(1) by (auto simp: mem_read_def ring_data_def min_def)
    then have "Ring_Read n ring = Some (ring\<lparr>offset_read := offset_read ring + wr, rlen := rlen ring - wr\<rparr>, take k (ring_data ring), wr)"
      using False by (simp add: Ring_Read_def Let_def wr_def [symmetric])
    moreover have "drop k (ring_data ring) = ring_data (ring\<lparr>offset_read := offset_read ring + wr, rlen := rlen ring - wr\<rparr>)"
      using l fl by (simp add: ring_data_def drop_take add.commute del: take_append drop_append)
    moreover have "ring_wf (ring\<lparr>offset_read := offset_read ring + wr, rlen := rlen ring - wr\<rparr>)"
      using wf fl l pos unfolding ring_wf_def by (auto simp: word_le_nat_alt)
    ultimately show ?thesis using kw by auto
  qed
qed

text \<open>The contract of both modules: a bounded queue of bytes.  \<open>put d\<close> stores as many bytes of \<open>d\<close> as there is
  room for, \<open>get n\<close> takes up to \<open>n\<close> bytes from the front.\<close>

datatype fifo_op = Put "u8 list" | Get u32

text \<open>Running a sequence of operations: the bytes accepted and the bytes delivered.\<close>

fun fifo_run :: "(u8 list \<Rightarrow> 's \<Rightarrow> ('s \<times> u32) option) \<Rightarrow> (u32 \<Rightarrow> 's \<Rightarrow> ('s \<times> u8 list \<times> u32) option) \<Rightarrow> fifo_op list \<Rightarrow> 's \<Rightarrow>
    ('s \<times> u8 list \<times> u8 list) option" where
  "fifo_run put get [] s = Some (s, [], [])"
| "fifo_run put get (Put d # os) s = do {
     (s, n) \<leftarrow> put d s;
     (s, a, r) \<leftarrow> fifo_run put get os s;
     Some (s, take (unat n) d @ a, r) }"
| "fifo_run put get (Get m # os) s = do {
     (s, d, n) \<leftarrow> get m s;
     (s, a, r) \<leftarrow> fifo_run put get os s;
     Some (s, a, d @ r) }"

locale byte_fifo =
  fixes inv :: "'s \<Rightarrow> bool" and data :: "'s \<Rightarrow> u8 list" and cap :: "'s \<Rightarrow> nat"
    and put :: "u8 list \<Rightarrow> 's \<Rightarrow> ('s \<times> u32) option" and get :: "u32 \<Rightarrow> 's \<Rightarrow> ('s \<times> u8 list \<times> u32) option"
    and ask :: "u32 \<Rightarrow> 's \<Rightarrow> nat"
  assumes bound: "inv s \<Longrightarrow> length (data s) \<le> cap s"
    and put_law: "inv s \<Longrightarrow> length d < 2 ^ 32 \<Longrightarrow> \<exists>s' n. put d s = Some (s', n) \<and> inv s' \<and> cap s' = cap s \<and>
      unat n = min (length d) (cap s - length (data s)) \<and> data s' = data s @ take (unat n) d"
    and get_law: "inv s \<Longrightarrow> \<exists>s' n. get m s = Some (s', take (unat n) (data s), n) \<and> inv s' \<and> cap s' = cap s \<and>
      unat n = min (ask m s) (length (data s)) \<and> data s' = drop (unat n) (data s)"
begin

lemma in_order:
  assumes "inv s" "\<forall>d. Put d \<in> set os \<longrightarrow> length d < 2 ^ 32"
  shows "\<exists>s' a r. fifo_run put get os s = Some (s', a, r) \<and> inv s' \<and> cap s' = cap s \<and> data s @ a = r @ data s'"
  using assms
proof (induction os arbitrary: s)
  case (Cons x os)
  show ?case
  proof (cases x)
    case (Put d)
    then obtain s1 n where s1: "put d s = Some (s1, n)" "inv s1" "cap s1 = cap s" "data s1 = data s @ take (unat n) d"
      using put_law [OF Cons.prems(1), of d] Cons.prems(2) by auto
    with Cons.IH [OF s1(2)] Cons.prems(2) show ?thesis by (fastforce simp: Put)
  next
    case (Get m)
    obtain s1 n where s1: "get m s = Some (s1, take (unat n) (data s), n)" "inv s1" "cap s1 = cap s" "data s1 = drop (unat n) (data s)"
      using get_law [OF Cons.prems(1), of m] by auto
    obtain s' a r where s': "fifo_run put get os s1 = Some (s', a, r)" "inv s'" "cap s' = cap s1" "data s1 @ a = r @ data s'"
      using Cons.IH [OF s1(2)] Cons.prems(2) by auto
    have "data s @ a = take (unat n) (data s) @ data s1 @ a" using s1(4) by (metis append.assoc append_take_drop_id)
    then show ?thesis using s1(1,3) s' by (simp add: Get)
  qed
qed simp

lemma run_bounded:
  assumes "inv s" "\<forall>d. Put d \<in> set os \<longrightarrow> length d < 2 ^ 32" "fifo_run put get os s = Some (s', a, r)"
  shows "length (data s') \<le> cap s"
  using in_order [OF assms(1,2)] assms(3) bound by force

end

interpretation rb: byte_fifo ring_wf ring_data "\<lambda>ring. unat (max_len ring)" "\<lambda>d. Ring_Write d (word_of_nat (length d))" Ring_Read "\<lambda>n _. unat n"
proof
  show "length (ring_data s) \<le> unat (max_len s)" if "ring_wf s" for s
    using ring_data_length [OF that] ring_wf_nat(4) [OF that] by simp
  fix s :: RingBuf and d :: "u8 list"
  assume s: "ring_wf s" and d: "length d < 2 ^ 32"
  then have n: "unat (word_of_nat (length d) :: u32) = length d" by (simp add: unat_of_nat take_bit_eq_mod)
  let ?k = "min (length d) (unat (max_len s) - length (ring_data s))"
  have "?k < 2 ^ 32" using d by auto
  then have k: "unat (word_of_nat ?k :: u32) = ?k" by (simp add: unat_of_nat take_bit_eq_mod)
  show "\<exists>s' n. Ring_Write d (word_of_nat (length d)) s = Some (s', n) \<and> ring_wf s' \<and> unat (max_len s') = unat (max_len s) \<and>
      unat n = ?k \<and> ring_data s' = ring_data s @ take (unat n) d"
    using Ring_Write_rep [OF s, of "word_of_nat (length d)" d] k unfolding n by fastforce
next
  fix s :: RingBuf and m :: u32
  assume s: "ring_wf s"
  let ?k = "min (unat m) (length (ring_data s))"
  have "?k < 2 ^ 32" using unsigned_less [of m, where ?'a = nat] by (simp add: min_less_iff_disj)
  then have k: "unat (word_of_nat ?k :: u32) = ?k" by (simp add: unat_of_nat take_bit_eq_mod)
  show "\<exists>s' n. Ring_Read m s = Some (s', take (unat n) (ring_data s), n) \<and> ring_wf s' \<and> unat (max_len s') = unat (max_len s) \<and>
      unat n = ?k \<and> ring_data s' = drop (unat n) (ring_data s)"
    using Ring_Read_rep [OF s, of m] k by fastforce
qed

definition line_wf :: "LineBuf \<Rightarrow> bool" where
  "line_wf line \<longleftrightarrow> length (lbuf line) = unat (limit line) \<and> current line \<le> limit line"

definition line_data :: "LineBuf \<Rightarrow> u8 list" where
  "line_data line = take (unat (current line)) (lbuf line)"

lemma line_data_length: "line_wf line \<Longrightarrow> length (line_data line) = unat (current line)"
  by (simp add: line_wf_def line_data_def word_le_nat_alt)

lemma Line_Write_rep:
  assumes wf: "line_wf line" and b: "unat n \<le> length buffer"
  defines "k \<equiv> min (unat n) (unat (limit line) - length (line_data line))"
  shows "\<exists>line'. Line_Write buffer n line = Some (line', word_of_nat k) \<and> line_wf line' \<and>
    line_data line' = line_data line @ take k buffer \<and> limit line' = limit line"
proof -
  have W: "unat (limit line - current line) = unat (limit line) - unat (current line)" "unat (current line) \<le> unat (limit line)"
      "length (lbuf line) = unat (limit line)"
    using wf by (auto simp: line_wf_def word_le_nat_alt unat_sub_if')
  define wr where "wr = (if limit line - current line > n then n else limit line - current line)"
  have wr: "unat wr = k" "unat wr \<le> length buffer" "unat (current line) + unat wr \<le> unat (limit line)"
    using W b by (auto simp: wr_def k_def line_data_length [OF wf] word_less_nat_alt)
  have kw: "word_of_nat k = wr" by (simp flip: wr(1))
  have cw: "unat (current line + wr) = unat (current line) + k"
    using wr unsigned_less [of "limit line", where ?'a = nat] by (simp add: unat_plus_if')
  show ?thesis
  proof (cases "limit line - current line = 0")
    case True
    then have "unat (limit line - current line) = 0" by simp
    then have "k = 0" using W by (simp add: k_def line_data_length [OF wf])
    then show ?thesis using True wf by (simp add: Line_Write_def)
  next
    case False
    let ?m = "take (unat (current line)) (lbuf line) @ take k buffer @ drop (unat (current line) + k) (lbuf line)"
    have "memcpy (lbuf line) (unat (current line)) buffer 0 wr = Some ?m"
      using wr W(3) by (simp add: memcpy_def mem_read_def mem_write_def min_def)
    then have "Line_Write buffer n line = Some (line\<lparr>lbuf := ?m, current := current line + wr\<rparr>, wr)"
      using False by (simp add: Line_Write_def Let_def wr_def [symmetric])
    moreover have "line_wf (line\<lparr>lbuf := ?m, current := current line + wr\<rparr>)"
      using W wr cw by (auto simp: line_wf_def word_le_nat_alt)
    moreover have "line_data (line\<lparr>lbuf := ?m, current := current line + wr\<rparr>) = line_data line @ take k buffer"
      using W wr cw by (auto simp: line_data_def)
    ultimately show ?thesis using kw by auto
  qed
qed

interpretation lb: byte_fifo line_wf line_data "\<lambda>line. unat (limit line)" "\<lambda>d. Line_Write d (word_of_nat (length d))" "\<lambda>_. Line_Read"
  "\<lambda>_ line. length (line_data line)"
proof
  show "length (line_data s) \<le> unat (limit s)" if "line_wf s" for s
    using that line_data_length [OF that] by (simp add: line_wf_def word_le_nat_alt)
  fix s :: LineBuf and d :: "u8 list"
  assume s: "line_wf s" and d: "length d < 2 ^ 32"
  then have n: "unat (word_of_nat (length d) :: u32) = length d" by (simp add: unat_of_nat take_bit_eq_mod)
  let ?k = "min (length d) (unat (limit s) - length (line_data s))"
  have "?k < 2 ^ 32" using d by auto
  then have k: "unat (word_of_nat ?k :: u32) = ?k" by (simp add: unat_of_nat take_bit_eq_mod)
  show "\<exists>s' n. Line_Write d (word_of_nat (length d)) s = Some (s', n) \<and> line_wf s' \<and> unat (limit s') = unat (limit s) \<and>
      unat n = ?k \<and> line_data s' = line_data s @ take (unat n) d"
    using Line_Write_rep [OF s, of "word_of_nat (length d)" d] k unfolding n by fastforce
next
  fix s :: LineBuf and m :: u32
  assume "line_wf s"
  then show "\<exists>s' n. Line_Read s = Some (s', take (unat n) (line_data s), n) \<and> line_wf s' \<and> unat (limit s') = unat (limit s) \<and>
      unat n = min (length (line_data s)) (length (line_data s)) \<and> line_data s' = drop (unat n) (line_data s)"
    by (auto simp: Line_Read_def mem_read_def line_data_def line_wf_def word_le_nat_alt)
qed

section \<open>Moving back\<close>

lemma Ring_PseudoRead_eq: "Ring_Read n ring = Some (ring', d, k) \<Longrightarrow> Ring_PseudoRead n ring = (ring', k)"
  by (auto simp: Ring_Read_def Ring_PseudoRead_def Let_def bind_eq_Some_conv algebra_simps split: if_splits)

lemma ring_data_eqI:
  assumes "rbuf ring' = rbuf ring" "rlen ring' = rlen ring"
    and "unat (offset_read ring') = unat (offset_read ring) \<or> (unat (offset_read ring') = 0 \<and> unat (offset_read ring) = length (rbuf ring) \<or>
      unat (offset_read ring) = 0 \<and> unat (offset_read ring') = length (rbuf ring)) \<and> unat (rlen ring) \<le> length (rbuf ring)"
  shows "ring_data ring' = ring_data ring"
  using assms by (auto simp: ring_data_def)

lemma Ring_recede:
  assumes wf: "ring_wf ring" and wf': "ring_wf ring'" and read: "Ring_Read n ring = Some (ring', d, k)"
  shows "\<exists>ring''. Ring_RecedeRead k None ring' = Some (ring'', k) \<and> ring_data ring'' = ring_data ring \<and> max_len ring'' = max_len ring \<and>
    rlen ring'' = rlen ring"
proof -
  note W = ring_wf_nat [OF wf]
  define wr where "wr = (if rlen ring < n then rlen ring else n)"
  have wr: "unat wr \<le> unat (rlen ring)" "wr \<le> max_len ring" "wr \<le> rlen ring"
    using W(4) by (auto simp: wr_def word_less_nat_alt word_le_nat_alt)
  have k: "k = wr" "rlen ring' = rlen ring - wr" "rbuf ring' = rbuf ring" "max_len ring' = max_len ring"
    "offset_read ring' = (if offset_read ring + wr > max_len ring then wr - (max_len ring - offset_read ring) else offset_read ring + wr)"
    using read by (auto simp: Ring_Read_def Let_def wr_def [symmetric] bind_eq_Some_conv split: if_splits)
  have r': "unat (offset_read ring') = (if unat (offset_read ring) + unat wr > unat (max_len ring)
      then unat (offset_read ring) + unat wr - unat (max_len ring) else unat (offset_read ring) + unat wr)"
    using W(3,5) W(10) [of wr] wr k(5) by (auto simp: word_less_nat_alt word_le_nat_alt unat_sub_if' split: if_splits)
  have l': "unat (rlen ring') = unat (rlen ring) - unat wr" using wr k(2) by (simp add: unat_sub_if')
  have free: "unat (max_len ring' - rlen ring') = unat (max_len ring) - (unat (rlen ring) - unat wr)"
    using ring_wf_nat(1) [OF wf'] k(4) l' by simp
  define res where "res = (if max_len ring' - rlen ring' > wr then wr else max_len ring' - rlen ring')"
  have "unat res = unat wr" using free wr W(4) by (auto simp: res_def word_less_nat_alt)
  then have res: "res = wr" by (simp add: word_unat_eq_iff)
  define r2 where "r2 = (if offset_read ring' < wr then max_len ring - (wr - offset_read ring') else offset_read ring' - wr)"
  have eval: "Ring_RecedeRead k None ring' = Some (ring'\<lparr>offset_read := r2, rlen := rlen ring\<rparr>, wr)"
    unfolding Ring_RecedeRead_def Let_def k(1) res_def [symmetric] res r2_def using k by simp
  have "unat r2 = (if unat (offset_read ring') < unat wr then unat (max_len ring) - (unat wr - unat (offset_read ring'))
      else unat (offset_read ring') - unat wr)"
    using wr(2) by (auto simp: r2_def word_less_nat_alt word_le_nat_alt unat_sub_if')
  then have "unat r2 = unat (offset_read ring) \<or> (unat r2 = 0 \<and> unat (offset_read ring) = unat (max_len ring)) \<or>
      unat (offset_read ring) = 0 \<and> unat r2 = unat (max_len ring)"
    using r' W(4,5) wr(1) by (auto split: if_splits)
  then have "ring_data (ring'\<lparr>offset_read := r2, rlen := rlen ring\<rparr>) = ring_data ring"
    using W(4,7) k(3) by (intro ring_data_eqI) auto
  then show ?thesis using eval k by simp
qed

lemma Ring_SkipTail_rep:
  assumes wf: "ring_wf ring" and le: "sz < rlen ring"
  shows "ring_wf (fst (Ring_SkipTail sz ring)) \<and> snd (Ring_SkipTail sz ring) = sz \<and>
    ring_data (fst (Ring_SkipTail sz ring)) = take (unat (rlen ring) - unat sz) (ring_data ring) \<and>
    rbuf (fst (Ring_SkipTail sz ring)) = rbuf ring \<and> offset_read (fst (Ring_SkipTail sz ring)) = offset_read ring \<and>
    max_len (fst (Ring_SkipTail sz ring)) = max_len ring \<and> rlen (fst (Ring_SkipTail sz ring)) = rlen ring - sz"
proof -
  note W = ring_wf_nat [OF wf]
  have l: "unat sz < unat (rlen ring)" "unat (rlen ring - sz) = unat (rlen ring) - unat sz"
    using le by (simp_all add: word_less_nat_alt unat_sub_if')
  define w where "w = (if offset_write ring < sz then max_len ring - (sz - offset_write ring) else offset_write ring - sz)"
  have w: "unat w = (if unat (offset_write ring) < unat sz then unat (max_len ring) + unat (offset_write ring) - unat sz
      else unat (offset_write ring) - unat sz)"
    using l W(4,6) by (auto simp: w_def word_less_nat_alt unat_sub_if')
  have eq: "Ring_SkipTail sz ring = (ring\<lparr>offset_write := w, rlen := rlen ring - sz\<rparr>, sz)"
    using le by (simp add: Ring_SkipTail_def w_def Let_def)
  have "ring_wf (ring\<lparr>offset_write := w, rlen := rlen ring - sz\<rparr>)"
    using wf l w W(4-6) unfolding ring_wf_def by (auto simp: word_le_nat_alt split: if_splits)
  moreover have "ring_data (ring\<lparr>offset_write := w, rlen := rlen ring - sz\<rparr>) = take (unat (rlen ring) - unat sz) (ring_data ring)"
    using l by (simp add: ring_data_def del: take_append drop_append)
  ultimately show ?thesis by (simp add: eq)
qed

lemma Ring_unskip:
  assumes wf: "ring_wf ring" and le: "sz < rlen ring"
  shows "snd (Ring_PseudoWrite sz (fst (Ring_SkipTail sz ring))) = sz \<and>
    ring_data (fst (Ring_PseudoWrite sz (fst (Ring_SkipTail sz ring)))) = ring_data ring"
proof -
  define s where "s = fst (Ring_SkipTail sz ring)"
  have s: "ring_wf s" "rbuf s = rbuf ring" "offset_read s = offset_read ring" "max_len s = max_len ring" "rlen s = rlen ring - sz"
    using Ring_SkipTail_rep [OF wf le] by (simp_all add: s_def)
  have l: "unat (rlen ring - sz) = unat (rlen ring) - unat sz" "unat (rlen ring) \<le> unat (max_len ring)" "unat sz < unat (rlen ring)"
    using le ring_wf_nat(4) [OF wf] by (simp_all add: word_less_nat_alt unat_sub_if')
  have free: "unat (max_len s - rlen s) = unat (max_len ring) - (unat (rlen ring) - unat sz)"
    using ring_wf_nat(1) [OF s(1)] s l by simp
  show ?thesis
  proof (cases "max_len s - rlen s = 0")
    case True
    then have "unat (max_len s - rlen s) = 0" by simp
    then have "unat sz = 0" using free l by linarith
    then have "sz = 0" by (simp add: unat_eq_0)
    then show ?thesis using True s unfolding s_def [symmetric] by (simp add: Ring_PseudoWrite_def ring_data_def)
  next
    case False
    have eq: "(if max_len s - rlen s > sz then sz else max_len s - rlen s) = sz"
    proof (rule word_unat_eq_iff [THEN iffD2])
      show "unat (if max_len s - rlen s > sz then sz else max_len s - rlen s) = unat sz"
        using free l by (auto simp: word_less_nat_alt)
    qed
    show ?thesis using False s unfolding s_def [symmetric] Ring_PseudoWrite_def Let_def eq
      by (simp add: ring_data_def)
  qed
qed

text \<open>C18. The ring buffer is a queue: any sequence of \<open>Ring_Write\<close> and \<open>Ring_Read\<close> calls returns, never copies outside the
  memory of the buffer, and the bytes delivered followed by those still buffered are the bytes that were
  accepted, in order; the number of buffered bytes is at most the capacity.\<close>

theorem Ring_fifo:
  assumes "length buf = unat n" "unat n < 2 ^ 31" "\<forall>d. Put d \<in> set os \<longrightarrow> length d < 2 ^ 32"
  shows "\<exists>ring a r. fifo_run (\<lambda>d. Ring_Write d (word_of_nat (length d))) Ring_Read os (Ring_Init buf n) = Some (ring, a, r) \<and>
    a = r @ ring_data ring \<and> length (ring_data ring) = unat (rlen ring) \<and> rlen ring \<le> n"
proof -
  have wf: "ring_wf (Ring_Init buf n)" "ring_data (Ring_Init buf n) = []" "max_len (Ring_Init buf n) = n"
    using assms by (simp_all add: ring_wf_def Ring_Init_def ring_data_def)
  obtain ring a r where r: "fifo_run (\<lambda>d. Ring_Write d (word_of_nat (length d))) Ring_Read os (Ring_Init buf n) = Some (ring, a, r)"
      "ring_wf ring" "unat (max_len ring) = unat n" "a = r @ ring_data ring"
    using rb.in_order [OF wf(1) assms(3)] wf(2,3) by auto
  then show ?thesis using ring_data_length [OF r(2)] ring_wf_nat(4) [OF r(2)] by (simp add: word_le_nat_alt)
qed


text \<open>\<open>Ring_RecedeRead\<close> with new data copies outside the buffer whenever the data cross the end of the memory: the length of the
  second copy is computed as \<open>result - max_len - offset_read\<close>, which wraps around (only a ring that is filled completely
  from offset 0 escapes).\<close>

theorem Ring_RecedeRead_wild:
  fixes n :: u32
  assumes wf: "ring_wf ring" "unat (max_len ring) < 2 ^ 30"
  defines "result \<equiv> (if max_len ring - rlen ring > n then n else max_len ring - rlen ring)"
  assumes cross: "offset_read ring < result" "\<not> (offset_read ring = 0 \<and> result = max_len ring)"
  shows "Ring_RecedeRead n (Some b) ring = None"
proof -
  note W = ring_wf_nat [OF wf(1)]
  define r' where "r' = max_len ring - (result - offset_read ring)"
  have res: "unat result \<le> unat (max_len ring)" "unat (offset_read ring) < unat result"
    using cross(1) W(1) by (auto simp: result_def word_less_nat_alt split: if_splits)
  have r': "unat r' = unat (max_len ring) + unat (offset_read ring) - unat result"
    using res by (simp add: r'_def unat_sub_if')
  have "\<not> (unat (offset_read ring) = 0 \<and> unat result = unat (max_len ring))" using cross(2) by (auto simp: word_unat_eq_iff)
  moreover have "unat (result - max_len ring) = (if result = max_len ring then 0 else 2 ^ 32 + unat result - unat (max_len ring))"
    using res(1) by (auto simp: unat_sub_if' word_unat_eq_iff)
  moreover have sub: "unat (a - r') = (if unat r' \<le> unat a then unat a - unat r' else 2 ^ 32 + unat a - unat r')" for a
    by (auto simp: unat_sub_if')
  note sub [of "result - max_len ring"]
  ultimately have "unat (result - max_len ring - r') > unat (max_len ring)"
    using res r' wf(2) by (cases "result = max_len ring") (simp_all split: if_splits)
  then have wild: "memcpy m 0 b off (result - max_len ring - r') = None" if "length m = unat (max_len ring)" for m off
    using that by (auto simp: memcpy_def mem_read_def mem_write_def)
  show ?thesis
  proof (cases "memcpy (rbuf ring) (unat r') b (unat (n - result)) (max_len ring - r')")
    case None
    then show ?thesis
      using cross(1) unfolding Ring_RecedeRead_def Let_def result_def [symmetric] by (simp add: r'_def [symmetric])
  next
    case (Some m)
    then have "length m = unat (max_len ring)" using memcpy_nth(1) W(7) by metis
    then show ?thesis
      using cross(1) Some wild unfolding Ring_RecedeRead_def Let_def result_def [symmetric] by (simp add: r'_def [symmetric])
  qed
qed

section \<open>Searching\<close>

lemma first_match_cong: "(\<And>i. i \<in> set is \<Longrightarrow> t i = t' i) \<Longrightarrow> first_match t is = first_match t' is"
  by (induction "is") (simp_all split: option.split bool.split)

lemma first_match_find: "first_match (\<lambda>i. Some (P i)) is = Some (find P is)"
  by (induction "is") (simp_all split: bool.split)

lemma map_plus_0 [simp]: "map_option ((+) (0::nat)) x = x"
  by (cases x) simp_all

lemma find_shift: "find P [a..<a + n] = map_option ((+) a) (find (\<lambda>i. P (a + i)) [0..<n])"
proof (induction n)
  case (Suc n)
  have f: "find Q (xs @ [x]) = (case find Q xs of None \<Rightarrow> (if Q x then Some x else None) | Some y \<Rightarrow> Some y)" for Q xs and x :: nat
    by (induction xs) auto
  show ?case using Suc by (simp add: f split: option.split)
qed simp

lemma ch_at_find:
  "a + n \<le> length B \<Longrightarrow> first_match (ch_at B c) [a..<a + n] = Some (map_option ((+) a) (find (\<lambda>i. B ! (a + i) = c) [0..<n]))"
  using first_match_cong [of "[a..<a + n]" "ch_at B c" "\<lambda>i. Some (B ! i = c)"]
  by (simp add: ch_at_def first_match_find find_shift)

lemma find_split:
  "find P [0..<n + m] = (case find P [0..<n] of Some i \<Rightarrow> Some i | None \<Rightarrow> map_option ((+) n) (find (\<lambda>i. P (n + i)) [0..<m]))"
proof -
  have f: "find Q (xs @ ys) = (case find Q xs of None \<Rightarrow> find Q ys | Some y \<Rightarrow> Some y)" for Q and xs ys :: "nat list"
    by (induction xs) auto
  have "[0..<n + m] = [0..<n] @ [n..<n + m]" by (rule upt_add_eq_append) simp
  then show ?thesis by (simp add: f find_shift split: option.split)
qed


text \<open>The reference for the search of a string: the first place where the next \<open>n\<close> bytes are those of \<open>s\<close>.\<close>

definition str_pos :: "u8 list \<Rightarrow> nat \<Rightarrow> u8 list \<Rightarrow> nat option" where
  "str_pos s n d = (if length d < n then None else find (\<lambda>i. take n (drop i d) = take n s) [0..<length d - n + 1])"

lemma same_bytes_find:
  assumes "a + l \<le> length B" "n \<le> l" "n \<le> length s"
  shows "first_match (\<lambda>i. same_bytes B i s 0 n) [a..<a + l - n + 1] = Some (map_option ((+) a) (str_pos s n (take l (drop a B))))"
proof -
  have "first_match (\<lambda>i. same_bytes B i s 0 n) [a..<a + (l - n + 1)] =
      first_match (\<lambda>i. Some (take n (drop i B) = take n s)) [a..<a + (l - n + 1)]"
    by (rule first_match_cong) (use assms in \<open>auto simp: same_bytes_def mem_read_def\<close>)
  also have "\<dots> = Some (map_option ((+) a) (find (\<lambda>i. take n (drop (a + i) B) = take n s) [0..<l - n + 1]))"
    unfolding first_match_find find_shift ..
  also have "find (\<lambda>i. take n (drop (a + i) B) = take n s) [0..<l - n + 1] = str_pos s n (take l (drop a B))"
  proof -
    have "length (take l (drop a B)) = l" using assms by simp
    then show ?thesis unfolding str_pos_def using assms by (auto simp: drop_take add.commute intro!: find_cong)
  qed
  finally show ?thesis using assms by simp
qed



section \<open>Witnesses\<close>

definition sample_ring :: RingBuf where
  "sample_ring = \<lparr>rlen = 3, offset_read = 3, offset_write = 2, max_len = 4, rbuf = [66, 67, 0, 65]\<rparr>"

lemma sample_ring_wf: "ring_wf sample_ring" "ring_data sample_ring = [65, 66, 67]"
  by (simp_all add: ring_wf_def sample_ring_def ring_data_def)

text \<open>The search for a string that lies behind the seam fails although the string is there.\<close>

lemma Ring_SearchStr_misses:
  "ring_wf sample_ring \<and> str_pos [66, 67] 2 (ring_data sample_ring) = Some 1 \<and> Ring_SearchStr [66, 67] 2 sample_ring = Some CN_LIMIT_UINT32"
  by (simp add: sample_ring_wf str_pos_def upt_rec) (simp add: Ring_SearchStr_def sample_ring_def seam_match_def same_bytes_def mem_read_def upt_rec found_at_def)

theorem Ring_fifo_witness:
  "\<exists>ring a r. fifo_run (\<lambda>d. Ring_Write d (word_of_nat (length d))) Ring_Read [Put [1, 2, 3], Get 2, Put [4, 5, 6]] (Ring_Init [0, 0, 0, 0] 4) =
     Some (ring, a, r) \<and> a = r @ ring_data ring"
  using Ring_fifo [of "[0, 0, 0, 0]" 4 "[Put [1, 2, 3], Get 2, Put [4, 5, 6]]"] by auto


theorem Ring_RecedeRead_wild_witness:
  "Ring_RecedeRead 2 (Some [1, 2]) \<lparr>rlen = 1, offset_read = 1, offset_write = 2, max_len = 4, rbuf = [9, 9, 9, 9]\<rparr> = None"
  by (rule Ring_RecedeRead_wild) (simp_all add: ring_wf_def)



end
