(* ===== verification/Djy_MsgQ.thy ===== *)
theory Djy_MsgQ
  imports Djy_Lock Djy_Ring
begin

text \<open>
  Message queues (\<open>src/djyos/msgqueue/msgqueue.c\<close>).  A queue holds messages of a fixed size in a ring of slots
  and counts free and used slots with the two semaphores \<open>MsgSendSemp\<close> and \<open>MsgRecvSemp\<close>.  The state
  extends that of the locks by the queues, addressed by a number; the semaphores inside a queue have addresses of
  their own, members of its record.

  A call that waits for a semaphore ends with the switch (\<^const>\<open>Blocked\<close>); \<open>MsgQ_Send_resume\<close> and \<open>MsgQ_Receive_resume\<close>
  are what follows when the caller runs again.  \<open>M_Malloc\<close> and \<open>OBJ_NewChild\<close> are arguments: the memory they
  returned; the object tree is not part of the state.  A copy outside the buffer is the outcome \<^const>\<open>None\<close>.
\<close>

record MsgQueue =
  MsgSendSemp :: nat
  MsgRecvSemp :: nat
  MsgSize :: u32
  MsgUsed :: u32
  ReadOffset :: u32
  mbuf :: "u8 list"

record mkernel = lkernel +
  msgqs :: "nat \<Rightarrow> MsgQueue"
  MsgQ_Mutex :: nat

definition upd_msgq :: "nat \<Rightarrow> (MsgQueue \<Rightarrow> MsgQueue) \<Rightarrow> 'a mkernel_scheme \<Rightarrow> 'a mkernel_scheme" where
  "upd_msgq q f k = k\<lparr>msgqs := (msgqs k)(q := f (msgqs k q))\<rparr>"

text \<open>\<open>obj\<close> says whether \<open>OBJ_NewChild\<close> succeeded.\<close>

definition ModuleInstall_MsgQ :: "bool \<Rightarrow> 'a mkernel_scheme \<Rightarrow> 'a mkernel_scheme \<times> bool" where
  "ModuleInstall_MsgQ obj k =
     (if \<not> obj then (k, False) else (fst (Lock_MutexCreate_s (Some (MsgQ_Mutex k)) ''msgqueue'' k), True))"

text \<open>\<open>mem\<close> is the block that \<open>M_Malloc\<close> returned, with the addresses of its parts, \<open>obj\<close> says whether
  \<open>OBJ_NewChild\<close> succeeded.  A semaphore that cannot be created is not noticed.\<close>

definition MsgQ_Create ::
    "(nat \<times> nat \<times> nat \<times> u8 list) option \<Rightarrow> bool \<Rightarrow> int \<Rightarrow> u32 \<Rightarrow> u32 \<Rightarrow> 'a mkernel_scheme \<Rightarrow> 'a mkernel_scheme \<times> nat option" where
  "MsgQ_Create mem obj MaxMsgs MsgLength Options k =
     (case mem of None \<Rightarrow> (k, None)
      | Some (q, ss, rs, b) \<Rightarrow>
          if \<not> obj then (k, None)
          else let prio = (Options AND 1 = 1);
                   k = fst (Lock_SempCreate_s (Some ss) MaxMsgs MaxMsgs prio ''msgqueue'' k);
                   k = fst (Lock_SempCreate_s (Some rs) MaxMsgs 0 prio ''msgqueue'' k)
               in (upd_msgq q (\<lambda>_. \<lparr>MsgSendSemp = ss, MsgRecvSemp = rs, MsgSize = MsgLength, MsgUsed = 0,
                     ReadOffset = 0, mbuf = b\<rparr>) k, Some q))"

text \<open>The part under the mutex.\<close>

definition delete_locked ::
    "'a mkernel_scheme stack_env \<Rightarrow> nat option \<Rightarrow> 'a mkernel_scheme \<Rightarrow> ('a mkernel_scheme \<times> bool) option" where
  "delete_locked E pMsgQ k = do {
     (k, result) \<leftarrow>
       (case pMsgQ of None \<Rightarrow> Some (k, False)
        | Some q \<Rightarrow>
            if Lock_SempCheckBlock (Some (MsgSendSemp (msgqs k q))) k \<or> Lock_SempCheckBlock (Some (MsgRecvSemp (msgqs k q))) k
            then Some (k, False)
            else do {
              (k, _) \<leftarrow> Lock_SempDelete_s E (Some (MsgSendSemp (msgqs k q))) k;
              (k, _) \<leftarrow> Lock_SempDelete_s E (Some (MsgRecvSemp (msgqs k q))) k;
              Some (k, True) });
     k \<leftarrow> Lock_MutexPost E (Some (MsgQ_Mutex k)) k;
     Some (k, result) }"

text \<open>If the mutex is refused, the source returns a variable that was never assigned, the outcome \<^const>\<open>None\<close>.\<close>

definition MsgQ_Delete ::
    "'a mkernel_scheme stack_env \<Rightarrow> nat option \<Rightarrow> 'a mkernel_scheme \<Rightarrow> ('a mkernel_scheme \<times> bool call) option" where
  "MsgQ_Delete E pMsgQ k = do {
     (k, r) \<leftarrow> Lock_MutexPend E (Some (MsgQ_Mutex k)) CN_TIMEOUT_FOREVER k;
     case r of
       Blocked \<Rightarrow> Some (k, Blocked)
     | Ret False \<Rightarrow> None
     | Ret True \<Rightarrow> do {
         (k, result) \<leftarrow> delete_locked E pMsgQ k;
         Some (k, Ret result) } }"

text \<open>Storing a message: \<open>cap\<close> is the capacity of the queue.\<close>

definition msg_store :: "bool \<Rightarrow> u8 list \<Rightarrow> u32 \<Rightarrow> u32 \<Rightarrow> MsgQueue \<Rightarrow> MsgQueue option" where
  "msg_store urgent buffer nBytes cap q = do {
     let used = MsgUsed q;
     let q = q\<lparr>MsgUsed := used + 1\<rparr>;
     let (q, WriteOffset) =
       (if urgent then
          (let w = (if ReadOffset q = 0 then cap - 1 else ReadOffset q - 1) in (q\<lparr>ReadOffset := w\<rparr>, w))
        else (let w = used + ReadOffset q in (q, if w \<ge> cap then w - cap else w)));
     m \<leftarrow> memcpy (mbuf q) (unat (WriteOffset * MsgSize q)) buffer 0 nBytes;
     Some (q\<lparr>mbuf := m\<rparr>) }"

definition msg_fetch :: "u32 \<Rightarrow> u32 \<Rightarrow> MsgQueue \<Rightarrow> (MsgQueue \<times> u8 list) option" where
  "msg_fetch nBytes cap q = do {
     d \<leftarrow> mem_read (mbuf q) (unat (ReadOffset q * MsgSize q)) (unat nBytes);
     let q = q\<lparr>MsgUsed := MsgUsed q - 1\<rparr>;
     Some (q\<lparr>ReadOffset := if ReadOffset q \<ge> cap - 1 then 0 else ReadOffset q + 1\<rparr>, d) }"

definition send_body ::
    "'a mkernel_scheme stack_env \<Rightarrow> nat \<Rightarrow> u8 list \<Rightarrow> u32 \<Rightarrow> bool \<Rightarrow> 'a mkernel_scheme \<Rightarrow> ('a mkernel_scheme \<times> bool) option" where
  "send_body E q buffer nBytes urgent k = do {
     let cap = Lock_SempQueryCapacital (Some (MsgSendSemp (msgqs k q))) k;
     m \<leftarrow> msg_store urgent buffer nBytes cap (msgqs k q);
     let k = upd_msgq q (\<lambda>_. m) k;
     k \<leftarrow> Lock_SempPost E (Some (MsgRecvSemp (msgqs k q))) k;
     Some (k, True) }"

definition MsgQ_Send ::
    "'a mkernel_scheme stack_env \<Rightarrow> nat option \<Rightarrow> u8 list option \<Rightarrow> u32 \<Rightarrow> u32 \<Rightarrow> bool \<Rightarrow> 'a mkernel_scheme \<Rightarrow>
     ('a mkernel_scheme \<times> bool call) option" where
  "MsgQ_Send E pMsgQ buffer nBytes Timeout urgent k =
     (case (pMsgQ, buffer) of
        (Some q, Some b) \<Rightarrow>
          if nBytes > MsgSize (msgqs k q) then Some (k, Ret False)
          else do {
            (k, r) \<leftarrow> Lock_SempPend E (Some (MsgSendSemp (msgqs k q))) Timeout k;
            case r of
              Blocked \<Rightarrow> Some (k, Blocked)
            | Ret False \<Rightarrow> Some (k, Ret False)
            | Ret True \<Rightarrow> do {
                (k, ok) \<leftarrow> send_body E q b nBytes urgent k;
                Some (k, Ret ok) } }
      | _ \<Rightarrow> Some (k, Ret False))"

definition receive_body ::
    "'a mkernel_scheme stack_env \<Rightarrow> nat \<Rightarrow> u32 \<Rightarrow> 'a mkernel_scheme \<Rightarrow> ('a mkernel_scheme \<times> u8 list) option" where
  "receive_body E q nBytes k = do {
     let cap = Lock_SempQueryCapacital (Some (MsgSendSemp (msgqs k q))) k;
     (m, d) \<leftarrow> msg_fetch nBytes cap (msgqs k q);
     let k = upd_msgq q (\<lambda>_. m) k;
     k \<leftarrow> Lock_SempPost E (Some (MsgSendSemp (msgqs k q))) k;
     Some (k, d) }"

text \<open>\<open>Some d\<close> is the result \<open>true\<close> with the bytes \<open>d\<close> in the caller's buffer; \<open>room\<close> says whether there is a buffer.\<close>

definition MsgQ_Receive ::
    "'a mkernel_scheme stack_env \<Rightarrow> nat option \<Rightarrow> bool \<Rightarrow> u32 \<Rightarrow> u32 \<Rightarrow> 'a mkernel_scheme \<Rightarrow>
     ('a mkernel_scheme \<times> u8 list option call) option" where
  "MsgQ_Receive E pMsgQ room nBytes Timeout k =
     (case pMsgQ of
        None \<Rightarrow> Some (k, Ret None)
      | Some q \<Rightarrow>
          if \<not> room \<or> nBytes > MsgSize (msgqs k q) then Some (k, Ret None)
          else do {
            (k, r) \<leftarrow> Lock_SempPend E (Some (MsgRecvSemp (msgqs k q))) Timeout k;
            case r of
              Blocked \<Rightarrow> Some (k, Blocked)
            | Ret False \<Rightarrow> Some (k, Ret None)
            | Ret True \<Rightarrow> do {
                (k, d) \<leftarrow> receive_body E q nBytes k;
                Some (k, Ret (Some d)) } })"

text \<open>What follows when a caller that has waited runs again.\<close>

definition MsgQ_Send_resume ::
    "'a mkernel_scheme stack_env \<Rightarrow> nat \<Rightarrow> u8 list \<Rightarrow> u32 \<Rightarrow> bool \<Rightarrow> 'a mkernel_scheme \<Rightarrow> ('a mkernel_scheme \<times> bool) option" where
  "MsgQ_Send_resume E q buffer nBytes urgent k =
     (if Lock_SempPend_resume k then send_body E q buffer nBytes urgent k else Some (k, False))"

definition MsgQ_Receive_resume ::
    "'a mkernel_scheme stack_env \<Rightarrow> nat \<Rightarrow> u32 \<Rightarrow> 'a mkernel_scheme \<Rightarrow> ('a mkernel_scheme \<times> u8 list option) option" where
  "MsgQ_Receive_resume E q nBytes k =
     (if Lock_SempPend_resume k then map_option (\<lambda>(k, d). (k, Some d)) (receive_body E q nBytes k) else Some (k, None))"

definition MsgQ_NumMsgs :: "nat option \<Rightarrow> 'a mkernel_scheme \<Rightarrow> u32" where
  "MsgQ_NumMsgs pMsgQ k = (case pMsgQ of None \<Rightarrow> 0 | Some q \<Rightarrow> MsgUsed (msgqs k q))"

section \<open>The ring of slots\<close>

text \<open>The message in slot \<open>i\<close>, and the messages of a queue with \<open>n\<close> slots in the order in which they will be received.\<close>

definition slot :: "MsgQueue \<Rightarrow> nat \<Rightarrow> u8 list" where
  "slot q i = take (unat (MsgSize q)) (drop (i * unat (MsgSize q)) (mbuf q))"

definition msgs :: "nat \<Rightarrow> MsgQueue \<Rightarrow> u8 list list" where
  "msgs n q = map (\<lambda>i. slot q ((unat (ReadOffset q) + i) mod n)) [0..<unat (MsgUsed q)]"

definition mq_wf :: "nat \<Rightarrow> MsgQueue \<Rightarrow> bool" where
  "mq_wf n q \<longleftrightarrow> 0 < n \<and> n < 2 ^ 31 \<and> length (mbuf q) = n * unat (MsgSize q) \<and> n * unat (MsgSize q) < 2 ^ 32 \<and>
     unat (ReadOffset q) < n \<and> unat (MsgUsed q) \<le> n"

lemma mod_inj: "(r + i) mod n = (r + j) mod n \<Longrightarrow> i < n \<Longrightarrow> j < n \<Longrightarrow> i = (j::nat)"
proof (induction i j rule: linorder_wlog)
  case (le i j)
  then have "n dvd (r + j) - (r + i)" by (intro mod_eq_dvd_iff_nat [THEN iffD1]) simp_all
  then show ?case using le by (auto dest!: dvd_imp_le)
qed simp

lemma slot_in: "i < n \<Longrightarrow> j \<le> (s::nat) \<Longrightarrow> i * s + j \<le> n * s"
proof -
  assume "i < n" "j \<le> s"
  then have "Suc i * s \<le> n * s" by (intro mult_le_mono1) simp
  then show ?thesis using \<open>j \<le> s\<close> by simp
qed

lemma slot_apart:
  assumes "i < s" "j < (s::nat)" "a * s + i = b * s + j"
  shows "a = b \<and> i = j"
proof -
  have "(a * s + i) div s = a" "(b * s + j) div s = b" using assms(1,2) by (auto simp: div_add1_eq)
  then show ?thesis using assms(3) by auto
qed

text \<open>Writing the first bytes of one slot changes this slot only.\<close>

lemma slot_write:
  assumes len: "length (mbuf q) = n * unat (MsgSize q)" and w: "w < n" and nb: "unat nb \<le> unat (MsgSize q)" "unat nb \<le> length b"
  shows "\<exists>m. memcpy (mbuf q) (w * unat (MsgSize q)) b 0 nb = Some m \<and> length m = length (mbuf q) \<and>
    (\<forall>i<n. slot (q\<lparr>mbuf := m\<rparr>) i = (if i = w then take (unat nb) b @ drop (unat nb) (slot q w) else slot q i))"
proof -
  let ?s = "unat (MsgSize q)"
  have "w * ?s + unat nb \<le> length (mbuf q)" unfolding len by (rule slot_in [OF w nb(1)])
  then obtain m where m: "memcpy (mbuf q) (w * ?s) b 0 nb = Some m" using memcpy_Some [of "w * ?s" nb "mbuf q" 0 b] nb(2) by auto
  note N = memcpy_nth [OF m]
  have sl: "length (slot q' i) = ?s" "\<And>j. j < ?s \<Longrightarrow> slot q' i ! j = mbuf q' ! (i * ?s + j)"
    if "i < n" "MsgSize q' = MsgSize q" "length (mbuf q') = n * ?s" for i q'
  proof -
    have i: "i * ?s + ?s \<le> n * ?s" by (rule slot_in [OF that(1)]) simp
    then show l: "length (slot q' i) = ?s" using that by (simp add: slot_def)
    have "i * ?s \<le> length (mbuf q')" using i that(3) by linarith
    then show "slot q' i ! j = mbuf q' ! (i * ?s + j)" if "j < ?s" for j
      using that \<open>MsgSize q' = MsgSize q\<close> by (simp add: slot_def)
  qed
  have "slot (q\<lparr>mbuf := m\<rparr>) i = (if i = w then take (unat nb) b @ drop (unat nb) (slot q w) else slot q i)" if i: "i < n" for i
  proof (rule nth_equalityI)
    let ?q = "q\<lparr>mbuf := m\<rparr>"
    have lm: "length (mbuf ?q) = n * ?s" using N(1) len by simp
    show "length (slot ?q i) = length (if i = w then take (unat nb) b @ drop (unat nb) (slot q w) else slot q i)"
      using sl(1) [OF i, of ?q] sl(1) [OF i, of q] sl(1) [OF w, of q] lm len nb by simp
    fix j assume "j < length (slot ?q i)"
    then have j: "j < ?s" using sl(1) [OF i, of ?q] lm by simp
    have ij: "i * ?s + j < length (mbuf q)" unfolding len using slot_in [OF i, of "Suc j" ?s] j by simp
    have "slot ?q i ! j = m ! (i * ?s + j)" using sl(2) [OF i, of ?q j] lm j by simp
    also have "\<dots> = (if i = w \<and> j < unat nb then b ! j else mbuf q ! (i * ?s + j))"
    proof (cases "w * ?s \<le> i * ?s + j \<and> i * ?s + j < w * ?s + unat nb")
      case True
      then obtain d where d: "i * ?s + j = w * ?s + d" "d < unat nb" by (metis add_less_cancel_left le_Suc_ex)
      then have "i = w" "j = d" using slot_apart [OF j, of d i w] nb(1) by auto
      then show ?thesis using N(4) [OF ij] d by simp
    next
      case False
      then show ?thesis using N(4) [OF ij] by auto
    qed
    also have "\<dots> = (if i = w then take (unat nb) b @ drop (unat nb) (slot q w) else slot q i) ! j"
      using sl [OF w, of q] sl [OF i, of q] len nb j by (auto simp: nth_append)
    finally show "slot ?q i ! j = (if i = w then take (unat nb) b @ drop (unat nb) (slot q w) else slot q i) ! j" .
  qed
  then show ?thesis using m N(1) by auto
qed

lemma mq_wf_nat:
  assumes "mq_wf n q"
  shows "unat (word_of_nat n :: u32) = n" "unat (word_of_nat n - 1 :: u32) = n - 1"
    "i < n \<Longrightarrow> unat (w :: u32) = i \<Longrightarrow> unat (w * MsgSize q) = i * unat (MsgSize q)"
    "unat (MsgUsed q + ReadOffset q) = unat (MsgUsed q) + unat (ReadOffset q)"
    "unat (MsgUsed q) < n \<Longrightarrow> unat (MsgUsed q + 1) = unat (MsgUsed q) + 1"
proof -
  have n: "0 < n" "n < 2 ^ 31" "n * unat (MsgSize q) < 2 ^ 32" "unat (ReadOffset q) < n" "unat (MsgUsed q) \<le> n"
    using assms by (auto simp: mq_wf_def)
  show u: "unat (word_of_nat n :: u32) = n" using n(2) by (simp add: unat_of_nat take_bit_eq_mod)
  then show "unat (word_of_nat n - 1 :: u32) = n - 1" using n(1) by (simp add: unat_sub_if')
  show "unat (w * MsgSize q) = i * unat (MsgSize q)" if "i < n" "unat w = i"
  proof -
    have "i * unat (MsgSize q) \<le> n * unat (MsgSize q)" using that by (intro mult_le_mono1) simp
    then have "i * unat (MsgSize q) < 2 ^ 32" using n(3) by linarith
    then show ?thesis using that by (simp add: unat_word_ariths(2))
  qed
  show "unat (MsgUsed q + ReadOffset q) = unat (MsgUsed q) + unat (ReadOffset q)"
    "unat (MsgUsed q) < n \<Longrightarrow> unat (MsgUsed q + 1) = unat (MsgUsed q) + 1"
    using n by (auto simp: unat_plus_if')
qed

lemma msg_store_rep:
  assumes wf: "mq_wf n q" and room: "unat (MsgUsed q) < n" and nb: "nb \<le> MsgSize q" "unat nb \<le> length b"
  shows "\<exists>q' m. msg_store urgent b nb (word_of_nat n) q = Some q' \<and> mq_wf n q' \<and>
    length m = unat (MsgSize q) \<and> take (unat nb) m = take (unat nb) b \<and>
    msgs n q' = (if urgent then m # msgs n q else msgs n q @ [m]) \<and> unat (MsgUsed q') = unat (MsgUsed q) + 1 \<and>
    MsgSize q' = MsgSize q \<and> MsgSendSemp q' = MsgSendSemp q \<and> MsgRecvSemp q' = MsgRecvSemp q"
proof -
  note N = mq_wf_nat [OF wf]
  have W: "0 < n" "length (mbuf q) = n * unat (MsgSize q)" "unat (ReadOffset q) < n" using wf by (auto simp: mq_wf_def)
  let ?r = "unat (ReadOffset q)" and ?u = "unat (MsgUsed q)"
  define wo where "wo = (if urgent then (if ReadOffset q = 0 then word_of_nat n - 1 else ReadOffset q - 1)
    else if MsgUsed q + ReadOffset q \<ge> word_of_nat n then MsgUsed q + ReadOffset q - word_of_nat n else MsgUsed q + ReadOffset q)"
  define w where "w = (if urgent then (?r + n - 1) mod n else (?r + ?u) mod n)"
  have pred: "(?r + n - 1) mod n = (if ?r = 0 then n - 1 else ?r - 1)"
  proof (cases "?r = 0")
    case False
    then have "?r + n - 1 = ?r - 1 + n" by simp
    then show ?thesis using False W(3) by (simp only: mod_add_self2) simp
  qed (use W(1) in simp)
  have wrap: "(?r + ?u) mod n = (if ?u + ?r \<ge> n then ?u + ?r - n else ?u + ?r)"
    using W(3) room by (simp add: add.commute le_mod_geq)
  have "ReadOffset q = 0 \<longleftrightarrow> ?r = 0" by (simp add: unat_eq_0)
  then have wo: "unat wo = w"
    using pred wrap N(1,2,4) W(1) by (auto simp: wo_def w_def word_le_nat_alt unat_sub_if')
  have wn: "w < n" using W(1) by (simp add: w_def)
  obtain m where m: "memcpy (mbuf q) (w * unat (MsgSize q)) b 0 nb = Some m" "length m = length (mbuf q)"
      "\<forall>i<n. slot (q\<lparr>mbuf := m\<rparr>) i = (if i = w then take (unat nb) b @ drop (unat nb) (slot q w) else slot q i)"
    using slot_write [OF W(2) wn, of nb b] nb by (auto simp: word_le_nat_alt)
  let ?q = "q\<lparr>MsgUsed := MsgUsed q + 1, ReadOffset := if urgent then wo else ReadOffset q, mbuf := m\<rparr>"
  let ?m = "take (unat nb) b @ drop (unat nb) (slot q w)"
  have "unat (wo * MsgSize q) = w * unat (MsgSize q)" by (rule N(3) [OF wn wo])
  then have eval: "msg_store urgent b nb (word_of_nat n) q = Some ?q"
    using m(1) unfolding msg_store_def wo_def by (auto simp: Let_def)
  have sl: "slot ?q i = (if i = w then ?m else slot q i)" if "i < n" for i using m(3) that by (simp add: slot_def)
  have lw: "length (slot q w) = unat (MsgSize q)" using slot_in [OF wn, of "unat (MsgSize q)" "unat (MsgSize q)"] W(2) by (simp add: slot_def)
  have other: "slot ?q ((?r + i) mod n) = slot q ((?r + i) mod n)" if "i < ?u" for i
  proof -
    have "(?r + i) mod n \<noteq> w"
      using mod_inj [of ?r i n "n - 1"] mod_inj [of ?r i n ?u] that room W(1) by (auto simp: w_def)
    then show ?thesis using sl W(1) by simp
  qed
  have "msgs n ?q = (if urgent then ?m # msgs n q else msgs n q @ [?m])"
  proof (cases urgent)
    case True
    have "(w + Suc i) mod n = (?r + i) mod n" for i
    proof -
      have "(w + Suc i) mod n = (?r + n - 1 + Suc i) mod n" unfolding w_def if_P [OF True] by (rule mod_add_left_eq)
      also have "?r + n - 1 + Suc i = ?r + i + n" using W(1) by simp
      finally show ?thesis by simp
    qed
    then show ?thesis using True other sl [OF wn] wo wn N(5) [OF room]
      by (simp add: msgs_def upt_conv_Cons map_Suc_upt [symmetric] del: upt_Suc)
  next
    case False
    then show ?thesis using other sl [OF wn] wo wn N(5) [OF room] by (simp add: msgs_def w_def)
  qed
  moreover have "mq_wf n ?q" using wf wo wn N(5) [OF room] room m(2) by (auto simp: mq_wf_def)
  moreover have "length ?m = unat (MsgSize q)" "take (unat nb) ?m = take (unat nb) b" using lw nb by (auto simp: word_le_nat_alt)
  ultimately show ?thesis using eval N(5) [OF room] by (intro exI [of _ ?q] exI [of _ ?m]) simp
qed

lemma msg_fetch_rep:
  assumes wf: "mq_wf n q" and some: "0 < unat (MsgUsed q)" and nb: "nb \<le> MsgSize q"
  shows "\<exists>q'. msg_fetch nb (word_of_nat n) q = Some (q', take (unat nb) (hd (msgs n q))) \<and> mq_wf n q' \<and>
    msgs n q' = tl (msgs n q) \<and> unat (MsgUsed q') = unat (MsgUsed q) - 1 \<and>
    MsgSize q' = MsgSize q \<and> MsgSendSemp q' = MsgSendSemp q \<and> MsgRecvSemp q' = MsgRecvSemp q"
proof -
  note N = mq_wf_nat [OF wf]
  have W: "0 < n" "length (mbuf q) = n * unat (MsgSize q)" "unat (ReadOffset q) < n" "unat nb \<le> unat (MsgSize q)"
    using wf nb by (auto simp: mq_wf_def word_le_nat_alt)
  let ?r = "unat (ReadOffset q)" and ?u = "unat (MsgUsed q)"
  let ?q = "q\<lparr>MsgUsed := MsgUsed q - 1, ReadOffset := if ReadOffset q \<ge> word_of_nat n - 1 then 0 else ReadOffset q + 1\<rparr>"
  have u: "unat (MsgUsed q - 1) = ?u - 1" using some by (simp add: unat_sub_if')
  have r: "unat (ReadOffset ?q) = Suc ?r mod n"
  proof (cases "?r = n - 1")
    case False
    then have "Suc ?r < n" "n < 2 ^ 31" using W(3) wf by (auto simp: mq_wf_def)
    then show ?thesis using N(2) False by (auto simp: word_le_nat_alt unat_plus_if')
  qed (use W(1) N(2) in \<open>simp add: word_le_nat_alt\<close>)
  have "?r * unat (MsgSize q) + unat nb \<le> length (mbuf q)" unfolding W(2) by (rule slot_in [OF W(3,4)])
  then have "mem_read (mbuf q) (unat (ReadOffset q * MsgSize q)) (unat nb) = Some (take (unat nb) (slot q ?r))"
    using N(3) [OF W(3) refl] W(4) by (simp add: mem_read_def slot_def min_def)
  moreover have h: "msgs n q = slot q ?r # map (\<lambda>i. slot q ((?r + Suc i) mod n)) [0..<?u - 1]"
  proof -
    have "[0..<?u] = 0 # map Suc [0..<?u - 1]" using some by (simp add: upt_conv_Cons map_Suc_upt del: upt_Suc)
    then show ?thesis using W(3) by (simp add: msgs_def)
  qed
  ultimately have "msg_fetch nb (word_of_nat n) q = Some (?q, take (unat nb) (hd (msgs n q)))" by (simp add: msg_fetch_def Let_def)
  moreover have "(Suc ?r mod n + i) mod n = (?r + Suc i) mod n" for i by (simp add: mod_add_left_eq)
  then have "msgs n ?q = tl (msgs n q)" unfolding h using u r by (simp add: msgs_def slot_def)
  moreover have "unat (MsgUsed ?q) \<le> n" "unat (ReadOffset ?q) < n" using wf u W(1) r by (auto simp: mq_wf_def)
  then have "mq_wf n ?q" using wf by (simp add: mq_wf_def)
  ultimately show ?thesis using u by (intro exI [of _ ?q]) simp
qed

section \<open>Messages and semaphores\<close>

text \<open>Quiescence of a queue of \<open>n\<close> slots: \<open>a\<close> senders and \<open>b\<close> receivers have been granted a lamp while they waited and have
  not run since.\<close>

definition mq_inv :: "nat \<Rightarrow> nat \<Rightarrow> nat \<Rightarrow> nat \<Rightarrow> (qhead \<Rightarrow> nat list) \<Rightarrow> 'a mkernel_scheme \<Rightarrow> bool" where
  "mq_inv n a b q S k \<longleftrightarrow> (let m = msgqs k q; s = MsgSendSemp m; r = MsgRecvSemp m in
     s \<noteq> r \<and> mq_wf n m \<and> lamps_limit (semps k s) = int n \<and> lamps_limit (semps k r) = int n \<and>
     lamp_inv (int n) (lamp_counter (semps k s), S (SempSync s)) \<and> lamp_inv (int n) (lamp_counter (semps k r), S (SempSync r)) \<and>
     lamp_counter (semps k s) + int (unat (MsgUsed m)) + int a = int n \<and>
     lamp_counter (semps k r) + int b = int (unat (MsgUsed m)))"

lemma upd_msgq_simps [simp]:
  "fld g (upd_msgq q f k) = fld g k" "cells (upd_msgq q f k) = cells k" "ptEventReady (upd_msgq q f k) = ptEventReady k"
  "ptEventDelay (upd_msgq q f k) = ptEventDelay k" "ptEventRunning (upd_msgq q f k) = ptEventRunning k"
  "semps (upd_msgq q f k) = semps k" "msgqs (upd_msgq q f k) = (msgqs k)(q := f (msgqs k q))"
  "nest_asyn_signal (upd_msgq q f k) = nest_asyn_signal k" "en_asyn_signal_counter (upd_msgq q f k) = en_asyn_signal_counter k"
  "DJY_QuerySch (upd_msgq q f k) = DJY_QuerySch k" "msgqs (upd_semp s h k) = msgqs k" "DJY_QuerySch (upd_semp s h k) = DJY_QuerySch k"
  by (simp_all add: upd_msgq_def upd_semp_def fld_def DJY_QuerySch_def)

text \<open>The caller's state does not depend on semaphores and messages.\<close>

lemma calling_data:
  assumes c: "calling k R D S idle" and wf: "kwf k R D S"
  shows "calling (upd_msgq q f (upd_semp s g k)) R D S idle \<and> kwf (upd_msgq q f (upd_semp s g k)) R D S"
proof -
  have "kinv (upd_msgq q f (upd_semp s g k)) R D S" by (rule kinv_cong [OF kwf_kinv [OF wf]]) simp_all
  then show ?thesis using c wf by (auto simp: calling_def kwf_def)
qed

lemma more_mkernel:
  fixes k k' :: "'a mkernel_scheme"
  assumes "lkernel.more k' = lkernel.more k"
  shows "msgqs k' = msgqs k"
  using assms by (cases k; cases k'; simp)

lemma post_counter: "0 \<le> c \<Longrightarrow> c < int n \<Longrightarrow> fst (asem_post (int n) (c, Q)) = (if Q = [] then c + 1 else c)"
  by (auto simp: asem_post_def split: list.split)

lemma word_int_nat: "word_of_int (int n) = (word_of_nat n :: u32)"
  by simp



text \<open>\<open>MsgQ_Create\<close>: a new queue is empty, all its slots are free, and the queues of the kernel are unchanged; without memory or
  without a place in the object tree there is no queue and no change.\<close>

theorem MsgQ_Create_empty:
  fixes k :: "'a mkernel_scheme"
  assumes inv: "kinv k R D S" and new: "ss \<noteq> rs" "S (SempSync ss) = []" "S (SempSync rs) = []"
    and n: "0 < n" "n < 2 ^ 31" "length mem = n * unat len" "n * unat len < 2 ^ 32"
  shows "(case MsgQ_Create (Some (q, ss, rs, mem)) True (int n) len opt k of (k', r) \<Rightarrow>
      r = Some q \<and> kinv k' R D S \<and> mq_inv n 0 0 q S k' \<and> msgs n (msgqs k' q) = [] \<and> MsgQ_NumMsgs (Some q) k' = 0) \<and>
    MsgQ_Create None obj (int n) len opt k = (k, None) \<and> MsgQ_Create (Some (q, ss, rs, mem)) False (int n) len opt k = (k, None)"
proof -
  define k' where "k' = fst (MsgQ_Create (Some (q, ss, rs, mem)) True (int n) len opt k)"
  have "cells k (SempSync ss) = None" "cells k (SempSync rs) = None"
    using kinvD(3) [OF inv, of "SempSync ss"] kinvD(3) [OF inv, of "SempSync rs"] new by (simp_all add: sync_rep_def)
  then have cells: "cells k' = cells k" by (auto simp: k'_def MsgQ_Create_def Let_def Lock_SempCreate_s_def upd_msgq_def upd_semp_def set_cell_def)
  have f: "fld g k' = fld g k" "ptEventReady k' = ptEventReady k" "ptEventDelay k' = ptEventDelay k" for g :: "EventECB \<Rightarrow> 'v"
    by (simp_all add: k'_def MsgQ_Create_def Let_def Lock_SempCreate_s_def upd_msgq_def upd_semp_def set_cell_def fld_def)
  have "kinv k' R D S" by (rule kinv_cong [OF inv]) (simp_all add: f cells)
  moreover have q: "msgqs k' q = \<lparr>MsgSendSemp = ss, MsgRecvSemp = rs, MsgSize = len, MsgUsed = 0, ReadOffset = 0, mbuf = mem\<rparr>"
    by (simp add: k'_def MsgQ_Create_def Let_def)
  moreover have "lamps_limit (semps k' ss) = int n" "lamp_counter (semps k' ss) = int n" "lamps_limit (semps k' rs) = int n"
    "lamp_counter (semps k' rs) = 0" using new(1) by (auto simp: k'_def MsgQ_Create_def Let_def Lock_SempCreate_s_def upd_msgq_def)
  ultimately have "kinv k' R D S \<and> mq_inv n 0 0 q S k' \<and> msgs n (msgqs k' q) = [] \<and> MsgQ_NumMsgs (Some q) k' = 0"
    using new n by (auto simp: mq_inv_def mq_wf_def lamp_inv_def msgs_def MsgQ_NumMsgs_def)
  moreover have "MsgQ_Create (Some (q, ss, rs, mem)) True (int n) len opt k = (k', Some q)"
    by (simp add: k'_def MsgQ_Create_def Let_def)
  ultimately show ?thesis by (simp add: MsgQ_Create_def)
qed

text \<open>A queue with two slots of two bytes and one message, beside the sample state of the locks.\<close>

definition sample_mq :: mkernel where
  "sample_mq = busy_kernel \<lparr>semps = (\<lambda>_. \<lparr>sync_order = False, lamps_limit = 2, lamp_counter = 1, semp_name = []\<rparr>),
     mutexes = (\<lambda>_. \<lparr>enable = 0, owner = None, mutex_name = []\<rparr>), semp_list = [], mutex_list = [],
     msgqs = (\<lambda>_. \<lparr>MsgSendSemp = 5, MsgRecvSemp = 6, MsgSize = 2, MsgUsed = 1, ReadOffset = 1, mbuf = [0, 0, 7, 8]\<rparr>),
     MsgQ_Mutex = 3\<rparr>"

lemma sample_mq_facts:
  "calling sample_mq [1, 0] [2, 3] busy_syncs 0" "kwf sample_mq [1, 0] [2, 3] busy_syncs" "mq_inv 2 0 0 0 busy_syncs sample_mq"
  "msgs 2 (msgqs sample_mq 0) = [[7, 8]]"
proof -
  show "calling sample_mq [1, 0] [2, 3] busy_syncs 0" "kwf sample_mq [1, 0] [2, 3] busy_syncs"
    unfolding sample_mq_def by (rule busy_calling, rule busy_kwf)
  have "msgqs sample_mq 0 = \<lparr>MsgSendSemp = 5, MsgRecvSemp = 6, MsgSize = 2, MsgUsed = 1, ReadOffset = 1, mbuf = [0, 0, 7, 8]\<rparr>"
    "semps sample_mq s = \<lparr>sync_order = False, lamps_limit = 2, lamp_counter = 1, semp_name = []\<rparr>" for s
    by (simp_all add: sample_mq_def busy_kernel_def)
  then show "mq_inv 2 0 0 0 busy_syncs sample_mq" "msgs 2 (msgqs sample_mq 0) = [[7, 8]]"
    by (simp_all add: mq_inv_def mq_wf_def lamp_inv_def msgs_def slot_def busy_syncs_def)
qed



theorem MsgQ_Create_empty_witness:
  "\<exists>k'. MsgQ_Create (Some (1, 8, 9, [0, 0, 0, 0])) True 2 2 1 sample_mq = (k', Some 1) \<and> mq_inv 2 0 0 1 busy_syncs k'"
proof -
  have "kinv sample_mq [1, 0] [2, 3] busy_syncs" "busy_syncs (SempSync 8) = []" "busy_syncs (SempSync 9) = []"
    using sample_mq_facts(2) by (simp_all add: kwf_def busy_syncs_def)
  from MsgQ_Create_empty [OF this(1) _ this(2,3), of 2 "[0, 0, 0, 0]" 2 1 1] show ?thesis by (auto split: prod.splits)
qed

end
