(* ===== verification/Djy_Time.thy ===== *)
theory Djy_Time
  imports Djy_Bytes "HOL-Library.Signed_Division"
begin

text \<open>
  System time and calendar (\<open>systime.c\<close>, \<open>Rtc.c\<close> and \<open>time.c\<close> of \<open>src/djyos/time\<close>).

  What the hardware delivers at the moment of a call is an argument: \<open>hw_tick\<close> is the value of \<open>__DjyGetSysTime\<close>, \<open>hw32\<close>
  and \<open>hw64\<close> are the counters behind \<open>s_fnSysTimeHard32\<close> and \<open>s_fnSysTimeHard64\<close>, \<open>hw_rtc\<close> the time read from the clock device
  (\<^const>\<open>None\<close> if the device fails), and \<open>hw_set\<close> says whether setting the device succeeds.  Whether these functions are
  connected is part of the state.

  \<open>s64\<close> values and the members of \<open>struct tm\<close> are integers, \<open>u32\<close> values are words; division of signed numbers rounds
  towards zero (\<open>sdiv\<close>, \<open>smod\<close>), as in C.  A string is the list of its bytes.  \<open>struct tm\<close> has, besides the members of the C
  library, the member \<open>tm_us\<close>.
\<close>

record tm =
  tm_us :: int
  tm_sec :: int
  tm_min :: int
  tm_hour :: int
  tm_mday :: int
  tm_mon :: int
  tm_year :: int
  tm_wday :: int
  tm_yday :: int

record hw =
  hw_tick :: int
  hw32 :: u32
  hw64 :: int
  hw_rtc :: "int option"
  hw_set :: bool

record clock =
  fnSysTimeHard32 :: bool
  fnSysTimeHard64 :: bool
  SysTimeFreq :: u32
  SysTimeCycle :: u32
  sysTimeMajor :: int
  BakCounter :: u32
  RtcTimeSet :: int
  RtcUpdateTime2SysTime :: int
  fnRtcGetTime :: bool
  fnRtcSetTime :: bool
  MonthDays :: "u32 list"
  MyTimezone :: int
  datetime_GmUs :: tm
  datetime_ZoneUs :: tm
  datetime_LocalUs :: tm

section \<open>System time\<close>

definition DJY_SysTimeConnect :: "bool \<Rightarrow> bool \<Rightarrow> u32 \<Rightarrow> u32 \<Rightarrow> clock \<Rightarrow> clock" where
  "DJY_SysTimeConnect GetSysTime32 GetSysTime64 Freq Cycle c =
     c\<lparr>fnSysTimeHard32 := GetSysTime32, fnSysTimeHard64 := GetSysTime64, SysTimeFreq := Freq, SysTimeCycle := Cycle\<rparr>"

text \<open>The reading of the short counter, common to the three functions.\<close>

definition read_hard32 :: "hw \<Rightarrow> clock \<Rightarrow> clock" where
  "read_hard32 h c =
     (let CurrentTime = hw32 h;
          c = (if CurrentTime < BakCounter c then c\<lparr>sysTimeMajor := sysTimeMajor c + uint (SysTimeCycle c)\<rparr> else c)
      in c\<lparr>BakCounter := CurrentTime\<rparr>)"

definition cycles_to_us :: "int \<Rightarrow> u32 \<Rightarrow> int" where
  "cycles_to_us t f = (t sdiv uint f) * 1000000 + ((t smod uint f) * 1000000) sdiv uint f"

definition DJY_GetSysTime :: "hw \<Rightarrow> clock \<Rightarrow> clock \<times> int" where
  "DJY_GetSysTime h c =
     (if \<not> fnSysTimeHard32 c \<and> \<not> fnSysTimeHard64 c then (c, hw_tick h)
      else if fnSysTimeHard32 c then
        let c = read_hard32 h c in (c, cycles_to_us (sysTimeMajor c + uint (hw32 h)) (SysTimeFreq c))
      else (c, cycles_to_us (hw64 h) (SysTimeFreq c)))"

definition DJY_GetSysTimeCycle :: "hw \<Rightarrow> clock \<Rightarrow> clock \<times> int" where
  "DJY_GetSysTimeCycle h c =
     (if \<not> fnSysTimeHard32 c \<and> \<not> fnSysTimeHard64 c then (c, hw_tick h)
      else if fnSysTimeHard32 c then let c = read_hard32 h c in (c, sysTimeMajor c + uint (hw32 h))
      else (c, hw64 h))"

definition DJY_MaintainSysTime :: "hw \<Rightarrow> clock \<Rightarrow> clock" where
  "DJY_MaintainSysTime h c = (if fnSysTimeHard32 c then read_hard32 h c else c)"

definition DJY_GetSysTimeFreq :: "clock \<Rightarrow> u32" where
  "DJY_GetSysTimeFreq c = SysTimeFreq c"

section \<open>The clock device\<close>

definition CN_RTC_UNIT_SECOND :: int where "CN_RTC_UNIT_SECOND = 1000000"

definition Rtc_RegisterDev :: "bool \<Rightarrow> bool \<Rightarrow> clock \<Rightarrow> clock \<times> bool" where
  "Rtc_RegisterDev fnGetTime fnSetTime c =
     (let c = c\<lparr>fnRtcGetTime := fnGetTime\<rparr> in
      if fnSetTime then (c\<lparr>fnRtcSetTime := True\<rparr>, True) else (c, False))"

text \<open>The branches of the two reading functions: the device's time, or the system time that has passed since the last update.\<close>

definition rtc_update :: "hw \<Rightarrow> int \<Rightarrow> clock \<Rightarrow> clock \<times> int" where
  "rtc_update h systime c =
     (let passed = RtcTimeSet c + systime - RtcUpdateTime2SysTime c;
          result = (if \<not> fnRtcGetTime c then passed
                    else case hw_rtc h of None \<Rightarrow> passed | Some t \<Rightarrow> t)
      in (c\<lparr>RtcUpdateTime2SysTime := systime, RtcTimeSet := result\<rparr>, result))"

definition Rtc_Time :: "hw \<Rightarrow> clock \<Rightarrow> clock \<times> int" where
  "Rtc_Time h c =
     (let (c, systime) = DJY_GetSysTime h c;
          (c, result) =
            (if RtcUpdateTime2SysTime c sdiv CN_RTC_UNIT_SECOND = systime sdiv CN_RTC_UNIT_SECOND then (c, RtcTimeSet c)
             else rtc_update h systime c)
      in (c, result sdiv CN_RTC_UNIT_SECOND))"

definition Rtc_TimeUs :: "hw \<Rightarrow> clock \<Rightarrow> clock \<times> int" where
  "Rtc_TimeUs h c = (let (c, systime) = DJY_GetSysTime h c in rtc_update h systime c)"

definition Rtc_SetTime :: "hw \<Rightarrow> int \<Rightarrow> clock \<Rightarrow> clock \<times> bool" where
  "Rtc_SetTime h rtctime c =
     (let (c, systime) = DJY_GetSysTime h c in
      if \<not> fnRtcSetTime c \<or> hw_set h
      then (c\<lparr>RtcTimeSet := rtctime, RtcUpdateTime2SysTime := systime\<rparr>, True)
      else (c, False))"

definition Time_Time :: "hw \<Rightarrow> clock \<Rightarrow> clock \<times> int" where "Time_Time = Rtc_Time"
definition Time_TimeUs :: "hw \<Rightarrow> clock \<Rightarrow> clock \<times> int" where "Time_TimeUs = Rtc_TimeUs"

section \<open>The calendar\<close>

definition Time_MkTime :: "tm \<Rightarrow> int" where
  "Time_MkTime dt =
     (let year = word_of_int (tm_year dt + 1900) :: u32;
          mon = word_of_int (tm_mon dt + 1) - 2 :: u32;
          (mon, year) = (if 0 \<ge> sint mon then (mon + 12, year - 1) else (mon, year))
      in (((uint (year div 4 - year div 100 + year div 400 + 367 * mon div 12 + word_of_int (tm_mday dt))
            + uint (year * 365) - 719499) * 24 + tm_hour dt) * 60 + tm_min dt) * 60 + tm_sec dt)"

definition Time_MkTimeUs :: "tm \<Rightarrow> int" where
  "Time_MkTimeUs dt = Time_MkTime dt * 1000000 + tm_us dt"

text \<open>The loop over the months: reading behind the table is the outcome \<^const>\<open>None\<close>.\<close>

fun month_loop :: "u32 list \<Rightarrow> u32 \<Rightarrow> u32 \<Rightarrow> (u32 \<times> u32) option" where
  "month_loop [] month dayth = None"
| "month_loop (tmp_month_days # ds) month dayth =
     (if dayth \<ge> tmp_month_days then month_loop ds (month + 1) (dayth - tmp_month_days) else Some (month, dayth))"

text \<open>Leap days before the year with number \<open>years\<close> since 1970.\<close>

definition leap_years :: "u32 \<Rightarrow> u32" where
  "leap_years years =
     (let l = drop_bit 2 (years + 1);
          l = (if (years + 1970 - 1) div 100 \<noteq> (years + 1970) div 100 \<and> (years + 1970) mod 400 \<noteq> 0 then l + 1 else l);
          l = l - ((years + 1970) div 100 - 1970 div 100)
      in l + ((years + 1970) div 400 - 1970 div 400))"

text \<open>The part of \<open>Time_LocalTime_r\<close> that computes year and day of the year; the last component says that February has 29 days.\<close>

definition year_and_day :: "u32 \<Rightarrow> u32 \<times> u32 \<times> bool" where
  "year_and_day days =
     (let years = days div 365;
          leap = leap_years years;
          temp = days mod 365;
          temp1 = temp;
          (years, temp) = (if temp < leap then (years - 1, temp + 365) else (years, temp));
          dayth = temp - leap;
          year = 1970 + years;
          feb29 = (year mod 4 = 0 \<and> \<not> (year mod 100 = 0 \<and> year mod 400 \<noteq> 0));
          dayth = (if feb29 \<and> temp1 < leap then dayth + 1 else dayth)
      in (year, dayth, feb29))"

text \<open>\<open>time\<close> is \<open>*time\<close>, \<^const>\<open>None\<close> for a null pointer; \<open>result\<close> is \<open>*result\<close> before the call, \<^const>\<open>None\<close> for a null pointer.
  The value is \<open>*result\<close> afterwards, \<^const>\<open>None\<close> when the function returns \<open>NULL\<close>.\<close>

definition Time_LocalTime_r :: "hw \<Rightarrow> int option \<Rightarrow> tm option \<Rightarrow> clock \<Rightarrow> (clock \<times> tm option) option" where
  "Time_LocalTime_r h time result c =
     (if result = None then Some (c, None)
      else let (c, temp_time) = (case time of Some t \<Rightarrow> (c, t) | None \<Rightarrow> Rtc_Time h c) in
        if temp_time > 47650000000 then Some (c, None)
        else do {
          let second = (word_of_int (temp_time smod 60) :: u32);
          let minute = (word_of_int ((temp_time sdiv 60) smod 60) :: u32);
          let hour = (word_of_int ((temp_time sdiv 3600) smod 24) :: u32);
          let days = (word_of_int (temp_time sdiv 86400) :: u32);
          let (year, dayth, feb29) = year_and_day days;
          let c = c\<lparr>MonthDays := (MonthDays c)[1 := if feb29 then 29 else 28]\<rparr>;
          let day = dayth;
          (month, dayth) \<leftarrow> month_loop (MonthDays c) 0 dayth;
          let day_of_week = (days + 4) mod 7;
          Some (c, Some \<lparr>tm_us = 0, tm_sec = sint second, tm_min = sint minute, tm_hour = sint hour,
            tm_mday = sint (dayth + 1), tm_mon = sint month, tm_year = sint (year - 1900),
            tm_wday = sint day_of_week, tm_yday = sint day\<rparr>) })"

definition no_tm :: tm where
  "no_tm = \<lparr>tm_us = 0, tm_sec = 0, tm_min = 0, tm_hour = 0, tm_mday = 0, tm_mon = 0, tm_year = 0, tm_wday = 0, tm_yday = 0\<rparr>"

text \<open>The functions that return their result in a static variable; its old contents matter only where the
  microseconds are added whether or not the conversion succeeded.\<close>

definition Time_LocalTime :: "hw \<Rightarrow> int option \<Rightarrow> clock \<Rightarrow> (clock \<times> tm option) option" where
  "Time_LocalTime h time c = Time_LocalTime_r h time (Some no_tm) c"

definition split_us :: "hw \<Rightarrow> int option \<Rightarrow> clock \<Rightarrow> clock \<times> int \<times> int" where
  "split_us h time_us c =
     (let (c, t) = (case time_us of Some t \<Rightarrow> (c, t) | None \<Rightarrow> Rtc_TimeUs h c) in (c, t smod 1000000, t sdiv 1000000))"

definition Time_LocalTimeUs_r :: "hw \<Rightarrow> int option \<Rightarrow> tm option \<Rightarrow> clock \<Rightarrow> (clock \<times> tm option) option" where
  "Time_LocalTimeUs_r h time_us result c =
     (case result of None \<Rightarrow> Some (c, None)
      | Some old \<Rightarrow> do {
          let (c, temp_us, temp_time) = split_us h time_us c;
          (c, r) \<leftarrow> Time_LocalTime_r h (Some temp_time) (Some old) c;
          Some (c, Some ((case r of Some t \<Rightarrow> t | None \<Rightarrow> old)\<lparr>tm_us := temp_us\<rparr>)) })"

definition Time_LocalTimeUs :: "hw \<Rightarrow> int option \<Rightarrow> clock \<Rightarrow> (clock \<times> tm option) option" where
  "Time_LocalTimeUs h time_us c = do {
     (c, r) \<leftarrow> Time_LocalTimeUs_r h time_us (Some (datetime_LocalUs c)) c;
     Some (c\<lparr>datetime_LocalUs := the r\<rparr>, r) }"

definition Time_GmTime_r :: "hw \<Rightarrow> int option \<Rightarrow> tm option \<Rightarrow> clock \<Rightarrow> (clock \<times> tm option) option" where
  "Time_GmTime_r h time result c =
     (if result = None then Some (c, None)
      else let (c, t) = (case time of Some t \<Rightarrow> (c, t) | None \<Rightarrow> Rtc_Time h c)
        in Time_LocalTime_r h (Some (t - MyTimezone c * 3600)) result c)"

definition Time_GmTime :: "hw \<Rightarrow> int option \<Rightarrow> clock \<Rightarrow> (clock \<times> tm option) option" where
  "Time_GmTime h time c = Time_GmTime_r h time (Some no_tm) c"

definition Time_GmTimeUs_r :: "hw \<Rightarrow> int option \<Rightarrow> tm option \<Rightarrow> clock \<Rightarrow> (clock \<times> tm option) option" where
  "Time_GmTimeUs_r h time result c =
     (if result = None then Some (c, None)
      else let (c, t) = (case time of Some t \<Rightarrow> (c, t) | None \<Rightarrow> Rtc_TimeUs h c)
        in Time_LocalTimeUs_r h (Some (t - MyTimezone c * 3600 * 1000000)) result c)"

definition Time_GmTimeUs :: "hw \<Rightarrow> int option \<Rightarrow> clock \<Rightarrow> (clock \<times> tm option) option" where
  "Time_GmTimeUs h time c = do {
     (c, r) \<leftarrow> Time_GmTimeUs_r h time (Some (datetime_GmUs c)) c;
     Some (c\<lparr>datetime_GmUs := the r\<rparr>, r) }"

definition Time_ZoneTime_r :: "hw \<Rightarrow> int option \<Rightarrow> tm option \<Rightarrow> int \<Rightarrow> clock \<Rightarrow> (clock \<times> tm option) option" where
  "Time_ZoneTime_r h time result zone c =
     (if result = None then Some (c, None)
      else let (c, t) = (case time of Some t \<Rightarrow> (c, t) | None \<Rightarrow> Rtc_Time h c);
               t = t - MyTimezone c * 3600;
               t = (if zone < 0 \<or> zone > 23 then t + MyTimezone c * 3600 else t + zone * 3600)
        in Time_LocalTime_r h (Some t) result c)"

definition Time_ZoneTime :: "hw \<Rightarrow> int option \<Rightarrow> int \<Rightarrow> clock \<Rightarrow> (clock \<times> tm option) option" where
  "Time_ZoneTime h time zone c = Time_ZoneTime_r h time (Some no_tm) zone c"

text \<open>The zone is added in seconds to a time in microseconds, and the sum is multiplied by a million.\<close>

definition Time_ZoneTimeUs_r :: "hw \<Rightarrow> int option \<Rightarrow> tm option \<Rightarrow> int \<Rightarrow> clock \<Rightarrow> (clock \<times> tm option) option" where
  "Time_ZoneTimeUs_r h time result zone c =
     (if result = None then Some (c, None)
      else let (c, t) = (case time of Some t \<Rightarrow> (c, t) | None \<Rightarrow> Rtc_TimeUs h c);
               t = t - MyTimezone c * 3600;
               t = (if zone < 0 \<or> zone > 23 then t + MyTimezone c * 3600 else t + zone * 3600);
               t = sint (word_of_int (t * 1000000) :: 64 word)
        in Time_LocalTimeUs_r h (Some t) result c)"

definition Time_ZoneTimeUs :: "hw \<Rightarrow> int option \<Rightarrow> int \<Rightarrow> clock \<Rightarrow> (clock \<times> tm option) option" where
  "Time_ZoneTimeUs h time zone c = do {
     (c, r) \<leftarrow> Time_ZoneTimeUs_r h time (Some (datetime_ZoneUs c)) zone c;
     Some (c\<lparr>datetime_ZoneUs := the r\<rparr>, r) }"

definition Time_SetDateTime :: "hw \<Rightarrow> tm \<Rightarrow> clock \<Rightarrow> clock" where
  "Time_SetDateTime h dt c = fst (Rtc_SetTime h (Time_MkTimeUs dt) c)"

definition settimezone :: "int \<Rightarrow> clock \<Rightarrow> clock \<times> int" where
  "settimezone zone c = (c\<lparr>MyTimezone := zone\<rparr>, 0)"

definition gettimezone :: "clock \<Rightarrow> int" where
  "gettimezone c = MyTimezone c"

text \<open>\<open>settimeofday\<close> converts the seconds to calendar members and back.\<close>

definition settimeofday :: "hw \<Rightarrow> int option \<Rightarrow> clock \<Rightarrow> (clock \<times> int) option" where
  "settimeofday h tv_sec c =
     (case tv_sec of None \<Rightarrow> Some (c, -1)
      | Some t \<Rightarrow> do {
          (c, r) \<leftarrow> Time_LocalTime_r h (Some t) (Some no_tm) c;
          Some (case r of None \<Rightarrow> (c, -1) | Some dt \<Rightarrow> (Time_SetDateTime h dt c, 0)) })"

section \<open>Dates as strings\<close>

fun dec :: "nat \<Rightarrow> u8 list" where
  "dec n = (if n < 10 then [48 + word_of_nat n] else dec (n div 10) @ [48 + word_of_nat (n mod 10)])"

declare dec.simps [simp del]

text \<open>\<open>itoa(v, &buf[i], 10)\<close>.\<close>

definition itoa :: "int \<Rightarrow> nat \<Rightarrow> u8 list \<Rightarrow> u8 list option" where
  "itoa v i buf = mem_write buf i ((if v < 0 then 45 # dec (nat (- v)) else dec (nat v)) @ [0])"

definition put :: "nat \<Rightarrow> u8 \<Rightarrow> u8 list \<Rightarrow> u8 list option" where
  "put i x buf = mem_write buf i [x]"

text \<open>A number of at least two digits, followed by a separator.\<close>

definition put2 :: "int \<Rightarrow> nat \<Rightarrow> u8 \<Rightarrow> u8 list \<Rightarrow> u8 list option" where
  "put2 v i sep buf = do {
     buf \<leftarrow> itoa v i buf;
     x \<leftarrow> mem_read buf (i + 1) 1;
     buf \<leftarrow> (if x = [0] then do {
              y \<leftarrow> mem_read buf i 1;
              buf \<leftarrow> mem_write buf (i + 1) y;
              put i 48 buf }
            else Some buf);
     put (i + 2) sep buf }"

definition Time_AscTime :: "tm option \<Rightarrow> u8 list option \<Rightarrow> u8 list option" where
  "Time_AscTime dt buffer =
     (case (dt, buffer) of
        (Some dt, Some buf) \<Rightarrow> do {
          buf \<leftarrow> itoa (tm_year dt + 1900) 0 buf;
          buf \<leftarrow> put 4 47 buf;
          buf \<leftarrow> put2 (tm_mon dt + 1) 5 47 buf;
          buf \<leftarrow> put2 (tm_mday dt) 8 44 buf;
          buf \<leftarrow> put2 (tm_hour dt) 11 58 buf;
          buf \<leftarrow> put2 (tm_min dt) 14 58 buf;
          put2 (tm_sec dt) 17 0 buf }
      | _ \<Rightarrow> Some (case buffer of None \<Rightarrow> [] | Some b \<Rightarrow> b))"

definition Time_AscTimeMs :: "tm option \<Rightarrow> u8 list option \<Rightarrow> u8 list option" where
  "Time_AscTimeMs dt buffer = do {
     buf \<leftarrow> Time_AscTime dt buffer;
     case (dt, buffer) of
       (Some dt, Some _) \<Rightarrow> do {
         buf \<leftarrow> put 19 58 buf;
         buf \<leftarrow> itoa (tm_us dt sdiv 1000) 20 buf;
         put 23 0 buf }
     | _ \<Rightarrow> Some buf }"

definition Time_AscTimeUs :: "tm option \<Rightarrow> u8 list option \<Rightarrow> u8 list option" where
  "Time_AscTimeUs dt buffer = do {
     buf \<leftarrow> Time_AscTime dt buffer;
     case (dt, buffer) of
       (Some dt, Some _) \<Rightarrow> do {
         buf \<leftarrow> put 19 58 buf;
         buf \<leftarrow> itoa (tm_us dt) 20 buf;
         put 26 0 buf }
     | _ \<Rightarrow> Some buf }"

text \<open>\<open>sscanf\<close> with the conversion \<open>%d\<close>: white space, a sign, at least one digit.\<close>

definition is_digit :: "u8 \<Rightarrow> bool" where "is_digit x \<longleftrightarrow> 48 \<le> x \<and> x \<le> 57"
definition is_space :: "u8 \<Rightarrow> bool" where "is_space x \<longleftrightarrow> x = 32 \<or> 9 \<le> x \<and> x \<le> 13"

definition digits_val :: "u8 list \<Rightarrow> int" where
  "digits_val ds = foldl (\<lambda>v x. 10 * v + uint (x - 48)) 0 ds"

definition scan_nat :: "u8 list \<Rightarrow> (int \<times> u8 list) option" where
  "scan_nat s = (case takeWhile is_digit s of [] \<Rightarrow> None | ds \<Rightarrow> Some (digits_val ds, dropWhile is_digit s))"

definition scan_int :: "u8 list \<Rightarrow> (int \<times> u8 list) option" where
  "scan_int s = (case dropWhile is_space s of
     [] \<Rightarrow> None
   | x # r \<Rightarrow> if x = 45 then map_option (\<lambda>(v, r). (- v, r)) (scan_nat r)
             else if x = 43 then scan_nat r else scan_nat (x # r))"

text \<open>Numbers separated by the bytes \<open>seps\<close>: the numbers read until the first mismatch.\<close>

fun scan_fields :: "u8 list \<Rightarrow> u8 list \<Rightarrow> int list" where
  "scan_fields [] s = (case scan_int s of None \<Rightarrow> [] | Some (v, _) \<Rightarrow> [v])"
| "scan_fields (c # cs) s =
     (case scan_int s of None \<Rightarrow> []
      | Some (v, r) \<Rightarrow> v # (case r of [] \<Rightarrow> [] | x # r \<Rightarrow> if x = c then scan_fields cs r else []))"

datatype clock_error = EN_CLOCK_FMT_ERROR | EN_CLOCK_YEAR_ERROR | EN_CLOCK_MON_ERROR | EN_CLOCK_DAY_ERROR
  | EN_CLOCK_HOUR_ERROR | EN_CLOCK_MIN_ERROR | EN_CLOCK_SEC_ERROR

text \<open>The checks of the month and of the day, with the table of the state.  A negative month reads before the table.\<close>

definition bad_day :: "u32 list \<Rightarrow> int \<Rightarrow> int \<Rightarrow> int \<Rightarrow> bool option" where
  "bad_day tab year mon mday =
     (if mday < 1 \<or> mday > 31 then Some True
      else if mon < 0 \<or> nat mon \<ge> length tab then None
      else Some (mday > sint (tab ! nat mon) \<or>
        mon = 1 \<and> (mday > 29 \<or>
          (if year smod 4 = 0 then year smod 100 = 0 \<and> year smod 400 \<noteq> 0 \<and> mday > 28 else mday > 28))))"

text \<open>A number outside the range of \<open>int\<close> leaves the behaviour of \<open>sscanf\<close> undefined, the outcome \<^const>\<open>None\<close>.\<close>

definition Time_SetDateTimeStr :: "hw \<Rightarrow> u8 list option \<Rightarrow> clock \<Rightarrow> (clock \<times> (clock_error + unit)) option" where
  "Time_SetDateTimeStr h buf c =
     (case buf of None \<Rightarrow> Some (c, Inl EN_CLOCK_FMT_ERROR)
      | Some s \<Rightarrow>
        let fs = scan_fields [47, 47, 44, 58, 58, 58] s in
        if \<exists>v\<in>set fs. v < - (2 ^ 31) \<or> v \<ge> 2 ^ 31 then None
        else if length fs < 6 then Some (c, Inl EN_CLOCK_FMT_ERROR)
        else let year = fs ! 0; mon = fs ! 1 - 1; mday = fs ! 2; hour = fs ! 3; minute = fs ! 4; sec = fs ! 5;
                 us = (if length fs > 6 then fs ! 6 else 0) in
          if 1970 > year \<or> year > 2100 then Some (c, Inl EN_CLOCK_YEAR_ERROR)
          else if mon > 11 then Some (c, Inl EN_CLOCK_MON_ERROR)
          else do {
            bad \<leftarrow> bad_day (MonthDays c) year mon mday;
            if bad then Some (c, Inl EN_CLOCK_DAY_ERROR)
            else if hour > 23 then Some (c, Inl EN_CLOCK_HOUR_ERROR)
            else if minute > 59 then Some (c, Inl EN_CLOCK_MIN_ERROR)
            else if sec > 59 then Some (c, Inl EN_CLOCK_SEC_ERROR)
            else Some (Time_SetDateTime h \<lparr>tm_us = us, tm_sec = sec, tm_min = minute, tm_hour = hour, tm_mday = mday,
                         tm_mon = mon, tm_year = year - 1900, tm_wday = 0, tm_yday = 0\<rparr> c, Inr ()) })"

section \<open>The calendar, specified\<close>

text \<open>The Gregorian calendar as a count of days: lengths of years and months, and the number of a day counted from 1 January 1970.
  Months are numbered from 0.\<close>

definition is_leap :: "nat \<Rightarrow> bool" where
  "is_leap y \<longleftrightarrow> 4 dvd y \<and> (\<not> 100 dvd y \<or> 400 dvd y)"

definition month_lengths :: "nat \<Rightarrow> nat list" where
  "month_lengths y = [31, if is_leap y then 29 else 28, 31, 30, 31, 30, 31, 31, 30, 31, 30, 31]"

definition year_length :: "nat \<Rightarrow> nat" where
  "year_length y = sum_list (month_lengths y)"

definition day_number :: "nat \<Rightarrow> nat \<Rightarrow> nat \<Rightarrow> nat" where
  "day_number y m d = (\<Sum>i = 1970..<y. year_length i) + sum_list (take m (month_lengths y)) + (d - 1)"

definition valid_date :: "nat \<Rightarrow> nat \<Rightarrow> nat \<Rightarrow> bool" where
  "valid_date y m d \<longleftrightarrow> 1970 \<le> y \<and> m < 12 \<and> 1 \<le> d \<and> d \<le> month_lengths y ! m"

text \<open>The closed form of the number of leap days.\<close>

definition leap_days :: "nat \<Rightarrow> nat" where
  "leap_days y = y div 4 + y div 400 - y div 100"

lemma year_length: "year_length y = 365 + of_bool (is_leap y)"
  by (simp add: year_length_def month_lengths_def)

lemma leap_days_Suc: "leap_days (Suc y) = leap_days y + of_bool (is_leap (Suc y))"
proof -
  have "y div 100 \<le> y div 4 + y div 400" by linarith
  moreover have "Suc y mod 400 = 0 \<Longrightarrow> Suc y mod 100 = 0" "Suc y mod 100 = 0 \<Longrightarrow> Suc y mod 4 = 0" by presburger+
  ultimately show ?thesis
    unfolding leap_days_def is_leap_def dvd_eq_mod_eq_0 div_Suc by auto
qed

lemma years_closed: "1970 \<le> y \<Longrightarrow> (\<Sum>i = 1970..<y. year_length i) + 477 = 365 * (y - 1970) + leap_days (y - 1)"
proof (induction y rule: nat_induct_at_least)
  case base
  then show ?case by (simp add: leap_days_def)
next
  case (Suc y)
  have "leap_days (Suc y - 1) = leap_days (y - 1) + of_bool (is_leap y)"
    using leap_days_Suc [of "y - 1"] Suc.hyps by simp
  then show ?case using Suc by (simp add: year_length)
qed

section \<open>\<open>Time_MkTime\<close> counts days\<close>

lemma unat_add_small: "unat (x :: u32) \<le> m \<Longrightarrow> unat y \<le> n \<Longrightarrow> m + n < 2 ^ 32 \<Longrightarrow> unat (x + y) = unat x + unat y"
  by (rule unat_add_lem [THEN iffD1]) simp

lemma mk_days_word:
  fixes year mon :: u32
  assumes "unat year \<le> 1000000" "unat mon \<le> 12" "d \<le> 31"
  shows "uint (year div 4 - year div 100 + year div 400 + 367 * mon div 12 + word_of_int (int d)) =
      int (leap_days (unat year) + 367 * unat mon div 12 + d)" (is "uint (?a + ?b + ?c + ?d) = _")
    and "uint (year * 365) = int (unat year * 365)"
proof -
  have le: "unat year div 100 \<le> unat year div 4" by linarith
  have a: "unat ?a = unat year div 4 - unat year div 100"
    using le by (subst unat_sub) (simp_all add: word_le_nat_alt unat_div)
  have b: "unat ?b = unat year div 400" by (simp add: unat_div)
  have "unat (367 * mon) = 367 * unat mon" using assms(2) unat_mult_lem [of 367 mon] by simp
  then have c: "unat ?c = 367 * unat mon div 12" by (simp only: unat_div unat_numeral) simp
  have d: "unat ?d = d" using assms(3) by (simp add: unat_of_nat take_bit_eq_mod)
  have small: "unat year div 4 \<le> 250000" "unat year div 400 \<le> 2500" "367 * unat mon div 12 \<le> 367" using assms by linarith+
  have ua: "unat ?a \<le> 250000" and ub: "unat ?b \<le> 2500" and uc: "unat ?c \<le> 367" and ud: "unat ?d \<le> 31"
    using a b c d small assms(3) by linarith+
  have ab: "unat (?a + ?b) = unat ?a + unat ?b" by (rule unat_add_small [OF ua ub]) simp
  have uab: "unat (?a + ?b) \<le> 252500" using ab ua ub by linarith
  have abc: "unat (?a + ?b + ?c) = unat ?a + unat ?b + unat ?c" using unat_add_small [OF uab uc] ab by simp
  have uabc: "unat (?a + ?b + ?c) \<le> 252867" using abc ua ub uc by linarith
  have "unat (?a + ?b + ?c + ?d) = unat ?a + unat ?b + unat ?c + unat ?d" using unat_add_small [OF uabc ud] abc by simp
  also have "\<dots> = leap_days (unat year) + 367 * unat mon div 12 + d" using a b c d le by (simp add: leap_days_def)
  finally show "uint (?a + ?b + ?c + ?d) = int (leap_days (unat year) + 367 * unat mon div 12 + d)"
    by (metis uint_nat)
  have "unat (year * 365) = unat year * 365" using assms(1) unat_mult_lem [of year 365] by simp
  then show "uint (year * 365) = int (unat year * 365)" by (metis uint_nat)
qed

text \<open>The count of days behind the formula: the year starts in March.\<close>

lemma march_days:
  assumes "valid_date y m d"
  shows "int (day_number y m d) + 719499 =
    (if m < 2 then int (leap_days (y - 1) + 367 * (m + 11) div 12 + d + (y - 1) * 365)
     else int (leap_days y + 367 * (m - 1) div 12 + d + y * 365))"
proof -
  have y: "1970 \<le> y" and d: "1 \<le> d" and m: "m < 12" using assms by (simp_all add: valid_date_def)
  have L: "leap_days y = leap_days (y - 1) + of_bool (is_leap y)" using leap_days_Suc [of "y - 1"] y by simp
  have "m \<in> {0, 1, 2, 3, 4, 5, 6, 7, 8, 9, 10, 11}" using m by (simp; arith)
  then have "day_number y m d + 719499 =
    (if m < 2 then leap_days (y - 1) + 367 * (m + 11) div 12 + d + (y - 1) * 365
     else leap_days y + 367 * (m - 1) div 12 + d + y * 365)"
    using years_closed [OF y] y d L
    by (elim insertE emptyE; simp add: day_number_def month_lengths_def)
  then show ?thesis by (metis (mono_tags) of_nat_add of_nat_numeral)
qed

definition date_of :: "tm \<Rightarrow> nat \<times> nat \<times> nat" where
  "date_of dt = (nat (tm_year dt + 1900), nat (tm_mon dt), nat (tm_mday dt))"

definition tm_valid :: "tm \<Rightarrow> bool" where
  "tm_valid dt \<longleftrightarrow> (case date_of dt of (y, m, d) \<Rightarrow> valid_date y m d) \<and> tm_mon dt \<ge> 0 \<and>
     0 \<le> tm_hour dt \<and> tm_hour dt < 24 \<and> 0 \<le> tm_min dt \<and> tm_min dt < 60 \<and> 0 \<le> tm_sec dt \<and> tm_sec dt < 60"

lemma valid_date_le: "valid_date y m d \<Longrightarrow> d \<le> 31"
proof -
  assume v: "valid_date y m d"
  then have "m \<in> {0, 1, 2, 3, 4, 5, 6, 7, 8, 9, 10, 11}" by (simp add: valid_date_def; arith)
  then have "month_lengths y ! m \<le> 31" by (elim insertE emptyE) (simp_all add: month_lengths_def)
  then show "d \<le> 31" using v by (simp add: valid_date_def)
qed

lemma MkTime_days:
  assumes v: "valid_date y m d" and y: "y \<le> 1000000"
    and dt: "tm_year dt = int y - 1900" "tm_mon dt = int m" "tm_mday dt = int d"
  shows "Time_MkTime dt = ((int (day_number y m d) * 24 + tm_hour dt) * 60 + tm_min dt) * 60 + tm_sec dt"
proof -
  have vd: "1970 \<le> y" "m < 12" "1 \<le> d" using v by (simp_all add: valid_date_def)
  have d: "d \<le> 31" using valid_date_le [OF v] .
  define year where "year = (word_of_int (tm_year dt + 1900) :: u32)"
  have uy: "unat year = y" "unat (year - 1) = y - 1"
    using y vd by (simp_all add: year_def dt unat_of_nat take_bit_eq_mod unat_sub_if' unat_minus_one)
  define mon where "mon = (word_of_int (tm_mon dt + 1) - 2 :: u32)"
  have mon: "mon = word_of_int (int m - 1)" by (simp add: mon_def dt)
  have s: "sint mon = int m - 1" unfolding mon using vd by (subst signed_of_int, subst signed_take_bit_int_eq_self) simp_all
  show ?thesis
  proof (cases "m < 2")
    case True
    then consider "m = 0" | "m = 1" by linarith
    then have um: "unat (mon + 12) = m + 11" by cases (simp_all add: mon)
    have "Time_MkTime dt = (((int (leap_days (y - 1) + 367 * (m + 11) div 12 + d) + int ((y - 1) * 365) - 719499) * 24
        + tm_hour dt) * 60 + tm_min dt) * 60 + tm_sec dt"
      unfolding Time_MkTime_def Let_def year_def [symmetric] mon_def [symmetric] dt(3)
      using s True mk_days_word [of "year - 1" "mon + 12" d] y d um uy by simp
    then show ?thesis using march_days [OF v] True by simp
  next
    case False
    then have "mon = word_of_nat (m - 1)" by (simp add: mon of_nat_diff)
    then have um: "unat mon = m - 1" using vd by (simp add: unat_of_nat take_bit_eq_mod)
    have "Time_MkTime dt = (((int (leap_days y + 367 * (m - 1) div 12 + d) + int (y * 365) - 719499) * 24
        + tm_hour dt) * 60 + tm_min dt) * 60 + tm_sec dt"
      unfolding Time_MkTime_def Let_def year_def [symmetric] mon_def [symmetric] dt(3)
      using s False mk_days_word [of year mon d] y d um uy vd by simp
    then show ?thesis using march_days [OF v] False by simp
  qed
qed

section \<open>\<open>Time_LocalTime_r\<close> finds the date\<close>

lemma leap_days_bounds:
  assumes "Y \<le> 2000"
  shows "(Y + 1970) div 100 \<le> (Y + 1) div 4 + 19" "477 \<le> leap_days (Y + 1969)" "19 \<le> (Y + 1970) div 100" "4 \<le> (Y + 1970) div 400"
    "(Y + 1) div 4 + 492 = (Y + 1969) div 4" "(Y + 1969) div 100 \<le> (Y + 1969) div 4"
proof -
  show 1: "(Y + 1970) div 100 \<le> (Y + 1) div 4 + 19" by linarith
  show 2: "(Y + 1) div 4 + 492 = (Y + 1969) div 4" by linarith
  show "19 \<le> (Y + 1970) div 100" "4 \<le> (Y + 1970) div 400" "(Y + 1969) div 100 \<le> (Y + 1969) div 4" by linarith+
  have "(Y + 1969) div 100 \<le> (Y + 1) div 4 + 19" "4 \<le> (Y + 1969) div 400" by linarith+
  then show "477 \<le> leap_days (Y + 1969)" unfolding leap_days_def using 2 by linarith
qed

lemma leap_years_nat:
  assumes Y: "unat years = Y" "Y \<le> 2000"
  shows "unat (leap_years years) = leap_days (Y + 1969) - 477"
proof -
  have u: "unat (years + 1) = Y + 1" "unat (years + 1970) = Y + 1970"
    using unat_add_small [of years 2000 1 1] unat_add_small [of years 2000 1970 1970] Y by simp_all
  have u3: "unat (1969 + years) = Y + 1969" using unat_add_small [of 1969 1969 years 2000] Y by simp
  note b = leap_days_bounds [OF Y(2)]
  define c where "c \<longleftrightarrow> (years + 1970 - 1) div 100 \<noteq> (years + 1970) div 100 \<and> (years + 1970) mod 400 \<noteq> 0"
  have c: "c \<longleftrightarrow> (Y + 1969) div 100 \<noteq> (Y + 1970) div 100 \<and> (Y + 1970) mod 400 \<noteq> 0"
    unfolding c_def by (simp add: word_unat_eq_iff unat_div unat_mod u u3)
  have l1: "unat (drop_bit 2 (years + 1)) = (Y + 1) div 4" by (simp add: drop_bit_eq_div unat_div u)
  have l2: "unat (if c then drop_bit 2 (years + 1) + 1 else drop_bit 2 (years + 1)) = (Y + 1) div 4 + of_bool c"
    using unat_add_small [of "drop_bit 2 (years + 1)" 1000 1 1] l1 Y(2) by (cases c) simp_all
  have s: "unat ((years + 1970) div 100 - 1970 div 100) = (Y + 1970) div 100 - 19"
    "unat ((years + 1970) div 400 - 1970 div 400) = (Y + 1970) div 400 - 4"
    using b by (simp_all add: unat_sub_if' unat_div u)
  define l where "l = (if c then drop_bit 2 (years + 1) + 1 else drop_bit 2 (years + 1))"
  have l3: "unat (l - ((years + 1970) div 100 - 1970 div 100)) = (Y + 1) div 4 + of_bool c - ((Y + 1970) div 100 - 19)"
  proof -
    have "(Y + 1970) div 100 - 19 \<le> (Y + 1) div 4 + of_bool c" using b(1) by linarith
    then have "(years + 1970) div 100 - 1970 div 100 \<le> l" using l2 s(1) by (simp only: word_le_nat_alt l_def)
    from unat_sub [OF this] show ?thesis using l2 s(1) by (simp only: l_def)
  qed
  have E: "leap_years years = l - ((years + 1970) div 100 - 1970 div 100) + ((years + 1970) div 400 - 1970 div 400)"
    by (simp only: leap_years_def Let_def c_def l_def)
  have "unat (l - ((years + 1970) div 100 - 1970 div 100)) \<le> 2000" "unat ((years + 1970) div 400 - 1970 div 400) \<le> 2000"
    unfolding l3 s(2) using Y(2) by (auto simp: of_bool_def)
  then have "unat (leap_years years) = unat (l - ((years + 1970) div 100 - 1970 div 100)) + unat ((years + 1970) div 400 - 1970 div 400)"
    unfolding E by (rule unat_add_small) simp
  also have "\<dots> = (Y + 1) div 4 + of_bool c - ((Y + 1970) div 100 - 19) + ((Y + 1970) div 400 - 4)" by (simp only: l3 s(2))
  also have "\<dots> = leap_days (Y + 1969) - 477"
  proof -
    have h: "(Y + 1970) div 100 = (Y + 1969) div 100 + of_bool ((Y + 1970) mod 100 = 0)"
      "(Y + 1970) div 400 = (Y + 1969) div 400 + of_bool ((Y + 1970) mod 400 = 0)"
      using div_Suc [of "Y + 1969" 100] div_Suc [of "Y + 1969" 400] by (simp_all add: add.commute)
    have m: "(Y + 1970) mod 400 = 0 \<Longrightarrow> (Y + 1970) mod 100 = 0" by presburger
    have L: "leap_days (Y + 1969) = (Y + 1) div 4 + 492 + (Y + 1969) div 400 - (Y + 1969) div 100"
      using b(5) by (simp only: leap_days_def)
    have e: "4 \<le> (Y + 1969) div 400" by linarith
    consider "(Y + 1970) mod 400 = 0" "(Y + 1970) mod 100 = 0" | "(Y + 1970) mod 400 \<noteq> 0" "(Y + 1970) mod 100 = 0"
      | "(Y + 1970) mod 400 \<noteq> 0" "(Y + 1970) mod 100 \<noteq> 0" using m by metis
    then show ?thesis
    proof cases
      case 1
      then have "\<not> c" "(Y + 1970) div 100 = (Y + 1969) div 100 + 1" "(Y + 1970) div 400 = (Y + 1969) div 400 + 1" using h c by simp_all
      then show ?thesis unfolding L using b(1,3,6) e by simp
    next
      case 2
      then have "c" "(Y + 1970) div 100 = (Y + 1969) div 100 + 1" "(Y + 1970) div 400 = (Y + 1969) div 400" using h c by simp_all
      then show ?thesis unfolding L using b(1,3,6) e by simp
    next
      case 3
      then have "\<not> c" "(Y + 1970) div 100 = (Y + 1969) div 100" "(Y + 1970) div 400 = (Y + 1969) div 400" using h c by simp_all
      then show ?thesis unfolding L using b(1,3,6) e by simp
    qed
  qed
  finally show ?thesis .
qed

lemma word_of_nat_eqI: "unat (w :: u32) = n \<Longrightarrow> w = word_of_nat n"
  by (metis of_nat_unat ucast_id)

lemma feb29_iff:
  fixes w :: u32
  assumes "unat w = y"
  shows "w mod 4 = 0 \<and> \<not> (w mod 100 = 0 \<and> w mod 400 \<noteq> 0) \<longleftrightarrow> is_leap y"
  using assms by (auto simp: is_leap_def word_unat_eq_iff unat_mod dvd_eq_mod_eq_0)

lemma leap_days_mono: "a \<le> b \<Longrightarrow> leap_days a \<le> leap_days b"
  by (induction b rule: dec_induct) (auto simp: leap_days_Suc)

lemma year_and_day_date:
  assumes D: "unat days = (\<Sum>i = 1970..<y. year_length i) + yd" and y: "1970 \<le> y" "y \<le> 3476" and yd: "yd < year_length y"
    and lim: "leap_days (y - 1) - 477 + yd < 730"
  shows "year_and_day days = (word_of_nat y, word_of_nat yd, is_leap y)"
proof -
  define Y where "Y = y - 1970"
  define E where "E = leap_days (y - 1) - 477"
  have Y: "y = Y + 1970" "Y \<le> 1506" using y by (simp_all add: Y_def)
  have "477 \<le> leap_days (y - 1)" using leap_days_bounds(2) [of Y] Y by (simp add: add.commute)
  then have D': "unat days = 365 * Y + (E + yd)" using D years_closed [OF y(1)] unfolding E_def Y_def by linarith
  have small: "E + yd < 730" using lim by (simp add: E_def add.commute)
  have yw: "word_of_nat y = (1970 + word_of_nat Y :: u32)" using Y by (simp add: add.commute)
  have uy: "unat (word_of_nat y :: u32) = y" using y by (simp add: unat_of_nat take_bit_eq_mod)
  note f = feb29_iff [OF uy, unfolded yw]
  show ?thesis
  proof (cases "E + yd < 365")
    case True
    then have years: "unat (days div 365) = Y" and temp: "unat (days mod 365) = E + yd"
      unfolding unat_div unat_mod D' by simp_all
    have leap: "unat (leap_years (days div 365)) = E" using leap_years_nat [OF years] Y by (simp add: E_def add.commute)
    have no: "\<not> days mod 365 < leap_years (days div 365)" by (simp add: word_less_nat_alt temp leap)
    have "days div 365 = word_of_nat Y" using years by (rule word_of_nat_eqI)
    moreover have "days mod 365 - leap_years (days div 365) = word_of_nat yd"
      by (rule word_of_nat_eqI) (use no in \<open>simp add: unat_sub temp leap not_less\<close>)
    ultimately show ?thesis unfolding year_and_day_def Let_def using no f by (simp add: yw)
  next
    case False
    define r where "r = E + yd - 365"
    have r: "E + yd = 365 + r" "r < 365" using False small by (simp_all add: r_def)
    have years: "unat (days div 365) = Y + 1" and temp: "unat (days mod 365) = E + yd - 365"
      unfolding unat_div unat_mod D' r(1) using r(2) by simp_all
    have leap: "unat (leap_years (days div 365)) = E + of_bool (is_leap y)"
      using leap_years_nat [OF years] Y leap_days_Suc [of "Y + 1969"] \<open>477 \<le> leap_days (y - 1)\<close> by (simp add: E_def add.commute)
    have yes: "days mod 365 < leap_years (days div 365)"
      unfolding word_less_nat_alt temp leap using yd False by (cases "is_leap y") (simp_all add: year_length)
    have w: "days div 365 = word_of_nat Y + 1" "leap_years (days div 365) = word_of_nat E + of_bool (is_leap y)"
      "days mod 365 = word_of_nat E + word_of_nat yd - 365"
      using word_of_nat_eqI [OF years] word_of_nat_eqI [OF leap] word_of_nat_eqI [OF temp] False by (simp_all add: of_nat_diff)
    show ?thesis unfolding year_and_day_def Let_def using yes f
      by (cases "is_leap y") (simp_all add: yw w(1) w(2) [unfolded w(1)] w(3))
  qed
qed

lemma sdiv_nonneg: "0 \<le> a \<Longrightarrow> 0 < b \<Longrightarrow> a sdiv b = a div (b :: int)"
  by (auto simp: signed_divide_int_def sgn_if div_int_pos_iff)

lemma smod_nonneg: "0 \<le> a \<Longrightarrow> 0 < b \<Longrightarrow> a smod b = a mod (b :: int)"
  by (cases "a = 0") (simp_all add: signed_modulo_int_def sgn_if)

lemma month_loop_finds:
  assumes "sum_list ls < 2 ^ 31" "yd < sum_list ls"
  shows "\<exists>m d. m < length ls \<and> d < ls ! m \<and> yd = sum_list (take m ls) + d \<and>
    month_loop (map word_of_nat ls) (word_of_nat k) (word_of_nat yd) = Some (word_of_nat (k + m), word_of_nat d)"
  using assms
proof (induction ls arbitrary: k yd)
  case Nil
  then show ?case by simp
next
  case (Cons l ls)
  have le: "(word_of_nat l :: u32) \<le> word_of_nat yd \<longleftrightarrow> l \<le> yd"
    using Cons.prems by (simp add: word_le_nat_alt unat_small)
  show ?case
  proof (cases "l \<le> yd")
    case False
    then show ?thesis using le by (intro exI [of _ 0] exI [of _ yd]) simp
  next
    case True
    have "sum_list ls < 2 ^ 31" "yd - l < sum_list ls" using Cons.prems True by auto
    from Cons.IH [OF this, of "Suc k"] obtain m d where md: "m < length ls" "d < ls ! m" "yd - l = sum_list (take m ls) + d"
      "month_loop (map word_of_nat ls) (word_of_nat (Suc k)) (word_of_nat (yd - l)) = Some (word_of_nat (Suc k + m), word_of_nat d)" by blast
    have "(word_of_nat yd :: u32) - word_of_nat l = word_of_nat (yd - l)" using True by (simp add: of_nat_diff)
    then have "month_loop (map word_of_nat (l # ls)) (word_of_nat k) (word_of_nat yd) = Some (word_of_nat (k + Suc m), word_of_nat d)"
      using md(4) True le by (simp add: add.commute)
    moreover have "yd = sum_list (take (Suc m) (l # ls)) + d" using md(3) True by simp
    ultimately show ?thesis using md(1,2) by (metis Suc_less_eq length_Cons nth_Cons_Suc)
  qed
qed

lemma month_loop_beyond:
  assumes "sum_list ls \<le> yd" "yd < 2 ^ 31"
  shows "month_loop (map word_of_nat ls) k (word_of_nat yd) = None"
  using assms
proof (induction ls arbitrary: k yd)
  case (Cons l ls)
  then have "(word_of_nat l :: u32) \<le> word_of_nat yd" by (simp add: word_le_nat_alt unat_small)
  moreover have "word_of_nat yd - word_of_nat l = (word_of_nat (yd - l) :: u32)" using Cons.prems by (simp add: of_nat_diff)
  moreover have "month_loop (map word_of_nat ls) (k + 1) (word_of_nat (yd - l)) = None" using Cons by (intro Cons.IH) simp_all
  ultimately show ?case by simp
qed simp

definition months_ok :: "clock \<Rightarrow> bool" where
  "months_ok c \<longleftrightarrow> (\<exists>f. MonthDays c = [31, f, 31, 30, 31, 30, 31, 31, 30, 31, 30, 31])"

lemma split_year:
  "\<exists>y yd. 1970 \<le> y \<and> yd < year_length y \<and> D = (\<Sum>i = 1970..<y. year_length i) + yd"
proof (induction D)
  case 0
  show ?case by (rule exI [of _ 1970], rule exI [of _ 0]) (simp add: year_length)
next
  case (Suc D)
  then obtain y yd where y: "1970 \<le> y" "yd < year_length y" "D = (\<Sum>i = 1970..<y. year_length i) + yd" by blast
  show ?case
  proof (cases "Suc yd < year_length y")
    case True
    then show ?thesis using y by (metis add_Suc_right)
  next
    case False
    then have "Suc D = (\<Sum>i = 1970..<Suc y. year_length i) + 0" using y by simp
    then show ?thesis using y(1) by (metis le_SucI year_length add_gr_0 zero_less_numeral)
  qed
qed

lemma year_limit:
  assumes y: "1970 \<le> y" "yd < year_length y" and D: "(\<Sum>i = 1970..<y. year_length i) + yd < 550420"
  shows "y \<le> 3476" "leap_days (y - 1) - 477 + yd < 730"
proof -
  have l: "leap_days 3475 = 842" "leap_days 3476 = 843" by (simp_all add: leap_days_def)
  show y': "y \<le> 3476"
  proof (rule ccontr)
    assume "\<not> y \<le> 3476"
    then have "leap_days 3476 \<le> leap_days (y - 1)" by (intro leap_days_mono) simp
    then show False using years_closed [OF y(1)] D l \<open>\<not> y \<le> 3476\<close> by linarith
  qed
  show "leap_days (y - 1) - 477 + yd < 730"
  proof (cases "y = 3476")
    case True
    then show ?thesis using years_closed [OF y(1)] D l by simp
  next
    case False
    have "leap_days y = leap_days (y - 1) + of_bool (is_leap y)" using leap_days_Suc [of "y - 1"] y by simp
    moreover have "leap_days y \<le> leap_days 3475" using False y' by (intro leap_days_mono) simp
    moreover have "leap_days 1969 \<le> leap_days (y - 1)" using y by (intro leap_days_mono) simp
    moreover have "leap_days 1969 = 477" by (simp add: leap_days_def)
    ultimately show ?thesis using y(2) l by (simp add: year_length)
  qed
qed

lemma month_table: "map word_of_nat (month_lengths y) = [31, if is_leap y then 29 else 28, 31, 30, 31, 30, 31, 31, 30, 31, 30, 31 :: u32]"
  by (simp add: month_lengths_def)

lemma local_date:
  assumes "unat (days :: u32) < 550420"
  shows "\<exists>y m d. valid_date y m d \<and> y \<le> 3476 \<and> day_number y m d = unat days \<and>
    year_and_day days = (word_of_nat y, word_of_nat (sum_list (take m (month_lengths y)) + d - 1), is_leap y) \<and>
    month_loop (map word_of_nat (month_lengths y)) 0 (word_of_nat (sum_list (take m (month_lengths y)) + d - 1)) =
      Some (word_of_nat m, word_of_nat (d - 1))"
proof -
  obtain y yd where y: "1970 \<le> y" "yd < year_length y" "unat days = (\<Sum>i = 1970..<y. year_length i) + yd"
    using split_year [of "unat days"] by blast
  note lim = year_limit [OF y(1,2)]
  have lim: "y \<le> 3476" "leap_days (y - 1) - 477 + yd < 730" using lim assms y(3) by simp_all
  have small: "sum_list (month_lengths y) < 2 ^ 31" by (simp add: month_lengths_def)
  have len: "length (month_lengths y) = 12" by (simp add: month_lengths_def)
  obtain m d where m: "m < 12" "d < month_lengths y ! m" "yd = sum_list (take m (month_lengths y)) + d"
    "month_loop (map word_of_nat (month_lengths y)) 0 (word_of_nat yd) = Some (word_of_nat m, word_of_nat d)"
    using month_loop_finds [OF small, of yd 0] y(2) unfolding year_length_def len by auto
  have "year_and_day days = (word_of_nat y, word_of_nat yd, is_leap y)"
    using year_and_day_date [OF y(3,1) lim(1) y(2) lim(2)] .
  moreover have "valid_date y m (Suc d)" "day_number y m (Suc d) = unat days" using m y by (simp_all add: valid_date_def day_number_def)
  moreover have "sum_list (take m (month_lengths y)) + Suc d - 1 = yd" "Suc d - 1 = d" using m(3) by simp_all
  ultimately show ?thesis using m(4) lim(1) by metis
qed

text \<open>The result of the conversion, with the words read as numbers.\<close>

lemma LocalTime_date:
  assumes c: "months_ok c" and t: "0 \<le> t" "t < 550420 * 86400"
  shows "\<exists>y m d f. valid_date y m d \<and> y \<le> 3476 \<and> int (day_number y m d) = t div 86400 \<and>
    Time_LocalTime_r h (Some t) (Some old) c = Some (c\<lparr>MonthDays := [31, f, 31, 30, 31, 30, 31, 31, 30, 31, 30, 31]\<rparr>,
      Some \<lparr>tm_us = 0, tm_sec = t mod 60, tm_min = t div 60 mod 60, tm_hour = t div 3600 mod 24, tm_mday = int d, tm_mon = int m,
        tm_year = int y - 1900, tm_wday = (t div 86400 + 4) mod 7, tm_yday = int (sum_list (take m (month_lengths y)) + d - 1)\<rparr>)"
proof -
  define days where "days = (word_of_int (t div 86400) :: u32)"
  have D: "0 \<le> t div 86400" "t div 86400 < 550420" using t by linarith+
  have ud: "int (unat days) = t div 86400" using D by (simp add: days_def take_bit_int_eq_self unsigned_of_int)
  then have "unat days < 550420" using D by linarith
  from local_date [OF this] obtain y m d where v: "valid_date y m d" "y \<le> 3476" "day_number y m d = unat days"
    and yad: "year_and_day days = (word_of_nat y, word_of_nat (sum_list (take m (month_lengths y)) + d - 1), is_leap y)"
    and loop: "month_loop (map word_of_nat (month_lengths y)) 0 (word_of_nat (sum_list (take m (month_lengths y)) + d - 1)) =
      Some (word_of_nat m, word_of_nat (d - 1))" by blast
  define yd where "yd = sum_list (take m (month_lengths y)) + d - 1"
  have b: "1970 \<le> y" "m < 12" "1 \<le> d" "d \<le> 31" "yd < 1000"
  proof -
    show 1: "1970 \<le> y" "m < 12" "1 \<le> d" using v(1) by (simp_all add: valid_date_def)
    show 2: "d \<le> 31" using valid_date_le [OF v(1)] .
    have "sum_list (take m (month_lengths y)) \<le> sum_list (month_lengths y)"
      by (metis append_take_drop_id le_add1 sum_list_append)
    moreover have "sum_list (month_lengths y) \<le> 366" using year_length [of y] by (simp add: year_length_def)
    ultimately show "yd < 1000" using 2 unfolding yd_def by linarith
  qed
  obtain f where f: "MonthDays c = [31, f, 31, 30, 31, 30, 31, 31, 30, 31, 30, 31]" using c by (auto simp: months_ok_def)
  have tab: "(MonthDays c)[1 := if is_leap y then 29 else 28] = map word_of_nat (month_lengths y)" by (simp add: f month_table)
  have clk: "sint (word_of_int (t smod 60) :: u32) = t mod 60" "sint (word_of_int (t sdiv 60 smod 60) :: u32) = t div 60 mod 60"
    "sint (word_of_int (t sdiv 3600 smod 24) :: u32) = t div 3600 mod 24" "t sdiv 86400 = t div 86400"
    using t(1) by (auto simp: sdiv_nonneg smod_nonneg pos_imp_zdiv_nonneg_iff intro!: sint_small pos_mod_bound [THEN order_less_trans])
  have "word_of_nat (d - 1) + 1 = (word_of_nat d :: u32)" using b by (simp add: of_nat_diff)
  then have dd: "sint (word_of_nat (d - 1) + 1 :: u32) = int d" using b by (simp add: sint_small_nat)
  have "word_of_nat y - 1900 = (word_of_int (int y - 1900) :: u32)" by simp
  then have yy: "sint (word_of_nat y - 1900 :: u32) = int y - 1900" using sint_small [of "int y - 1900"] b v(2) by (simp only: )  simp
  have "unat (days + 4) = unat days + 4" using unat_add_small [of days 550420 4 4] \<open>unat days < 550420\<close> by simp
  then have "unat ((days + 4) mod 7) = (unat days + 4) mod 7" by (simp add: unat_mod)
  then have "(days + 4) mod 7 = word_of_nat ((unat days + 4) mod 7)" by (rule word_of_nat_eqI)
  moreover have "(unat days + 4) mod 7 < 2 ^ 31" by (rule order_less_trans [of _ 7]) simp_all
  ultimately have "sint ((days + 4) mod 7) = int ((unat days + 4) mod 7)" using sint_small_nat by metis
  also have "\<dots> = (t div 86400 + 4) mod 7" using ud by (simp add: zmod_int)
  finally have ww: "sint ((days + 4) mod 7) = (t div 86400 + 4) mod 7" .
  have "Time_LocalTime_r h (Some t) (Some old) c = Some (c\<lparr>MonthDays := map word_of_nat (month_lengths y)\<rparr>,
      Some \<lparr>tm_us = 0, tm_sec = t mod 60, tm_min = t div 60 mod 60, tm_hour = t div 3600 mod 24, tm_mday = int d, tm_mon = int m,
        tm_year = int y - 1900, tm_wday = (t div 86400 + 4) mod 7, tm_yday = int yd\<rparr>)"
  proof -
    have nl: "\<not> 47650000000 < t" using t(2) by linarith
    have mm: "sint (word_of_nat m :: u32) = int m" "sint (word_of_nat yd :: u32) = int yd" using b by (simp_all add: sint_small_nat)
    have upd: "MonthDays (MonthDays_update (\<lambda>_. x) c) = x" for x by simp
    show ?thesis
      unfolding Time_LocalTime_r_def
      by (simp only: option.simps Let_def prod.case if_False nl clk days_def [symmetric] yad [folded yd_def] upd tab loop [folded yd_def]
          bind.simps dd yy ww mm)
  qed
  then show ?thesis using v ud unfolding month_table yd_def by metis
qed

section \<open>The theorems on the calendar\<close>

lemma secs_parts: "((t div 86400 * 24 + t div 3600 mod 24) * 60 + t div 60 mod 60) * 60 + t mod 60 = (t :: int)"
proof -
  have "t div 3600 = t div 60 div 60" "t div 86400 = t div 3600 div 24" by (simp_all add: zdiv_zmult2_eq flip: mult.assoc)
  then have "t div 86400 * 24 + t div 3600 mod 24 = t div 3600" "t div 3600 * 60 + t div 60 mod 60 = t div 60" by simp_all
  then show ?thesis by simp
qed

text \<open>C24. \<open>Time_MkTime\<close> counts: for every valid date from 1970 to the year 1000000 its result is the number of days since 1 January 1970,
  by the rules of the Gregorian calendar, in seconds, plus the time of day; the arithmetic on unsigned words never wraps around in a
  harmful way.\<close>

theorem MkTime_counts:
  assumes "tm_valid dt" "tm_year dt \<le> 998100"
  shows "Time_MkTime dt = (case date_of dt of (y, m, d) \<Rightarrow>
    ((int (day_number y m d) * 24 + tm_hour dt) * 60 + tm_min dt) * 60 + tm_sec dt)"
proof -
  obtain y m d where d: "date_of dt = (y, m, d)" by (cases "date_of dt")
  have v: "valid_date y m d" "0 \<le> tm_mon dt" using assms(1) d by (simp_all add: tm_valid_def)
  then have "tm_year dt = int y - 1900" "tm_mon dt = int m" "tm_mday dt = int d"
    using d by (auto simp: date_of_def valid_date_def)
  then show ?thesis using MkTime_days [OF v(1), of dt] assms(2) d by simp
qed

theorem MkTime_counts_witness:
  "Time_MkTime \<lparr>tm_us = 0, tm_sec = 56, tm_min = 34, tm_hour = 12, tm_mday = 29, tm_mon = 1, tm_year = 100, tm_wday = 0, tm_yday = 0\<rparr> =
    951827696"
proof -
  let ?dt = "\<lparr>tm_us = 0, tm_sec = 56, tm_min = 34, tm_hour = 12, tm_mday = 29, tm_mon = 1, tm_year = 100, tm_wday = 0, tm_yday = 0\<rparr>"
  have "is_leap 2000" by (simp add: is_leap_def)
  then have "tm_valid ?dt" and "day_number 2000 1 29 = 11016"
    using years_closed [of 2000] by (simp_all add: tm_valid_def date_of_def valid_date_def month_lengths_def day_number_def leap_days_def)
  then show ?thesis using MkTime_counts [of ?dt] by (simp add: date_of_def)
qed

text \<open>C25. \<open>Time_LocalTime_r\<close> inverts \<open>Time_MkTime\<close>: for every second from 1970 until the end of 30 December 3476 it returns, without leaving
  the table of month lengths, a valid date and time of day, the day of the week and of the year, and \<open>Time_MkTime\<close> gives the second back.\<close>

theorem LocalTime_inverts_MkTime:
  assumes "months_ok c" "0 \<le> t" "t < 550420 * 86400"
  shows "\<exists>c' dt. Time_LocalTime_r h (Some t) (Some old) c = Some (c', Some dt) \<and> months_ok c' \<and> tm_valid dt \<and> Time_MkTime dt = t \<and>
    tm_us dt = 0 \<and> tm_wday dt = (t div 86400 + 4) mod 7 \<and>
    (case date_of dt of (y, m, d) \<Rightarrow> int (day_number y m d) = t div 86400 \<and> tm_yday dt = int (day_number y m d - day_number y 0 1))"
proof -
  obtain y m d f where v: "valid_date y m d" "y \<le> 3476" and D: "int (day_number y m d) = t div 86400"
    and r: "Time_LocalTime_r h (Some t) (Some old) c = Some (c\<lparr>MonthDays := [31, f, 31, 30, 31, 30, 31, 31, 30, 31, 30, 31]\<rparr>,
      Some \<lparr>tm_us = 0, tm_sec = t mod 60, tm_min = t div 60 mod 60, tm_hour = t div 3600 mod 24, tm_mday = int d, tm_mon = int m,
        tm_year = int y - 1900, tm_wday = (t div 86400 + 4) mod 7, tm_yday = int (sum_list (take m (month_lengths y)) + d - 1)\<rparr>)"
    (is "_ = Some (?c, Some ?dt)")
    using LocalTime_date [OF assms] by metis
  have dt: "date_of ?dt = (y, m, d)" by (simp add: date_of_def)
  have "Time_MkTime ?dt = ((int (day_number y m d) * 24 + tm_hour ?dt) * 60 + tm_min ?dt) * 60 + tm_sec ?dt"
    by (rule MkTime_days [OF v(1)]) (use v(2) in simp_all)
  also have "\<dots> = t" by (simp only: tm.select_convs D secs_parts)
  finally have mk: "Time_MkTime ?dt = t" .
  have ok: "tm_valid ?dt" using v(1) by (simp add: tm_valid_def date_of_def)
  have yd: "day_number y m d - day_number y 0 1 = sum_list (take m (month_lengths y)) + d - 1"
    using v(1) by (simp add: day_number_def valid_date_def)
  show ?thesis
  proof (intro exI conjI)
    show "Time_LocalTime_r h (Some t) (Some old) c = Some (?c, Some ?dt)" by (rule r)
    show "months_ok ?c" by (simp add: months_ok_def)
    show "case date_of ?dt of (y, m, d) \<Rightarrow> int (day_number y m d) = t div 86400 \<and> tm_yday ?dt = int (day_number y m d - day_number y 0 1)"
      unfolding dt prod.case yd using D by (simp only: tm.select_convs simp_thms)
  qed (simp_all only: tm.select_convs mk ok)
qed

definition sample_clock :: clock where
  "sample_clock = \<lparr>fnSysTimeHard32 = False, fnSysTimeHard64 = False, SysTimeFreq = 1000000, SysTimeCycle = 10000, sysTimeMajor = 0,
     BakCounter = 0, RtcTimeSet = 946684800000000, RtcUpdateTime2SysTime = 0, fnRtcGetTime = False, fnRtcSetTime = False,
     MonthDays = [31, 28, 31, 30, 31, 30, 31, 31, 30, 31, 30, 31], MyTimezone = 8,
     datetime_GmUs = no_tm, datetime_ZoneUs = no_tm, datetime_LocalUs = no_tm\<rparr>"

definition sample_hw :: hw where
  "sample_hw = \<lparr>hw_tick = 0, hw32 = 0, hw64 = 0, hw_rtc = None, hw_set = True\<rparr>"

lemma sample_months_ok: "months_ok sample_clock"
  by (simp add: months_ok_def sample_clock_def)

theorem LocalTime_inverts_MkTime_witness:
  "\<exists>c' dt. Time_LocalTime_r sample_hw (Some 951827696) (Some no_tm) sample_clock = Some (c', Some dt) \<and> Time_MkTime dt = 951827696"
  using LocalTime_inverts_MkTime [OF sample_months_ok, of 951827696 sample_hw no_tm] by auto

lemma beyond_days:
  "w \<in> {550420, 550785, 551150} \<Longrightarrow> case year_and_day w of (y, yd, b) \<Rightarrow>
     month_loop [31, if b then 29 else 28, 31, 30, 31, 30, 31, 31, 30, 31, 30, 31] 0 yd = None"
proof (elim insertE emptyE; hypsubst)
  show "case year_and_day 550420 of (y, yd, b) \<Rightarrow> month_loop [31, if b then 29 else 28, 31, 30, 31, 30, 31, 31, 30, 31, 30, 31] 0 yd = None"
    by code_simp
  show "case year_and_day 550785 of (y, yd, b) \<Rightarrow> month_loop [31, if b then 29 else 28, 31, 30, 31, 30, 31, 31, 30, 31, 30, 31] 0 yd = None"
    by code_simp
  show "case year_and_day 551150 of (y, yd, b) \<Rightarrow> month_loop [31, if b then 29 else 28, 31, 30, 31, 30, 31, 31, 30, 31, 30, 31] 0 yd = None"
    by code_simp
qed

text \<open>C26. \<open>Time_LocalTime_r\<close> accepts times up to 47650000000 seconds, but on 31 December of the years 3476, 3477 and 3478 it reads behind the
  table of month lengths: the day of the year it computes is that of a year that has not begun.\<close>

theorem LocalTime_reads_beyond:
  assumes "months_ok c" "t div 86400 \<in> {550420, 550785, 551150}"
  shows "t \<le> 47650000000 \<and> Time_LocalTime_r h (Some t) (Some old) c = None"
proof -
  have t: "0 \<le> t" "t \<le> 47650000000" using assms(2) by auto
  obtain f where f: "MonthDays c = [31, f, 31, 30, 31, 30, 31, 31, 30, 31, 30, 31]" using assms(1) by (auto simp: months_ok_def)
  have "word_of_int (t div 86400) \<in> {550420, 550785, 551150 :: u32}" using assms(2) by auto
  from beyond_days [OF this] obtain y yd b where y: "year_and_day (word_of_int (t div 86400)) = (y, yd, b)"
    and l: "month_loop [31, if b then 29 else 28, 31, 30, 31, 30, 31, 31, 30, 31, 30, 31] 0 yd = None"
    by (auto split: prod.splits)
  have sd: "t sdiv 86400 = t div 86400" using t(1) by (simp add: sdiv_nonneg)
  have "(MonthDays c)[1 := if b then 29 else 28] = [31, if b then 29 else 28, 31, 30, 31, 30, 31, 31, 30, 31, 30, 31]" by (simp add: f)
  moreover have "\<not> 47650000000 < t" using t by simp
  moreover have "MonthDays (MonthDays_update (\<lambda>_. x) c) = x" for x by simp
  ultimately show ?thesis using t unfolding Time_LocalTime_r_def
    by (simp only: option.simps Let_def prod.case if_False sd y l bind.simps)
qed

theorem LocalTime_reads_beyond_witness: "Time_LocalTime_r sample_hw (Some 47556288000) (Some no_tm) sample_clock = None"
  using LocalTime_reads_beyond [OF sample_months_ok, of 47556288000 sample_hw no_tm] by simp

end
