(* ===== verification/Djy_Clock.thy ===== *)
theory Djy_Clock
  imports Djy_Time
begin

text \<open>
  Properties of the system time (the short hardware counter is extended to 64 bits without losing a period), of the calendar clock without
  a device, and of printing and reading dates.  The definitions are in \<open>Djy_Time\<close>.
\<close>

section \<open>System time\<close>

lemma uint_pos: "w \<noteq> 0 \<Longrightarrow> 0 < uint w"
  by (metis order_less_le unsigned_eq_0_iff unsigned_greater_eq)

lemma cycles_to_us: "0 \<le> t \<Longrightarrow> f \<noteq> 0 \<Longrightarrow> cycles_to_us t f = t * 1000000 div uint f"
proof -
  assume t: "0 \<le> t" and "f \<noteq> 0"
  then have f: "0 < uint f" by (simp add: uint_pos)
  have "t * 1000000 = (t mod uint f) * 1000000 + uint f * (t div uint f * 1000000)"
    by (metis (no_types, opaque_lifting) distrib_right mod_mult_div_eq mult.assoc)
  then have "t * 1000000 div uint f = t div uint f * 1000000 + (t mod uint f) * 1000000 div uint f"
    using f by simp
  then show ?thesis using t f by (simp add: cycles_to_us_def sdiv_nonneg smod_nonneg)
qed

text \<open>The three functions that read the short counter, in any order.\<close>

datatype time_op = ReadUs | ReadCycles | Maintain

fun time_run :: "(time_op \<times> hw) list \<Rightarrow> clock \<Rightarrow> clock \<times> int option list" where
  "time_run [] c = (c, [])"
| "time_run ((ReadUs, h) # ops) c =
     (let (c, t) = DJY_GetSysTime h c; (c, ts) = time_run ops c in (c, Some t # ts))"
| "time_run ((ReadCycles, h) # ops) c =
     (let (c, t) = DJY_GetSysTimeCycle h c; (c, ts) = time_run ops c in (c, Some t # ts))"
| "time_run ((Maintain, h) # ops) c = (let (c, ts) = time_run ops (DJY_MaintainSysTime h c) in (c, None # ts))"

text \<open>\<open>N\<close> is the number of cycles that the timer had really counted at the last reading.\<close>

definition counter_inv :: "int \<Rightarrow> clock \<Rightarrow> bool" where
  "counter_inv N c \<longleftrightarrow> fnSysTimeHard32 c \<and> SysTimeCycle c \<noteq> 0 \<and> 0 \<le> N \<and>
     uint (BakCounter c) = N mod uint (SysTimeCycle c) \<and> sysTimeMajor c + uint (BakCounter c) = N"

fun paced :: "int \<Rightarrow> int \<Rightarrow> int list \<Rightarrow> bool" where
  "paced cyc N [] = True"
| "paced cyc N (n # ns) = (N \<le> n \<and> n < N + cyc \<and> paced cyc n ns)"

definition time_result :: "u32 \<Rightarrow> time_op \<Rightarrow> int \<Rightarrow> int option" where
  "time_result f opr n = (case opr of ReadUs \<Rightarrow> Some (n * 1000000 div uint f) | ReadCycles \<Rightarrow> Some n | Maintain \<Rightarrow> None)"

lemma read_hard32_counts:
  assumes inv: "counter_inv N c" and n: "N \<le> n" "n < N + uint (SysTimeCycle c)" and h: "uint (hw32 h) = n mod uint (SysTimeCycle c)"
  shows "counter_inv n (read_hard32 h c)" "sysTimeMajor (read_hard32 h c) + uint (hw32 h) = n"
    "SysTimeCycle (read_hard32 h c) = SysTimeCycle c" "SysTimeFreq (read_hard32 h c) = SysTimeFreq c"
proof -
  let ?C = "uint (SysTimeCycle c)"
  have C: "0 < ?C" using inv by (simp add: counter_inv_def uint_pos)
  have N: "sysTimeMajor c = N div ?C * ?C" using inv by (simp add: counter_inv_def minus_mod_eq_div_mult [symmetric])
  have q: "n div ?C = N div ?C \<or> n div ?C = N div ?C + 1"
  proof -
    have "n div ?C \<le> (N + ?C) div ?C" using n C by (intro zdiv_mono1) simp_all
    moreover have "N div ?C \<le> n div ?C" using n C by (intro zdiv_mono1)
    moreover have "(N + ?C) div ?C = N div ?C + 1" using C by (intro div_add_self2) simp
    ultimately show ?thesis by linarith
  qed
  have "hw32 h < BakCounter c \<longleftrightarrow> n div ?C = N div ?C + 1"
  proof -
    have "n mod ?C = n - n div ?C * ?C" "N mod ?C = N - N div ?C * ?C" by (simp_all add: minus_div_mult_eq_mod)
    moreover have "hw32 h < BakCounter c \<longleftrightarrow> n mod ?C < N mod ?C" using h inv by (simp add: word_less_def counter_inv_def)
    ultimately show ?thesis using q n by (auto simp: distrib_right)
  qed
  then have "sysTimeMajor (read_hard32 h c) = n div ?C * ?C"
    using q N by (auto simp: read_hard32_def Let_def distrib_right)
  then show "sysTimeMajor (read_hard32 h c) + uint (hw32 h) = n" using h by simp
  moreover have "BakCounter (read_hard32 h c) = hw32 h" "fnSysTimeHard32 (read_hard32 h c) = fnSysTimeHard32 c"
    by (simp_all add: read_hard32_def Let_def)
  moreover show "SysTimeCycle (read_hard32 h c) = SysTimeCycle c" "SysTimeFreq (read_hard32 h c) = SysTimeFreq c"
    by (simp_all add: read_hard32_def Let_def)
  ultimately show "counter_inv n (read_hard32 h c)" using inv n h by (simp add: counter_inv_def)
qed

lemma GetSysTime_hard32:
  assumes "fnSysTimeHard32 c"
  shows "DJY_GetSysTime h c = (read_hard32 h c, cycles_to_us (sysTimeMajor (read_hard32 h c) + uint (hw32 h)) (SysTimeFreq (read_hard32 h c)))"
    "DJY_GetSysTimeCycle h c = (read_hard32 h c, sysTimeMajor (read_hard32 h c) + uint (hw32 h))"
    "DJY_MaintainSysTime h c = read_hard32 h c"
  using assms by (simp_all add: DJY_GetSysTime_def DJY_GetSysTimeCycle_def DJY_MaintainSysTime_def Let_def)

text \<open>C27. The system time is exact: if the timer is read at least once in each of its periods, by whatever function, every reading in cycles is
  the number of cycles really counted, and every reading in microseconds is that number times a million, divided by the frequency and rounded
  down, although the code never forms the product.\<close>

theorem SysTime_exact:
  assumes "counter_inv N c" "SysTimeFreq c \<noteq> 0" "paced (uint (SysTimeCycle c)) N ns"
    and "list_all2 (\<lambda>(_, h) n. uint (hw32 h) = n mod uint (SysTimeCycle c)) ops ns"
  shows "\<exists>c'. time_run ops c = (c', map2 (\<lambda>(opr, _) n. time_result (SysTimeFreq c) opr n) ops ns) \<and> counter_inv (last (N # ns)) c'"
  using assms
proof (induction ops arbitrary: N ns c)
  case Nil
  then show ?case by simp
next
  case (Cons x ops)
  obtain opr h where x: "x = (opr, h)" by (cases x)
  obtain n ms where ns: "ns = n # ms" using Cons.prems(4) by (cases ns) auto
  let ?c = "read_hard32 h c"
  have r: "counter_inv n ?c" "sysTimeMajor ?c + uint (hw32 h) = n" "SysTimeCycle ?c = SysTimeCycle c" "SysTimeFreq ?c = SysTimeFreq c"
    using read_hard32_counts [OF Cons.prems(1)] Cons.prems(3,4) by (auto simp: ns x)
  then obtain c' where c': "time_run ops ?c = (c', map2 (\<lambda>(opr, _) n. time_result (SysTimeFreq c) opr n) ops ms)"
    "counter_inv (last (n # ms)) c'"
    using Cons.IH [OF r(1), of ms] Cons.prems by (auto simp: ns x)
  have us: "cycles_to_us n (SysTimeFreq c) = n * 1000000 div uint (SysTimeFreq c)"
    using r(1) Cons.prems(2) by (intro cycles_to_us) (simp_all add: counter_inv_def)
  have "fnSysTimeHard32 c" using Cons.prems(1) by (simp add: counter_inv_def)
  then show ?case using c' r us by (cases opr) (simp_all add: ns x GetSysTime_hard32 time_result_def)
qed

definition hw_count :: "u32 \<Rightarrow> hw" where
  "hw_count n = \<lparr>hw_tick = uint n, hw32 = n, hw64 = 0, hw_rtc = None, hw_set = True\<rparr>"

theorem SysTime_exact_witness:
  "snd (time_run [(ReadCycles, hw_count 900), (Maintain, hw_count 100), (ReadUs, hw_count 50)]
    (sample_clock\<lparr>fnSysTimeHard32 := True, SysTimeFreq := 3, SysTimeCycle := 1000\<rparr>)) = [Some 900, None, Some 683333333]"
  using SysTime_exact [of 0 "sample_clock\<lparr>fnSysTimeHard32 := True, SysTimeFreq := 3, SysTimeCycle := 1000\<rparr>" "[900, 1100, 2050]"
      "[(ReadCycles, hw_count 900), (Maintain, hw_count 100), (ReadUs, hw_count 50)]"]
  by (auto simp: hw_count_def counter_inv_def sample_clock_def time_result_def)

text \<open>The calendar time is the system time plus a constant.\<close>

definition rtc_inv :: "int \<Rightarrow> clock \<Rightarrow> bool" where
  "rtc_inv off c \<longleftrightarrow> RtcTimeSet c = RtcUpdateTime2SysTime c + off \<and> 0 \<le> off \<and> 0 \<le> RtcUpdateTime2SysTime c"

lemma GetSysTime_rtc:
  assumes "DJY_GetSysTime h c = (c1, s)"
  shows "RtcTimeSet c1 = RtcTimeSet c" "RtcUpdateTime2SysTime c1 = RtcUpdateTime2SysTime c" "fnRtcGetTime c1 = fnRtcGetTime c"
    "fnRtcSetTime c1 = fnRtcSetTime c"
  using assms by (auto simp: DJY_GetSysTime_def read_hard32_def Let_def split: if_splits)



section \<open>Printing and reading dates\<close>

definition dig :: "nat \<Rightarrow> u8" where "dig n = 48 + word_of_nat n"

lemma dig_facts:
  assumes "n < 10"
  shows "is_digit (dig n)" "uint (dig n - 48) = int n" "dig n \<noteq> 0" "\<not> is_space (dig n)" "dig n \<noteq> 43" "dig n \<noteq> 45"
proof -
  have "n \<in> {0, 1, 2, 3, 4, 5, 6, 7, 8, 9}" using assms by (simp; arith)
  then show "is_digit (dig n)" "uint (dig n - 48) = int n" "dig n \<noteq> 0" "\<not> is_space (dig n)" "dig n \<noteq> 43" "dig n \<noteq> 45"
    by (elim insertE emptyE; simp add: dig_def is_digit_def is_space_def)+
qed

lemma dec_small: "n < 10 \<Longrightarrow> dec n = [dig n]"
  by (simp add: dec.simps dig_def)

lemma dec_big: "10 \<le> n \<Longrightarrow> dec n = dec (n div 10) @ [dig (n mod 10)]"
  by (subst dec.simps) (simp add: dig_def)

lemma digits_val_append: "digits_val (xs @ [x]) = 10 * digits_val xs + uint (x - 48)"
  by (simp add: digits_val_def)

lemma dec_reads: "digits_val (dec n) = int n \<and> list_all is_digit (dec n) \<and> dec n \<noteq> [] \<and> 0 \<notin> set (dec n)"
proof (induction n rule: less_induct)
  case (less n)
  show ?case
  proof (cases "n < 10")
    case True
    then show ?thesis using dig_facts [of n] by (simp add: dec_small digits_val_def)
  next
    case False
    then have "digits_val (dec (n div 10)) = int (n div 10) \<and> list_all is_digit (dec (n div 10)) \<and> dec (n div 10) \<noteq> [] \<and> 0 \<notin> set (dec (n div 10))"
      by (intro less.IH) simp
    moreover have "10 * int (n div 10) + int (n mod 10) = int n" by (metis of_nat_add of_nat_mult of_nat_numeral mult_div_mod_eq)
    ultimately show ?thesis using False dig_facts [of "n mod 10"] dec_big [of n] by (simp add: digits_val_append)
  qed
qed

lemma dec_length4: "1000 \<le> y \<Longrightarrow> y < 10000 \<Longrightarrow> length (dec y) = 4"
  by (simp add: dec_big dec_small div_mult2_eq [symmetric])

definition two :: "nat \<Rightarrow> u8 list" where "two v = [dig (v div 10), dig (v mod 10)]"

lemma mem_write_append:
  assumes "length P = i" "length d \<le> length R"
  shows "mem_write (P @ R) i d = Some (P @ d @ drop (length d) R)"
  using assms by (simp add: mem_write_def)

lemma put2_append:
  assumes "length P = i" "3 \<le> length R" "0 \<le> v" "v < 100"
  shows "put2 v i sep (P @ R) = Some ((P @ two (nat v) @ [sep]) @ drop 3 R)"
proof -
  obtain x y z R' where R: "R = x # y # z # R'" using assms(2) by (metis Suc_le_length_iff numeral_3_eq_3)
  have P: "mem_read (P @ a # b # R'') (Suc i) (Suc 0) = Some [b]" "mem_read (P @ a # R'') i (Suc 0) = Some [a]" for a b R''
    using assms(1) by (simp_all add: mem_read_def)
  have W: "mem_write (P @ a # b # R'') (Suc i) [w] = Some (P @ a # w # R'')" "put i w (P @ a # R'') = Some (P @ w # R'')"
    "put (Suc (Suc i)) w (P @ a # b # d # R'') = Some (P @ a # b # w # R'')" for a b d w R''
    using assms(1) by (simp_all add: mem_write_def put_def)
  show ?thesis
  proof (cases "v < 10")
    case True
    then have "itoa v i (P @ R) = Some (P @ dig (nat v) # 0 # z # R')"
      using assms by (simp add: itoa_def dec_small mem_write_append R)
    moreover have "dig (nat v mod 10) = dig (nat v)" "dig (nat v div 10) = 48" using True assms(3) by (simp_all add: dig_def)
    ultimately show ?thesis by (simp add: put2_def P W R two_def)
  next
    case False
    have n: "nat v div 10 < 10" "nat v mod 10 < 10" using assms(4) by linarith+
    then have "itoa v i (P @ R) = Some (P @ dig (nat v div 10) # dig (nat v mod 10) # 0 # R')"
      using assms False by (simp add: itoa_def dec_big dec_small mem_write_append R)
    then show ?thesis using dig_facts(3) [OF n(2)] by (simp add: put2_def P W R two_def)
  qed
qed

definition date_string :: "tm \<Rightarrow> u8 list" where
  "date_string dt = dec (nat (tm_year dt + 1900)) @ 47 # two (nat (tm_mon dt + 1)) @ 47 # two (nat (tm_mday dt)) @ 44 #
     two (nat (tm_hour dt)) @ 58 # two (nat (tm_min dt)) @ 58 # two (nat (tm_sec dt))"

lemma AscTime_string:
  assumes v: "tm_valid dt" and y: "tm_year dt \<le> 8099" and len: "20 \<le> length buf"
  shows "Time_AscTime (Some dt) (Some buf) = Some (date_string dt @ 0 # drop 20 buf)"
proof -
  have b: "0 \<le> tm_mon dt" "tm_mon dt + 1 < 100" "0 \<le> tm_mday dt" "tm_mday dt < 100" "tm_hour dt < 100" "tm_min dt < 100" "tm_sec dt < 100"
    "0 \<le> tm_hour dt" "0 \<le> tm_min dt" "0 \<le> tm_sec dt" "1970 \<le> tm_year dt + 1900"
  proof -
    have vd: "valid_date (nat (tm_year dt + 1900)) (nat (tm_mon dt)) (nat (tm_mday dt))" using v by (simp add: tm_valid_def date_of_def)
    then have "nat (tm_mday dt) \<le> 31" by (rule valid_date_le)
    then show "tm_mday dt < 100" by simp
  qed (use v in \<open>auto simp: tm_valid_def date_of_def valid_date_def\<close>)
  define Y where "Y = dec (nat (tm_year dt + 1900))"
  have Y: "length Y = 4" using b y by (simp add: Y_def dec_length4)
  have "itoa (tm_year dt + 1900) 0 buf = Some (Y @ 0 # drop 5 buf)"
    using mem_write_append [of "[]" 0 "Y @ [0]" buf] b Y len by (simp add: itoa_def Y_def)
  moreover have "put 4 47 (Y @ 0 # drop 5 buf) = Some ((Y @ [47]) @ drop 5 buf)"
    using mem_write_append [of Y 4 "[47]" "0 # drop 5 buf"] Y by (simp add: put_def)
  ultimately show ?thesis
    unfolding Time_AscTime_def option.case prod.case date_string_def Y_def [symmetric]
    using b len Y by (simp add: put2_append two_def del: append.simps append_assoc)
qed

lemma scan_int_digits:
  assumes ds: "ds \<noteq> []" "list_all is_digit ds" and r: "r = [] \<or> \<not> is_digit (hd r)"
  shows "scan_int (ds @ r) = Some (digits_val ds, r)"
proof -
  obtain x xs where x: "ds = x # xs" using ds(1) by (cases ds) auto
  have dx: "is_digit x" using ds(2) x by simp
  then have nx: "\<not> is_space x" "x \<noteq> 45" "x \<noteq> 43"
    by (auto simp: is_digit_def is_space_def word_le_nat_alt word_unat_eq_iff)
  have t: "takeWhile is_digit (ds @ r) = ds" "dropWhile is_digit (ds @ r) = r"
    using ds(2) r by (cases r; simp add: takeWhile_append2 dropWhile_append2 list_all_iff)+
  then have "scan_nat (ds @ r) = Some (digits_val ds, r)" by (simp only: scan_nat_def t) (simp add: x)
  then show ?thesis using nx by (simp add: scan_int_def x)
qed

lemma two_facts:
  assumes "v < 100"
  shows "two v \<noteq> []" "list_all is_digit (two v)" "digits_val (two v) = int v" "0 \<notin> set (two v)"
proof -
  have "v div 10 < 10" "v mod 10 < 10" using assms by linarith+
  note d = this [THEN dig_facts(1)] this [THEN dig_facts(2)] this [THEN dig_facts(3)]
  have "10 * int (v div 10) + int (v mod 10) = int v" by (metis of_nat_add of_nat_mult of_nat_numeral mult_div_mod_eq)
  then show "two v \<noteq> []" "list_all is_digit (two v)" "digits_val (two v) = int v" "0 \<notin> set (two v)"
    using d by (auto simp: two_def digits_val_def)
qed

lemma scan_two: "v < 100 \<Longrightarrow> r = [] \<or> \<not> is_digit (hd r) \<Longrightarrow> scan_int (two v @ r) = Some (int v, r)"
  using scan_int_digits [of "two v" r] two_facts [of v] by simp

lemma scan_dec: "r = [] \<or> \<not> is_digit (hd r) \<Longrightarrow> scan_int (dec n @ r) = Some (int n, r)"
  using scan_int_digits [of "dec n" r] dec_reads [of n] by simp

lemma seps_no_digit: "\<not> is_digit 47" "\<not> is_digit 44" "\<not> is_digit 58"
  by (simp_all add: is_digit_def)

lemma tm_valid_bounds:
  assumes "tm_valid dt"
  shows "0 \<le> tm_mon dt" "tm_mon dt < 12" "1 \<le> tm_mday dt" "tm_mday dt \<le> 31" "tm_hour dt < 24" "tm_min dt < 60" "tm_sec dt < 60"
    "0 \<le> tm_hour dt" "0 \<le> tm_min dt" "0 \<le> tm_sec dt" "70 \<le> tm_year dt"
proof -
  have vd: "valid_date (nat (tm_year dt + 1900)) (nat (tm_mon dt)) (nat (tm_mday dt))" using assms by (simp add: tm_valid_def date_of_def)
  then have "nat (tm_mday dt) \<le> 31" by (rule valid_date_le)
  then show "tm_mday dt \<le> 31" by simp
qed (use assms in \<open>auto simp: tm_valid_def date_of_def valid_date_def\<close>)

lemma date_string_scan:
  assumes "tm_valid dt"
  shows "scan_fields [47, 47, 44, 58, 58, 58] (date_string dt) =
    [tm_year dt + 1900, tm_mon dt + 1, tm_mday dt, tm_hour dt, tm_min dt, tm_sec dt]"
  using tm_valid_bounds [OF assms] scan_two [of "nat (tm_sec dt)" "[]"]
  by (simp add: date_string_def scan_dec scan_two seps_no_digit)

lemma date_string_nonzero: "tm_valid dt \<Longrightarrow> 0 \<notin> set (date_string dt)"
  using tm_valid_bounds [of dt] dec_reads [of "nat (tm_year dt + 1900)"] by (auto simp: date_string_def two_facts)

text \<open>The check of the day for a valid date: only the table can object, when it holds 28 for February.\<close>

lemma bad_day_valid:
  assumes v: "tm_valid dt" and c: "months_ok c"
  shows "bad_day (MonthDays c) (tm_year dt + 1900) (tm_mon dt) (tm_mday dt) =
    Some (tm_mon dt = 1 \<and> tm_mday dt > sint (MonthDays c ! 1))"
proof -
  obtain f where f: "MonthDays c = [31, f, 31, 30, 31, 30, 31, 31, 30, 31, 30, 31]" using c by (auto simp: months_ok_def)
  define m where "m = nat (tm_mon dt)"
  have b: "tm_mon dt = int m" "m < 12" "0 \<le> tm_year dt + 1900" using tm_valid_bounds [OF v] by (simp_all add: m_def)
  have le: "nat (tm_mday dt) \<le> month_lengths (nat (tm_year dt + 1900)) ! m"
    using v by (simp add: tm_valid_def date_of_def valid_date_def m_def)
  define y where "y = nat (tm_year dt + 1900)"
  have y: "tm_year dt + 1900 = int y" using b(3) by (simp add: y_def)
  have "int y mod 4 = int (y mod 4)" "int y mod 100 = int (y mod 100)" "int y mod 400 = int (y mod 400)" by (simp_all add: zmod_int)
  then have leap: "is_leap y \<longleftrightarrow> int y mod 4 = 0 \<and> \<not> (int y mod 100 = 0 \<and> int y mod 400 \<noteq> 0)"
    unfolding is_leap_def dvd_eq_mod_eq_0 by auto
  have "m \<in> {0, 1, 2, 3, 4, 5, 6, 7, 8, 9, 10, 11}" using b(2) by (simp; arith)
  then show ?thesis using le [folded y_def] tm_valid_bounds(3,4) [OF v] b(1) leap unfolding y
    by (elim insertE emptyE) (auto simp: bad_day_def f month_lengths_def smod_nonneg split: if_splits)
qed

text \<open>C29. A date printed by \<open>Time_AscTime\<close> into a buffer of at least 20 bytes is a string of 19 characters, and \<open>Time_SetDateTimeStr\<close> reads the same date
  back and sets the clock to it; with one exception: the check of the day uses the table of month lengths as the last conversion has left
  it, so 29 February is refused when that conversion was in a year without it.\<close>

theorem DateTimeStr_roundtrip:
  assumes "tm_valid dt" "tm_year dt \<le> 200" "months_ok c" "20 \<le> length buf"
  shows "\<exists>b. Time_AscTime (Some dt) (Some buf) = Some b \<and> length b = length buf \<and> length (takeWhile (\<lambda>x. x \<noteq> 0) b) = 19 \<and>
    Time_SetDateTimeStr h (Some (takeWhile (\<lambda>x. x \<noteq> 0) b)) c =
      Some (if tm_mon dt = 1 \<and> tm_mday dt > sint (MonthDays c ! 1) then (c, Inl EN_CLOCK_DAY_ERROR)
            else (Time_SetDateTime h (dt\<lparr>tm_us := 0, tm_wday := 0, tm_yday := 0\<rparr>) c, Inr ()))"
proof -
  note b = tm_valid_bounds [OF assms(1)]
  have a: "Time_AscTime (Some dt) (Some buf) = Some (date_string dt @ 0 # drop 20 buf)"
    using assms by (intro AscTime_string) simp_all
  have s: "takeWhile (\<lambda>x. x \<noteq> 0) (date_string dt @ 0 # drop 20 buf) = date_string dt"
    using date_string_nonzero [OF assms(1)] by (subst takeWhile_append2) auto
  have l: "length (date_string dt) = 19" using b assms(2) by (simp add: date_string_def two_def dec_length4)
  have "Time_SetDateTimeStr h (Some (date_string dt)) c =
      Some (if tm_mon dt = 1 \<and> tm_mday dt > sint (MonthDays c ! 1) then (c, Inl EN_CLOCK_DAY_ERROR)
            else (Time_SetDateTime h (dt\<lparr>tm_us := 0, tm_wday := 0, tm_yday := 0\<rparr>) c, Inr ()))"
    unfolding Time_SetDateTimeStr_def option.case Let_def date_string_scan [OF assms(1)]
    using b assms(2) bad_day_valid [OF assms(1,3)] by (cases dt) simp
  then show ?thesis using a s l assms(4) by simp
qed

theorem DateTimeStr_roundtrip_witness:
  "Time_SetDateTimeStr sample_hw (Some [50,48,48,48,47,48,50,47,50,57,44,49,50,58,51,52,58,53,54]) sample_clock =
    Some (sample_clock, Inl EN_CLOCK_DAY_ERROR) \<and>
   Time_SetDateTimeStr sample_hw (Some [50,48,48,48,47,48,50,47,50,57,44,49,50,58,51,52,58,53,54])
     (sample_clock\<lparr>MonthDays := [31, 29, 31, 30, 31, 30, 31, 31, 30, 31, 30, 31]\<rparr>) =
    Some (sample_clock\<lparr>MonthDays := [31, 29, 31, 30, 31, 30, 31, 31, 30, 31, 30, 31], RtcTimeSet := 951827696000000\<rparr>, Inr ())"
proof -
  let ?dt = "\<lparr>tm_us = 0, tm_sec = 56, tm_min = 34, tm_hour = 12, tm_mday = 29, tm_mon = 1, tm_year = 100, tm_wday = 0, tm_yday = 0\<rparr>"
  let ?c = "sample_clock\<lparr>MonthDays := [31, 29, 31, 30, 31, 30, 31, 31, 30, 31, 30, 31]\<rparr>"
  have "is_leap 2000" by (simp add: is_leap_def)
  then have v: "tm_valid ?dt" by (simp add: tm_valid_def date_of_def valid_date_def month_lengths_def)
  have ok: "months_ok ?c" by (simp add: months_ok_def)
  have "Time_AscTime (Some ?dt) (Some (replicate 20 0)) =
      Some [50,48,48,48,47,48,50,47,50,57,44,49,50,58,51,52,58,53,54,0]"
    using AscTime_string [OF v, of "replicate 20 0"] by (simp add: date_string_def two_def dig_def dec_big dec_small)
  moreover have "Time_MkTimeUs ?dt = 951827696000000" by (simp add: Time_MkTimeUs_def Time_MkTime_def)
  ultimately show ?thesis
    using DateTimeStr_roundtrip [OF v _ sample_months_ok, of "replicate 20 0" sample_hw]
      DateTimeStr_roundtrip [OF v _ ok, of "replicate 20 0" sample_hw]
    by (simp add: sample_clock_def sample_hw_def Time_SetDateTime_def Rtc_SetTime_def DJY_GetSysTime_def)
qed

end
