(* ===== verification/Djy_List.thy ===== *)
theory Djy_List
  imports Djy_Prelude
begin

text \<open>
  The intrusive lists of \<open>src/djyos/core/list.c\<close>.  A node is an address; the state holds the members \<open>next\<close> and \<open>prev\<close> of all nodes.
  The assignments are carried out in the order of the source, each reading the memory as the earlier ones have left it.
  \<open>dlist_rep m h xs\<close> says that the circular list with the head node \<open>h\<close> has the nodes \<open>xs\<close>.
\<close>

record dnodes =
  dnext :: "nat \<Rightarrow> nat"
  dprev :: "nat \<Rightarrow> nat"

definition set_dnext :: "nat \<Rightarrow> nat \<Rightarrow> dnodes \<Rightarrow> dnodes" where
  "set_dnext x v m = m\<lparr>dnext := (dnext m)(x := v)\<rparr>"

definition set_dprev :: "nat \<Rightarrow> nat \<Rightarrow> dnodes \<Rightarrow> dnodes" where
  "set_dprev x v m = m\<lparr>dprev := (dprev m)(x := v)\<rparr>"

definition dListInit :: "nat \<Rightarrow> dnodes \<Rightarrow> dnodes" where
  "dListInit l m = set_dnext l l (set_dprev l l m)"

definition dListInsertAfter :: "nat \<Rightarrow> nat \<Rightarrow> dnodes \<Rightarrow> dnodes" where
  "dListInsertAfter loc node m =
     (let m = set_dprev (dnext m loc) node m;
          m = set_dnext node (dnext m loc) m;
          m = set_dnext loc node m
      in set_dprev node loc m)"

definition dListInsertBefore :: "nat \<Rightarrow> nat \<Rightarrow> dnodes \<Rightarrow> dnodes" where
  "dListInsertBefore loc node m =
     (let m = set_dnext (dprev m loc) node m;
          m = set_dprev node (dprev m loc) m;
          m = set_dprev loc node m
      in set_dnext node loc m)"

definition dListGetBefore :: "nat \<Rightarrow> dnodes \<Rightarrow> nat" where "dListGetBefore loc m = dprev m loc"
definition dListGetAfter :: "nat \<Rightarrow> dnodes \<Rightarrow> nat" where "dListGetAfter loc m = dnext m loc"

definition dListRemove :: "nat \<Rightarrow> dnodes \<Rightarrow> dnodes" where
  "dListRemove node m =
     (let m = set_dprev (dnext m node) (dprev m node) m;
          m = set_dnext (dprev m node) (dnext m node) m
      in set_dnext node node (set_dprev node node m))"

definition dListIsEmpty :: "nat \<Rightarrow> dnodes \<Rightarrow> bool" where "dListIsEmpty l m \<longleftrightarrow> dnext m l = l"

text \<open>Singly linked lists: the memory is the member \<open>next\<close>.\<close>

definition sListInit :: "nat \<Rightarrow> (nat \<Rightarrow> nat) \<Rightarrow> nat \<Rightarrow> nat" where
  "sListInit l n = n(l := l)"

definition sListInsertAfter :: "nat \<Rightarrow> nat \<Rightarrow> (nat \<Rightarrow> nat) \<Rightarrow> nat \<Rightarrow> nat" where
  "sListInsertAfter loc node n = (let n = n(node := n loc) in n(loc := node))"

definition sListIsEmpty :: "nat \<Rightarrow> (nat \<Rightarrow> nat) \<Rightarrow> bool" where "sListIsEmpty l n \<longleftrightarrow> n l = l"

section \<open>Representation\<close>

definition dlist_rep :: "dnodes \<Rightarrow> nat \<Rightarrow> nat list \<Rightarrow> bool" where
  "dlist_rep m h xs \<longleftrightarrow> cdll (Some \<circ> dnext m) (Some \<circ> dprev m) (h # xs)"

lemma set_dnext_simps [simp]:
  "dnext (set_dnext x v m) = (dnext m)(x := v)" "dprev (set_dnext x v m) = dprev m"
  "dprev (set_dprev x v m) = (dprev m)(x := v)" "dnext (set_dprev x v m) = dnext m"
  by (simp_all add: set_dnext_def set_dprev_def)

lemma Some_comp_upd: "Some \<circ> (f(x := v)) = (Some \<circ> f)(x := Some v)"
  by auto

lemma dlist_rep_disjoint:
  assumes "dlist_rep m h xs" "\<And>x. x \<in> set (h # xs) \<Longrightarrow> dnext m' x = dnext m x \<and> dprev m' x = dprev m x"
  shows "dlist_rep m' h xs"
  using assms cdll_cong [of "h # xs" "Some \<circ> dnext m'" "Some \<circ> dnext m" "Some \<circ> dprev m'" "Some \<circ> dprev m"]
  by (simp add: dlist_rep_def)

lemma InsertBefore_rep:
  assumes "dlist_rep m h (us @ b # vs)" "e \<notin> set (h # us @ b # vs)"
  shows "dlist_rep (dListInsertBefore b e m) h (us @ e # b # vs)"
proof -
  have ne: "dprev m b \<noteq> e" "b \<noteq> e"
    using cdll_next_prev_Some [of "Some \<circ> dnext m" "Some \<circ> dprev m" "h # us @ b # vs" b] assms by (auto simp: dlist_rep_def)
  have "cdll ((Some \<circ> dnext m)(e := Some b, dprev m b := Some e)) ((Some \<circ> dprev m)(e := Some (dprev m b), b := Some e)) ((h # us) @ e # b # vs)"
    using assms by (intro cdll_insert_before) (simp_all add: dlist_rep_def)
  moreover have "(Some \<circ> dnext m)(e := Some b, dprev m b := Some e) = Some \<circ> dnext (dListInsertBefore b e m)"
    "(Some \<circ> dprev m)(e := Some (dprev m b), b := Some e) = Some \<circ> dprev (dListInsertBefore b e m)"
    using ne by (auto simp: dListInsertBefore_def Let_def)
  ultimately show ?thesis by (simp add: dlist_rep_def)
qed

lemma InsertBefore_head_rep:
  assumes "dlist_rep m h xs" "e \<notin> set (h # xs)"
  shows "dlist_rep (dListInsertBefore h e m) h (xs @ [e])"
proof -
  have ne: "dprev m h \<noteq> e" "h \<noteq> e"
    using cdll_next_prev_Some [of "Some \<circ> dnext m" "Some \<circ> dprev m" "h # xs" h] assms by (auto simp: dlist_rep_def)
  have "cdll ((Some \<circ> dnext m)(e := Some h, dprev m h := Some e)) ((Some \<circ> dprev m)(e := Some (dprev m h), h := Some e)) ((h # xs) @ [e])"
    using cdll_insert_last [of "Some \<circ> dnext m" "Some \<circ> dprev m" "h # xs" e "dprev m h"] assms by (simp add: dlist_rep_def)
  moreover have "(Some \<circ> dnext m)(e := Some h, dprev m h := Some e) = Some \<circ> dnext (dListInsertBefore h e m)"
    "(Some \<circ> dprev m)(e := Some (dprev m h), h := Some e) = Some \<circ> dprev (dListInsertBefore h e m)"
    using ne by (auto simp: dListInsertBefore_def Let_def)
  ultimately show ?thesis by (simp add: dlist_rep_def)
qed

text \<open>Inserting after a node is inserting before its successor.\<close>

lemma InsertAfter_eq:
  assumes "dlist_rep m h xs" "loc \<in> set (h # xs)" "e \<notin> set (h # xs)"
  shows "dListInsertAfter loc e m = dListInsertBefore (dnext m loc) e m"
proof -
  have "cdll (Some \<circ> dnext m) (Some \<circ> dprev m) (h # xs)" using assms(1) by (simp add: dlist_rep_def)
  moreover obtain us vs where s: "h # xs = us @ loc # vs" using assms(2) by (meson split_list)
  ultimately have c: "cdll (Some \<circ> dnext m) (Some \<circ> dprev m) (loc # vs @ us)"
    using cdll_rotate [of _ _ us "loc # vs"] by simp
  then have n: "dnext m loc = hd ((vs @ us) @ [loc])" using cdll_nextD by fastforce
  have "dprev m (dnext m loc) = loc"
  proof (cases "vs @ us")
    case Nil
    then show ?thesis using cdll_prevD [OF c] n by simp
  next
    case (Cons y ys)
    then show ?thesis using c n by (auto simp: cdll_def)
  qed
  moreover have "loc \<noteq> e" "dnext m loc \<noteq> e"
    using assms cdll_next_prev_Some [of "Some \<circ> dnext m" "Some \<circ> dprev m" "h # xs" loc] by (auto simp: dlist_rep_def)
  ultimately show ?thesis
    by (auto simp: dListInsertAfter_def dListInsertBefore_def Let_def set_dnext_def set_dprev_def fun_upd_twist)
qed

lemma InsertAfter_rep:
  assumes "dlist_rep m h xs" "h # xs = us @ loc # vs" "e \<notin> set (h # xs)"
  shows "dlist_rep (dListInsertAfter loc e m) h (tl (us @ loc # e # vs))"
proof -
  have c: "cdll (Some \<circ> dnext m) (Some \<circ> dprev m) (loc # vs @ us)"
    using assms(1,2) cdll_rotate [of _ _ us "loc # vs"] by (simp add: dlist_rep_def)
  have eq: "dListInsertAfter loc e m = dListInsertBefore (dnext m loc) e m"
    using assms by (intro InsertAfter_eq [OF assms(1)]) auto
  show ?thesis
  proof (cases vs)
    case Nil
    then have "dnext m loc = h" using cdll_nextD [OF c] assms(2) by (cases us) auto
    moreover have "tl (us @ loc # e # vs) = xs @ [e]" using assms(2) Nil by (cases us) auto
    ultimately show ?thesis using InsertBefore_head_rep [OF assms(1,3)] eq by simp
  next
    case (Cons b vs')
    then have n: "dnext m loc = b" using cdll_nextD [OF c] by simp
    have xs: "xs = tl (us @ [loc]) @ b # vs'" using assms(2) Cons by (cases us) auto
    have "dlist_rep (dListInsertBefore b e m) h (tl (us @ [loc]) @ e # b # vs')"
      using assms(1,3) unfolding xs by (intro InsertBefore_rep) auto
    then show ?thesis using eq n Cons by (cases us) auto
  qed
qed

lemma Remove_rep:
  assumes "dlist_rep m h xs" "x \<in> set xs"
  shows "dlist_rep (dListRemove x m) h (remove1 x xs)" "dlist_rep (dListRemove x m) x []"
proof -
  have d: "distinct (h # xs)" and c: "cdll (Some \<circ> dnext m) (Some \<circ> dprev m) (h # xs)"
    using assms(1) by (simp_all add: dlist_rep_def cdll_def)
  have hx: "h \<noteq> x" using d assms(2) by auto
  have "cdll ((Some \<circ> dnext m)(dprev m x := Some (dnext m x))) ((Some \<circ> dprev m)(dnext m x := Some (dprev m x))) (remove1 x (h # xs))"
    using assms by (intro cdll_remove [OF c]) auto
  then have r: "cdll ((Some \<circ> dnext m)(dprev m x := Some (dnext m x))) ((Some \<circ> dprev m)(dnext m x := Some (dprev m x))) (h # remove1 x xs)"
    using hx by simp
  have ne: "dprev m x \<noteq> x"
  proof
    assume p: "dprev m x = x"
    obtain us vs where s: "h # xs = us @ x # vs" using assms(2) by (meson list.set_intros(2) split_list)
    then have cx: "cdll (Some \<circ> dnext m) (Some \<circ> dprev m) (x # vs @ us)" using c cdll_rotate [of _ _ us "x # vs"] by simp
    then have "last (x # vs @ us) = x" using cdll_prevD [OF cx] p by simp
    moreover have "vs @ us \<noteq> []" using s hx by (cases us) auto
    moreover have "x \<notin> set (vs @ us)" using cx by (simp add: cdll_def)
    ultimately show False by (metis last_ConsR last_in_set)
  qed
  have x: "x \<notin> set (h # remove1 x xs)" using d hx by simp
  have "cdll (Some \<circ> dnext (dListRemove x m)) (Some \<circ> dprev (dListRemove x m)) (h # remove1 x xs) =
      cdll ((Some \<circ> dnext m)(dprev m x := Some (dnext m x))) ((Some \<circ> dprev m)(dnext m x := Some (dprev m x))) (h # remove1 x xs)"
    by (rule cdll_cong) (use x ne in \<open>auto simp: dListRemove_def Let_def\<close>)
  then show "dlist_rep (dListRemove x m) h (remove1 x xs)" using r by (simp add: dlist_rep_def)
  show "dlist_rep (dListRemove x m) x []" by (simp add: dlist_rep_def cdll_def dListRemove_def Let_def)
qed

text \<open>Walking backwards and forwards from the head.\<close>

lemma dlist_rep_ends:
  assumes "dlist_rep m h xs"
  shows "dnext m h = hd (xs @ [h])" "dprev m h = last (h # xs)"
  using assms cdll_nextD [of "Some \<circ> dnext m" "Some \<circ> dprev m" h xs] cdll_prevD [of "Some \<circ> dnext m" "Some \<circ> dprev m" "h # xs"]
  by (auto simp: dlist_rep_def)

section \<open>The contract of a list\<close>

text \<open>What the users of the module rely on: a head names a sequence of nodes, and the operations are those of sequences.\<close>

locale node_list =
  fixes rep :: "'m \<Rightarrow> 'n \<Rightarrow> 'n list \<Rightarrow> bool"
    and init :: "'n \<Rightarrow> 'm \<Rightarrow> 'm" and push_back :: "'n \<Rightarrow> 'n \<Rightarrow> 'm \<Rightarrow> 'm" and push_front :: "'n \<Rightarrow> 'n \<Rightarrow> 'm \<Rightarrow> 'm"
    and remove :: "'n \<Rightarrow> 'm \<Rightarrow> 'm" and first :: "'n \<Rightarrow> 'm \<Rightarrow> 'n"
  assumes init: "rep (init h m) h []"
    and push_back: "rep m h xs \<Longrightarrow> e \<notin> set (h # xs) \<Longrightarrow> rep (push_back h e m) h (xs @ [e])"
    and push_front: "rep m h xs \<Longrightarrow> e \<notin> set (h # xs) \<Longrightarrow> rep (push_front h e m) h (e # xs)"
    and remove: "rep m h xs \<Longrightarrow> x \<in> set xs \<Longrightarrow> rep (remove x m) h (remove1 x xs)"
    and first: "rep m h xs \<Longrightarrow> first h m = hd (xs @ [h])"
    and distinct: "rep m h xs \<Longrightarrow> distinct (h # xs)"
begin

text \<open>A list used as a queue gives its nodes back in the order in which they came, and is empty afterwards.\<close>

lemma fill:
  "rep m h xs \<Longrightarrow> distinct (h # xs @ ns) \<Longrightarrow> rep (fold (push_back h) ns m) h (xs @ ns)"
proof (induction ns arbitrary: m xs)
  case (Cons n ns)
  then have "rep (push_back h n m) h (xs @ [n])" by (intro push_back) auto
  from Cons.IH [OF this] Cons.prems(2) show ?case by simp
qed simp

lemma drain:
  "rep m h (xs @ ys) \<Longrightarrow> rep (fold remove xs m) h ys"
proof (induction xs arbitrary: m)
  case (Cons x xs)
  then have "rep (remove x m) h (remove1 x ((x # xs) @ ys))" by (intro remove) auto
  then show ?case using Cons.IH by simp
qed simp

lemma queue: "distinct (h # ns) \<Longrightarrow> rep (fold remove ns (fold (push_back h) ns (init h m))) h []"
  using drain [of _ h ns "[]"] fill [OF init, of h ns m] by simp

end

lemma dListInit_rep: "dlist_rep (dListInit h m) h []"
  by (simp add: dlist_rep_def cdll_def dListInit_def)

interpretation dl: node_list dlist_rep dListInit dListInsertBefore dListInsertAfter dListRemove dListGetAfter
proof unfold_locales
  show "dlist_rep (dListInit h m) h []" for h m by (rule dListInit_rep)
  show "dlist_rep (dListInsertBefore h e m) h (xs @ [e])" if "dlist_rep m h xs" "e \<notin> set (h # xs)" for m h xs e
    using that by (rule InsertBefore_head_rep)
  show "dlist_rep (dListInsertAfter h e m) h (e # xs)" if "dlist_rep m h xs" "e \<notin> set (h # xs)" for m h xs e
    using InsertAfter_rep [OF that(1) _ that(2), of "[]" h xs] by simp
  show "dlist_rep (dListRemove x m) h (remove1 x xs)" if "dlist_rep m h xs" "x \<in> set xs" for m h xs x
    using Remove_rep(1) [OF that] .
  show "dListGetAfter h m = hd (xs @ [h])" if "dlist_rep m h xs" for m h xs
    using dlist_rep_ends(1) [OF that] by (simp add: dListGetAfter_def)
  show "distinct (h # xs)" if "dlist_rep m h xs" for m h xs using that by (simp add: dlist_rep_def cdll_def)
qed

text \<open>C30. The doubly linked lists: a node inserted before or after any node of a list stands exactly there, removing a node
  takes out that node and leaves it linked to itself, the emptiness test and the neighbours of the head are right, and a list filled and
  drained is empty.\<close>

theorem dList_refines:
  assumes "dlist_rep m h (us @ b # vs)" "e \<notin> set (h # us @ b # vs)" "distinct (h' # ns)"
  shows "dlist_rep (dListInsertBefore b e m) h (us @ e # b # vs) \<and> dlist_rep (dListInsertAfter b e m) h (us @ b # e # vs) \<and>
    dlist_rep (dListInsertBefore h e m) h (us @ b # vs @ [e]) \<and> dlist_rep (dListInsertAfter h e m) h (e # us @ b # vs) \<and>
    dlist_rep (dListRemove b m) h (us @ vs) \<and> dlist_rep (dListRemove b m) b [] \<and>
    \<not> dListIsEmpty h m \<and> dListIsEmpty b (dListRemove b m) \<and>
    dListGetAfter h m = hd (us @ [b]) \<and> dListGetBefore h m = last (b # vs) \<and>
    dlist_rep (fold dListRemove ns (fold (dListInsertBefore h') ns (dListInit h' m))) h' []"
proof -
  have d: "distinct (h # us @ b # vs)" using dl.distinct [OF assms(1)] .
  have "dlist_rep (dListInsertAfter b e m) h (us @ b # e # vs)"
    using InsertAfter_rep [OF assms(1) _ assms(2), of "h # us" b vs] by simp
  moreover have "dlist_rep (dListRemove b m) h (us @ vs)" "dlist_rep (dListRemove b m) b []"
    using Remove_rep [OF assms(1), of b] d by (simp_all add: remove1_append)
  moreover have "hd (us @ b # vs @ [h]) = hd (us @ [b])" by (cases us) simp_all
  moreover have "\<not> dListIsEmpty h m" using dlist_rep_ends(1) [OF assms(1)] d by (cases us) (auto simp: dListIsEmpty_def)
  ultimately show ?thesis
    using InsertBefore_rep [OF assms(1,2)] dl.push_back [OF assms(1,2)] dl.push_front [OF assms(1,2)] dl.queue [OF assms(3), of m]
      dlist_rep_ends [OF assms(1)] dlist_rep_ends(1) [of "dListRemove b m" b "[]"]
    by (simp add: dListGetAfter_def dListGetBefore_def dListIsEmpty_def)
qed

theorem dList_refines_witness:
  "\<exists>m. dlist_rep m 10 [20, 30] \<and> dlist_rep (dListInsertBefore 30 40 m) 10 [20, 40, 30]"
proof -
  have r: "dlist_rep (fold (dListInsertBefore 10) [20, 30] (dListInit 10 \<lparr>dnext = \<lambda>_. 0, dprev = \<lambda>_. 0\<rparr>)) 10 ([20] @ 30 # [])"
    using dl.fill [OF dListInit_rep, of 10 "[20, 30]"] by simp
  from dList_refines [OF this, of 40 0 "[]"] r show ?thesis by auto
qed

end
