(* ===== verification/Djy_Pool.thy ===== *)
theory Djy_Pool
  imports Djy_Lock Djy_List
begin

text \<open>
  Pools of memory cells of equal size (\<open>src/djyos/pool/pool.c\<close>).  A pool hands out the cells of its list of free cells first and then those of
  a continuous area, from its end; released cells go to the end of the list.  The semaphore \<open>memb_semp\<close> counts the free cells, the mutex
  \<open>memb_mutex\<close> guards the growth of the pool from the heap.

  Addresses are words, 0 is \<open>NULL\<close>.  The members \<open>next\<close> and \<open>previous\<close> that the code keeps inside the free cells, the word at the
  beginning of a block that came from the heap, and the control blocks are functions of the address.  The semaphore, the mutex and the list
  node inside a control block go by the address of the block.  The heap is an argument: \<open>M_Malloc\<close>, \<open>M_CheckSize\<close> and \<open>free\<close>, together with
  the time that \<open>Mb_Malloc\<close> reads.  A call that gives up the processor ends with \<^const>\<open>Blocked\<close>; \<open>still k f\<close> goes on with \<open>f\<close> while the event that
  ran in \<open>k\<close> runs, and what \<open>f\<close> stands for is what this event does when it runs again.
\<close>

record MemCellPool =
  continue_pool :: u32
  free_list :: u32
  pool_offset :: u32
  cell_size :: u32
  cell_increment :: u32
  cell_limit :: u32
  Name :: string
  next_inc_pool :: u32

record pkernel = lkernel +
  pools :: "u32 \<Rightarrow> MemCellPool"
  cell_next :: "u32 \<Rightarrow> u32"
  cell_previous :: "u32 \<Rightarrow> u32"
  inc_link :: "u32 \<Rightarrow> u32"
  pool_nodes :: dnodes
  PoolHead :: nat
  PoolCtrl :: u32

record 'k heap_env =
  he_malloc :: "u32 \<Rightarrow> u32 \<Rightarrow> 'k \<Rightarrow> ('k \<times> u32 call) option"
  he_checksize :: "u32 \<Rightarrow> u32"
  he_free :: "u32 \<Rightarrow> 'k \<Rightarrow> 'k option"
  he_time :: "'k \<Rightarrow> u32"

definition memb_semp :: "u32 \<Rightarrow> nat" where "memb_semp pool = unat pool"
definition memb_mutex :: "u32 \<Rightarrow> nat" where "memb_mutex pool = unat pool"
definition pool_List :: "u32 \<Rightarrow> nat" where "pool_List pool = unat pool"

definition upd_pool :: "u32 \<Rightarrow> (MemCellPool \<Rightarrow> MemCellPool) \<Rightarrow> 'a pkernel_scheme \<Rightarrow> 'a pkernel_scheme" where
  "upd_pool p f k = k\<lparr>pools := (pools k)(p := f (pools k p))\<rparr>"

definition set_cell_next :: "u32 \<Rightarrow> u32 \<Rightarrow> 'a pkernel_scheme \<Rightarrow> 'a pkernel_scheme" where
  "set_cell_next c v k = k\<lparr>cell_next := (cell_next k)(c := v)\<rparr>"

definition set_cell_previous :: "u32 \<Rightarrow> u32 \<Rightarrow> 'a pkernel_scheme \<Rightarrow> 'a pkernel_scheme" where
  "set_cell_previous c v k = k\<lparr>cell_previous := (cell_previous k)(c := v)\<rparr>"

text \<open>\<open>sizeof(void*)\<close>.\<close>

definition sizeof_ptr :: u32 where "sizeof_ptr = 4"

section \<open>Taking and returning a cell\<close>

definition pool_take :: "u32 \<Rightarrow> 'a pkernel_scheme \<Rightarrow> 'a pkernel_scheme \<times> u32" where
  "pool_take pool k =
     (if free_list (pools k pool) \<noteq> 0 then
        let result = free_list (pools k pool)
        in if cell_next k result = result then (upd_pool pool (\<lambda>p. p\<lparr>free_list := 0\<rparr>) k, result)
           else let k = upd_pool pool (\<lambda>p. p\<lparr>free_list := cell_next k result\<rparr>) k;
                    k = set_cell_previous (free_list (pools k pool)) (cell_previous k result) k;
                    k = set_cell_next (cell_previous k result) (free_list (pools k pool)) k
                in (k, result)
      else let k = upd_pool pool (\<lambda>p. p\<lparr>pool_offset := pool_offset p - cell_size p\<rparr>) k
           in (k, pool_offset (pools k pool)))"

definition pool_give :: "u32 \<Rightarrow> u32 \<Rightarrow> 'a pkernel_scheme \<Rightarrow> 'a pkernel_scheme" where
  "pool_give pool block k =
     (if free_list (pools k pool) = 0 then
        let k = upd_pool pool (\<lambda>p. p\<lparr>free_list := block\<rparr>) k;
            k = set_cell_next (free_list (pools k pool)) block k
        in set_cell_previous (free_list (pools k pool)) block k
      else
        let k = set_cell_next block (free_list (pools k pool)) k;
            k = set_cell_previous block (cell_previous k (free_list (pools k pool))) k;
            k = set_cell_next (cell_previous k (free_list (pools k pool))) block k
        in set_cell_previous (free_list (pools k pool)) block k)"

definition Mb_Free ::
    "'a pkernel_scheme stack_env \<Rightarrow> u32 \<Rightarrow> u32 \<Rightarrow> 'a pkernel_scheme \<Rightarrow> 'a pkernel_scheme option" where
  "Mb_Free E pool block k =
     (if pool = 0 then Some k else Lock_SempPost E (Some (memb_semp pool)) (pool_give pool block k))"

definition still ::
    "'a pkernel_scheme \<Rightarrow> ('a pkernel_scheme \<Rightarrow> ('a pkernel_scheme \<times> 'r call) option) \<Rightarrow> 'a pkernel_scheme \<Rightarrow> ('a pkernel_scheme \<times> 'r call) option" where
  "still k f k' = (if ptEventRunning k' = ptEventRunning k then f k' else Some (k', Blocked))"

text \<open>The parts of \<open>Mb_Malloc\<close>, from the last to the first: with a lamp and the mutex; after the heap was asked; with the mutex.\<close>

definition malloc_release ::
    "'a pkernel_scheme stack_env \<Rightarrow> u32 \<Rightarrow> 'a pkernel_scheme \<Rightarrow> ('a pkernel_scheme \<times> u32 call) option" where
  "malloc_release E pool k = do {
     k' \<leftarrow> Lock_MutexPost E (Some (memb_mutex pool)) k;
     still k (\<lambda>k. let (k, result) = pool_take pool k in Some (k, Ret result)) k' }"

definition malloc_refuse ::
    "'a pkernel_scheme stack_env \<Rightarrow> u32 \<Rightarrow> 'a pkernel_scheme \<Rightarrow> ('a pkernel_scheme \<times> u32 call) option" where
  "malloc_refuse E pool k = do {
     k \<leftarrow> Lock_MutexPost E (Some (memb_mutex pool)) k;
     Some (k, Ret 0) }"

definition malloc_grown ::
    "'a pkernel_scheme stack_env \<Rightarrow> 'a pkernel_scheme heap_env \<Rightarrow> u32 \<Rightarrow> u32 \<Rightarrow> 'a pkernel_scheme \<Rightarrow> ('a pkernel_scheme \<times> u32 call) option" where
  "malloc_grown E H pool inc k =
     (if inc = 0 then malloc_refuse E pool k
      else if cell_size (pools k pool) = 0 then None
      else do {
        let inc_size = he_checksize H inc - align_up_sys 1;
        let inc_cell = inc_size div cell_size (pools k pool);
        let k = upd_pool pool (\<lambda>p. p\<lparr>continue_pool := inc + align_up_sys 1\<rparr>) k;
        let k = upd_pool pool (\<lambda>p. p\<lparr>pool_offset := continue_pool p + inc_cell * cell_size p\<rparr>) k;
        let k = k\<lparr>inc_link := (inc_link k)(inc := next_inc_pool (pools k pool))\<rparr>;
        let k = upd_pool pool (\<lambda>p. p\<lparr>next_inc_pool := inc\<rparr>) k;
        k' \<leftarrow> Lock_SempExpand E (Some (memb_semp pool)) (sint inc_cell) k;
        still k (\<lambda>k. do {
          (k', _) \<leftarrow> Lock_SempPend E (Some (memb_semp pool)) 0 k;
          still k (malloc_release E pool) k' }) k' })"

definition malloc_owned ::
    "'a pkernel_scheme stack_env \<Rightarrow> 'a pkernel_scheme heap_env \<Rightarrow> u32 \<Rightarrow> u32 \<Rightarrow> 'a pkernel_scheme \<Rightarrow> ('a pkernel_scheme \<times> u32 call) option" where
  "malloc_owned E H pool endtime k = do {
     (k', r) \<leftarrow> Lock_SempPend E (Some (memb_semp pool)) 0 k;
     still k (\<lambda>k.
       if r = Ret True then malloc_release E pool k
       else if Lock_SempQueryCapacital (Some (memb_semp pool)) k < cell_limit (pools k pool) then do {
         let timeout = (if endtime = CN_TIMEOUT_FOREVER then CN_TIMEOUT_FOREVER else endtime - he_time H k);
         (k, r) \<leftarrow> he_malloc H (cell_increment (pools k pool) * cell_size (pools k pool) + align_up_sys 1) timeout k;
         case r of Blocked \<Rightarrow> Some (k, Blocked) | Ret inc \<Rightarrow> malloc_grown E H pool inc k }
       else malloc_refuse E pool k) k' }"

definition Mb_Malloc ::
    "'a pkernel_scheme stack_env \<Rightarrow> 'a pkernel_scheme heap_env \<Rightarrow> u32 \<Rightarrow> u32 \<Rightarrow> 'a pkernel_scheme \<Rightarrow> ('a pkernel_scheme \<times> u32 call) option" where
  "Mb_Malloc E H pool timeout k =
     (if pool = 0 then Some (k, Ret 0)
      else do {
        let endtime = (if timeout \<noteq> CN_TIMEOUT_FOREVER then timeout + he_time H k else timeout);
        (k', r) \<leftarrow> Lock_MutexPend E (Some (memb_mutex pool)) timeout k;
        case r of
          Blocked \<Rightarrow> Some (k', Blocked)
        | Ret False \<Rightarrow> Some (k', Ret 0)
        | Ret True \<Rightarrow> still k (malloc_owned E H pool endtime) k' })"

definition Mb_QueryFree :: "u32 \<Rightarrow> 'a pkernel_scheme \<Rightarrow> u32" where
  "Mb_QueryFree pool k = (if pool = 0 then 0 else Lock_SempQueryFree (Some (memb_semp pool)) k)"

definition Mb_QueryCapacital :: "u32 \<Rightarrow> 'a pkernel_scheme \<Rightarrow> u32" where
  "Mb_QueryCapacital pool k = (if pool = 0 then 0 else Lock_SempQueryCapacital (Some (memb_semp pool)) k)"

section \<open>Creating and deleting pools\<close>

text \<open>The statements that \<open>Mb_CreatePool\<close> and \<open>Mb_CreatePool_s\<close> share.  The numbers of cells are passed to a parameter of type \<open>s32\<close>.\<close>

definition pool_setup ::
    "u32 \<Rightarrow> u32 \<Rightarrow> u32 \<Rightarrow> u32 \<Rightarrow> u32 \<Rightarrow> u32 \<Rightarrow> string \<Rightarrow> 'a pkernel_scheme \<Rightarrow> 'a pkernel_scheme" where
  "pool_setup pool pool_original init_capacital csize increment limit name k =
     (let k = upd_pool pool (\<lambda>_. \<lparr>continue_pool = pool_original, free_list = 0,
                  pool_offset = pool_original + init_capacital * csize, cell_size = csize, cell_increment = increment,
                  cell_limit = limit, Name = name, next_inc_pool = 0\<rparr>) k;
          k = k\<lparr>pool_nodes := dListInsertBefore (pool_List (PoolCtrl k)) (pool_List pool) (pool_nodes k)\<rparr>;
          k = fst (Lock_SempCreate_s (Some (memb_semp pool)) (sint init_capacital) (sint init_capacital) False name k)
      in fst (Lock_MutexCreate_s (Some (memb_mutex pool)) name k))"

definition pool_args :: "u32 \<Rightarrow> u32 \<Rightarrow> u32 \<Rightarrow> bool" where
  "pool_args pool_original init_capacital csize \<longleftrightarrow>
     \<not> (pool_original = 0 \<and> init_capacital \<noteq> 0) \<and> \<not> csize < 2 * sizeof_ptr \<and>
     \<not> (csize mod sizeof_ptr \<noteq> 0 \<or> pool_original mod sizeof_ptr \<noteq> 0)"

definition Mb_CreatePool_s ::
    "u32 \<Rightarrow> u32 \<Rightarrow> u32 \<Rightarrow> u32 \<Rightarrow> u32 \<Rightarrow> u32 \<Rightarrow> string \<Rightarrow> 'a pkernel_scheme \<Rightarrow> 'a pkernel_scheme \<times> u32" where
  "Mb_CreatePool_s pool pool_original init_capacital csize increment limit name k =
     (if pool = 0 \<or> \<not> pool_args pool_original init_capacital csize then (k, 0)
      else (pool_setup pool pool_original init_capacital csize increment limit name k, pool))"

definition Mb_CreatePool ::
    "'a pkernel_scheme stack_env \<Rightarrow> 'a pkernel_scheme heap_env \<Rightarrow> u32 \<Rightarrow> u32 \<Rightarrow> u32 \<Rightarrow> u32 \<Rightarrow> u32 \<Rightarrow> string \<Rightarrow>
     'a pkernel_scheme \<Rightarrow> ('a pkernel_scheme \<times> u32 call) option" where
  "Mb_CreatePool E H pool_original init_capacital csize increment limit name k =
     (if \<not> pool_args pool_original init_capacital csize then Some (k, Ret 0)
      else do {
        (k, r) \<leftarrow> Mb_Malloc E H (PoolCtrl k) 0 k;
        case r of
          Blocked \<Rightarrow> Some (k, Blocked)
        | Ret pool \<Rightarrow>
            Some (if pool = 0 then (k, Ret 0)
                  else (pool_setup pool pool_original init_capacital csize increment limit name k, Ret pool)) })"

text \<open>The loop that returns the blocks of the heap.\<close>

partial_function (option) free_incs :: "'a pkernel_scheme heap_env \<Rightarrow> u32 \<Rightarrow> 'a pkernel_scheme \<Rightarrow> 'a pkernel_scheme option" where
  "free_incs H inc_memory k =
     (if inc_memory = 0 then Some k
      else do {
        let temp = inc_link k inc_memory;
        k \<leftarrow> he_free H inc_memory k;
        free_incs H temp k })"

definition Mb_DeletePool_s ::
    "'a pkernel_scheme stack_env \<Rightarrow> 'a pkernel_scheme heap_env \<Rightarrow> u32 \<Rightarrow> 'a pkernel_scheme \<Rightarrow> ('a pkernel_scheme \<times> bool) option" where
  "Mb_DeletePool_s E H pool k =
     (if pool = 0 then Some (k, False)
      else do {
        (k, ok) \<leftarrow> Lock_SempDelete_s E (Some (memb_semp pool)) k;
        if \<not> ok then Some (k, False)
        else do {
          (k, ok) \<leftarrow> Lock_MutexDelete_s E (Some (memb_mutex pool)) k;
          if \<not> ok then Some (k, False)
          else do {
            k \<leftarrow> free_incs H (next_inc_pool (pools k pool)) k;
            Some (k\<lparr>pool_nodes := dListRemove (pool_List pool) (pool_nodes k)\<rparr>, True) } } })"

definition Mb_DeletePool ::
    "'a pkernel_scheme stack_env \<Rightarrow> 'a pkernel_scheme heap_env \<Rightarrow> u32 \<Rightarrow> 'a pkernel_scheme \<Rightarrow> ('a pkernel_scheme \<times> bool) option" where
  "Mb_DeletePool E H pool k =
     (if pool = 0 then Some (k, False)
      else do {
        (k, ok) \<leftarrow> Lock_SempDelete_s E (Some (memb_semp pool)) k;
        if \<not> ok then Some (k, False)
        else do {
          (k, ok) \<leftarrow> Lock_MutexDelete_s E (Some (memb_mutex pool)) k;
          if \<not> ok then Some (k, False)
          else do {
            k \<leftarrow> free_incs H (next_inc_pool (pools k pool)) k;
            let k = k\<lparr>pool_nodes := dListRemove (pool_List pool) (pool_nodes k)\<rparr>;
            k \<leftarrow> Mb_Free E (PoolCtrl k) pool k;
            Some (k, True) } } })"

text \<open>The control blocks themselves come from a pool of \<open>CFG_MEMPOOL_LIMIT\<close> static ones; \<open>ctrl\<close> and \<open>area\<close> are the addresses of the
  static variables \<open>CtrlPool\<close> and \<open>pool\<close>, \<open>sz\<close> is the size of a control block.  Static members that are not assigned are 0.\<close>

definition CFG_MEMPOOL_LIMIT :: u32 where "CFG_MEMPOOL_LIMIT = 10"

definition InitMB :: "u32 \<Rightarrow> u32 \<Rightarrow> u32 \<Rightarrow> 'a pkernel_scheme \<Rightarrow> 'a pkernel_scheme" where
  "InitMB ctrl area sz k =
     (let k = upd_pool ctrl (\<lambda>_. \<lparr>continue_pool = area, free_list = 0, pool_offset = area + CFG_MEMPOOL_LIMIT * sz, cell_size = sz,
                cell_increment = 0, cell_limit = 0, Name = ''MemCellPool'', next_inc_pool = 0\<rparr>) k;
          k = k\<lparr>PoolCtrl := ctrl\<rparr>;
          k = k\<lparr>pool_nodes := dListInit (PoolHead k) (pool_nodes k)\<rparr>;
          k = k\<lparr>pool_nodes := dListInsertAfter (PoolHead k) (pool_List ctrl) (pool_nodes k)\<rparr>;
          k = fst (Lock_SempCreate_s (Some (memb_semp ctrl)) (sint CFG_MEMPOOL_LIMIT) (sint CFG_MEMPOOL_LIMIT) False ''MemCellPool'' k)
      in fst (Lock_MutexCreate_s (Some (memb_mutex ctrl)) ''MemCellPool'' k))"

section \<open>Representation\<close>

text \<open>\<open>pool_rep k p F n\<close>: the free cells of the pool \<open>p\<close> are those of the list \<open>F\<close> and the first \<open>n\<close> cells of the continuous area.\<close>

definition area_cells :: "MemCellPool \<Rightarrow> nat \<Rightarrow> u32 list" where
  "area_cells P n = map (\<lambda>i. continue_pool P + word_of_nat i * cell_size P) [0..<n]"

definition pool_cells :: "'a pkernel_scheme \<Rightarrow> u32 \<Rightarrow> u32 list \<Rightarrow> nat \<Rightarrow> u32 list" where
  "pool_cells k p F n = F @ rev (area_cells (pools k p) n)"

definition pool_rep :: "'a pkernel_scheme \<Rightarrow> u32 \<Rightarrow> u32 list \<Rightarrow> nat \<Rightarrow> bool" where
  "pool_rep k p F n \<longleftrightarrow>
     (if F = [] then free_list (pools k p) = 0
      else free_list (pools k p) = hd F \<and> cdll (Some \<circ> cell_next k) (Some \<circ> cell_previous k) F) \<and>
     pool_offset (pools k p) = continue_pool (pools k p) + word_of_nat n * cell_size (pools k p) \<and>
     distinct (pool_cells k p F n) \<and> 0 \<notin> set (pool_cells k p F n)"

text \<open>Operations on cells change nothing of the kernel and of the locks.\<close>

definition pframe :: "u32 \<Rightarrow> 'a pkernel_scheme \<Rightarrow> 'a pkernel_scheme \<Rightarrow> bool" where
  "pframe p k k' \<longleftrightarrow> k' = k\<lparr>pools := pools k', cell_next := cell_next k', cell_previous := cell_previous k'\<rparr> \<and>
     pools k' = (pools k)(p := (pools k p)\<lparr>free_list := free_list (pools k' p), pool_offset := pool_offset (pools k' p)\<rparr>)"

lemma pool_upd_simps [simp]:
  "pools (upd_pool p f k) = (pools k)(p := f (pools k p))" "cell_next (upd_pool p f k) = cell_next k"
  "cell_previous (upd_pool p f k) = cell_previous k" "inc_link (upd_pool p f k) = inc_link k"
  "pools (set_cell_next c v k) = pools k" "cell_next (set_cell_next c v k) = (cell_next k)(c := v)"
  "cell_previous (set_cell_next c v k) = cell_previous k" "inc_link (set_cell_next c v k) = inc_link k"
  "pools (set_cell_previous c v k) = pools k" "cell_next (set_cell_previous c v k) = cell_next k"
  "cell_previous (set_cell_previous c v k) = (cell_previous k)(c := v)" "inc_link (set_cell_previous c v k) = inc_link k"
  "inc_link (upd_semp s g k) = inc_link k" "inc_link (upd_mutex m h k) = inc_link k"
  "pools (upd_semp s g k) = pools k" "cell_next (upd_semp s g k) = cell_next k" "cell_previous (upd_semp s g k) = cell_previous k"
  "pools (upd_mutex m h k) = pools k" "cell_next (upd_mutex m h k) = cell_next k" "cell_previous (upd_mutex m h k) = cell_previous k"
  by (simp_all add: upd_pool_def set_cell_next_def set_cell_previous_def upd_semp_def upd_mutex_def)

lemma pool_upd_kernel [simp]:
  "fld x (upd_pool p f k) = fld x k" "cells (upd_pool p f k) = cells k" "semps (upd_pool p f k) = semps k" "mutexes (upd_pool p f k) = mutexes k"
  "fld x (set_cell_next c v k) = fld x k" "cells (set_cell_next c v k) = cells k" "semps (set_cell_next c v k) = semps k" "mutexes (set_cell_next c v k) = mutexes k"
  "fld x (set_cell_previous c v k) = fld x k" "cells (set_cell_previous c v k) = cells k" "semps (set_cell_previous c v k) = semps k" "mutexes (set_cell_previous c v k) = mutexes k"
  by (simp_all add: upd_pool_def set_cell_next_def set_cell_previous_def fld_def)

lemma pool_take_rep:
  assumes rep: "pool_rep k p F n" and ne: "pool_cells k p F n \<noteq> []"
  shows "\<exists>k'. pool_take p k = (k', hd (pool_cells k p F n)) \<and> pframe p k k' \<and>
    (if F = [] then pool_rep k' p [] (n - 1) \<and> pool_cells k' p [] (n - 1) = tl (pool_cells k p F n)
     else pool_rep k' p (tl F) n \<and> pool_cells k' p (tl F) n = tl (pool_cells k p F n))"
proof (cases F)
  case Nil
  then obtain m where n: "n = Suc m" using ne by (cases n) (auto simp: pool_cells_def area_cells_def)
  let ?k = "upd_pool p (\<lambda>P. P\<lparr>pool_offset := pool_offset P - cell_size P\<rparr>) k"
  have off: "pool_offset (pools k p) - cell_size (pools k p) = continue_pool (pools k p) + word_of_nat m * cell_size (pools k p)"
    using rep n by (simp add: pool_rep_def algebra_simps)
  have cells: "pool_cells k p F n = (continue_pool (pools k p) + word_of_nat m * cell_size (pools k p)) # pool_cells ?k p [] m"
    using Nil n by (simp add: pool_cells_def area_cells_def)
  have "pool_take p k = (?k, hd (pool_cells k p F n))" using rep Nil off cells by (simp add: pool_take_def pool_rep_def)
  moreover have "pframe p k ?k" by (simp add: pframe_def upd_pool_def)
  moreover have "pool_rep ?k p [] m" using rep Nil off cells by (simp add: pool_rep_def)
  ultimately show ?thesis using Nil n cells by simp
next
  case (Cons c F')
  have c: "cdll (Some \<circ> cell_next k) (Some \<circ> cell_previous k) (c # F')" and fl: "free_list (pools k p) = c"
    and z: "c \<noteq> 0" and d: "c \<notin> set F'"
    using rep Cons by (auto simp: pool_rep_def pool_cells_def)
  have nx: "cell_next k c = hd (F' @ [c])" using cdll_nextD [OF c] by simp
  have cells: "pool_cells k p F n = c # F' @ rev (area_cells (pools k p) n)" using Cons by (simp add: pool_cells_def)
  show ?thesis
  proof (cases "F' = []")
    case True
    let ?k = "upd_pool p (\<lambda>P. P\<lparr>free_list := 0\<rparr>) k"
    have "area_cells (pools ?k p) n = area_cells (pools k p) n" by (simp add: area_cells_def)
    moreover have "pool_take p k = (?k, c)" using nx True fl z by (simp add: pool_take_def)
    moreover have "pframe p k ?k" by (simp add: pframe_def upd_pool_def)
    ultimately show ?thesis using rep Cons True cells by (simp add: pool_rep_def pool_cells_def)
  next
    case False
    have hd: "hd (F' @ [c]) = hd F'" "hd F' \<noteq> c" using False d by auto
    define k1 where "k1 = upd_pool p (\<lambda>P. P\<lparr>free_list := hd F'\<rparr>) k"
    define k2 where "k2 = set_cell_next (cell_previous k c) (hd F') (set_cell_previous (hd F') (cell_previous k c) k1)"
    have "pool_take p k = (k2, c)" using nx fl z hd by (simp add: pool_take_def k1_def k2_def Let_def)
    moreover have "pframe p k k2" by (simp add: pframe_def k2_def k1_def upd_pool_def set_cell_next_def set_cell_previous_def)
    moreover have "cdll ((Some \<circ> cell_next k)(cell_previous k c := Some (hd F'))) ((Some \<circ> cell_previous k)(hd F' := Some (cell_previous k c))) F'"
      using cdll_remove_first [OF c False] nx hd by simp
    then have "cdll (Some \<circ> cell_next k2) (Some \<circ> cell_previous k2) F'" by (simp add: k2_def k1_def Some_comp_upd)
    moreover have "area_cells (pools k2 p) n = area_cells (pools k p) n" "free_list (pools k2 p) = hd F'"
      "pool_offset (pools k2 p) = pool_offset (pools k p)" "continue_pool (pools k2 p) = continue_pool (pools k p)"
      "cell_size (pools k2 p) = cell_size (pools k p)" by (simp_all add: area_cells_def k2_def k1_def)
    ultimately show ?thesis using rep Cons False cells by (simp add: pool_rep_def pool_cells_def)
  qed
qed

lemma pool_give_rep:
  assumes rep: "pool_rep k p F n" and b: "b \<notin> set (pool_cells k p F n)" "b \<noteq> 0"
  shows "\<exists>k'. pool_give p b k = k' \<and> pframe p k k' \<and> pool_rep k' p (F @ [b]) n \<and> area_cells (pools k' p) n = area_cells (pools k p) n"
proof (cases "F = []")
  case True
  let ?k = "set_cell_previous b b (set_cell_next b b (upd_pool p (\<lambda>P. P\<lparr>free_list := b\<rparr>) k))"
  have "pool_give p b k = ?k" using rep True by (simp add: pool_give_def pool_rep_def Let_def)
  moreover have "pframe p k ?k" by (simp add: pframe_def upd_pool_def set_cell_next_def set_cell_previous_def)
  moreover have "area_cells (pools ?k p) n = area_cells (pools k p) n" by (simp add: area_cells_def)
  ultimately show ?thesis using rep True b by (simp add: pool_rep_def pool_cells_def cdll_def)
next
  case False
  then have c: "cdll (Some \<circ> cell_next k) (Some \<circ> cell_previous k) F" and fl: "free_list (pools k p) = hd F" and z: "0 \<notin> set F"
    using rep by (auto simp: pool_rep_def pool_cells_def)
  have z: "hd F \<noteq> 0" using z hd_in_set [OF False] by metis
  let ?q = "cell_previous k (hd F)"
  have hb: "hd F \<noteq> b" using b False by (auto simp: pool_cells_def)
  let ?k = "set_cell_previous (hd F) b (set_cell_next ?q b (set_cell_previous b ?q (set_cell_next b (hd F) k)))"
  have "pool_give p b k = ?k" using fl z hb False by (simp add: pool_give_def Let_def)
  moreover have "pframe p k ?k" by (simp add: pframe_def upd_pool_def set_cell_next_def set_cell_previous_def)
  moreover have "cdll (Some \<circ> cell_next ?k) (Some \<circ> cell_previous ?k) (F @ [b])"
    using cdll_insert_last [OF c, of b ?q] b by (simp add: Some_comp_upd pool_cells_def)
  ultimately show ?thesis using rep False b fl by (simp add: pool_rep_def pool_cells_def)
qed

section \<open>The invariant of a pool\<close>

text \<open>\<open>A\<close> is the set of cells in the hands of the users, \<open>w\<close> the number of events that have taken a lamp and not yet their cell.\<close>

definition pool_inv :: "'a pkernel_scheme \<Rightarrow> u32 \<Rightarrow> u32 list \<Rightarrow> nat \<Rightarrow> u32 set \<Rightarrow> nat \<Rightarrow> bool" where
  "pool_inv k p F n A w \<longleftrightarrow> p \<noteq> 0 \<and> pool_rep k p F n \<and> finite A \<and> A \<inter> set (pool_cells k p F n) = {} \<and> 0 \<notin> A \<and>
     0 \<le> lamp_counter (semps k (memb_semp p)) \<and> lamp_counter (semps k (memb_semp p)) + int w = int (length F + n) \<and>
     lamps_limit (semps k (memb_semp p)) = int (length F + n + card A) \<and> length F + n + card A < 2 ^ 31"

text \<open>A thread calls an operation of the pool while no other event holds its mutex.\<close>

definition pool_quiet :: "'a pkernel_scheme \<Rightarrow> u32 \<Rightarrow> nat list \<Rightarrow> nat list \<Rightarrow> (qhead \<Rightarrow> nat list) \<Rightarrow> nat \<Rightarrow> bool" where
  "pool_quiet k p R D S idle \<longleftrightarrow> calling k R D S idle \<and> DJY_IsMultiEventStarted k \<and> enable (mutexes k (memb_mutex p)) = 0 \<and>
     owner (mutexes k (memb_mutex p)) = None \<and> S (MutexSync (memb_mutex p)) = [] \<and> S (SempSync (memb_semp p)) = []"

lemma calling_pools:
  assumes "calling k R D S idle"
  shows "calling (k\<lparr>pools := x, cell_next := y, cell_previous := z, inc_link := i\<rparr>) R D S idle"
proof -
  have "kinv (k\<lparr>pools := x, cell_next := y, cell_previous := z, inc_link := i\<rparr>) R D S"
    by (rule kinv_cong [OF callingD(1) [OF assms]]) (simp_all add: fld_def)
  then show ?thesis using assms by (auto simp: calling_def fld_def DJY_QuerySch_def)
qed

lemma pframeD:
  assumes "pframe p k k'"
  shows "calling k R D S idle \<Longrightarrow> calling k' R D S idle" "semps k' = semps k" "mutexes k' = mutexes k"
    "DJY_IsMultiEventStarted k' = DJY_IsMultiEventStarted k"
    "cell_limit (pools k' p) = cell_limit (pools k p)" "cell_increment (pools k' p) = cell_increment (pools k p)"
    "cell_size (pools k' p) = cell_size (pools k p)" "continue_pool (pools k' p) = continue_pool (pools k p)"
    "next_inc_pool (pools k' p) = next_inc_pool (pools k p)" "inc_link k' = inc_link k"
proof -
  have k': "k' = k\<lparr>pools := pools k', cell_next := cell_next k', cell_previous := cell_previous k', inc_link := inc_link k\<rparr>"
    using assms unfolding pframe_def by (cases k; cases k'; simp)
  show "calling k' R D S idle" if "calling k R D S idle" by (subst k') (rule calling_pools [OF that])
  show "semps k' = semps k" "mutexes k' = mutexes k" "inc_link k' = inc_link k" by (subst k', simp)+
  show "DJY_IsMultiEventStarted k' = DJY_IsMultiEventStarted k" by (subst k') (simp add: DJY_IsMultiEventStarted_def)
  have "pools k' p = (pools k p)\<lparr>free_list := free_list (pools k' p), pool_offset := pool_offset (pools k' p)\<rparr>"
    using assms unfolding pframe_def by (metis fun_upd_same)
  then show "cell_limit (pools k' p) = cell_limit (pools k p)" "cell_increment (pools k' p) = cell_increment (pools k p)"
    "cell_size (pools k' p) = cell_size (pools k p)" "continue_pool (pools k' p) = continue_pool (pools k p)"
    "next_inc_pool (pools k' p) = next_inc_pool (pools k p)"
    by (metis MemCellPool.select_convs MemCellPool.surjective MemCellPool.update_convs)+
qed

lemma pool_rep_locks [simp]:
  "pool_rep (upd_semp s f k) p F n = pool_rep k p F n" "pool_rep (upd_mutex m g k) p F n = pool_rep k p F n"
  "pool_cells (upd_semp s f k) p F n = pool_cells k p F n" "pool_cells (upd_mutex m g k) p F n = pool_cells k p F n"
  by (simp_all add: pool_rep_def pool_cells_def)

text \<open>Taking and giving back the mutex.\<close>

lemma mutex_taken_freed:
  "enable (mutexes k m) = 0 \<Longrightarrow> owner (mutexes k m) = None \<Longrightarrow>
     upd_mutex m (\<lambda>x. x\<lparr>enable := 0, owner := None\<rparr>) (upd_mutex m (\<lambda>x. x\<lparr>enable := 1, owner := e\<rparr>) k) = k"
  "upd_mutex m h (upd_semp s f k) = upd_semp s f (upd_mutex m h k)"
proof -
  assume "enable (mutexes k m) = 0" "owner (mutexes k m) = None"
  then have "(mutexes k m)\<lparr>enable := 0, owner := None\<rparr> = mutexes k m" by (cases "mutexes k m") simp
  then show "upd_mutex m (\<lambda>x. x\<lparr>enable := 0, owner := None\<rparr>) (upd_mutex m (\<lambda>x. x\<lparr>enable := 1, owner := e\<rparr>) k) = k"
    by (simp add: upd_mutex_def)
qed (simp add: upd_mutex_def upd_semp_def)

lemma malloc_release_now:
  assumes c: "calling k R D S idle" "DJY_IsMultiEventStarted k" and m: "enable (mutexes k (memb_mutex p)) = 1"
    "owner (mutexes k (memb_mutex p)) = Some (hd R)" "S (MutexSync (memb_mutex p)) = []"
  shows "malloc_release E p k = (case pool_take p (upd_mutex (memb_mutex p) (\<lambda>x. x\<lparr>enable := 0, owner := None\<rparr>) k) of (k, r) \<Rightarrow> Some (k, Ret r))"
    "malloc_refuse E p k = Some (upd_mutex (memb_mutex p) (\<lambda>x. x\<lparr>enable := 0, owner := None\<rparr>) k, Ret 0)"
  using MutexPost_now [OF c(1) m(1,2) c(2) m(3)] by (simp_all add: malloc_release_def malloc_refuse_def still_def Let_def)

lemma Mb_Malloc_owned:
  assumes q: "pool_quiet k p R D S idle" and p: "p \<noteq> 0"
  shows "\<exists>endtime. Mb_Malloc E H p timeout k =
    malloc_owned E H p endtime (upd_mutex (memb_mutex p) (\<lambda>x. x\<lparr>enable := 1, owner := Some (hd R)\<rparr>) k)"
  using q p MutexPend_now [of k R D S idle "memb_mutex p" E timeout]
  by (auto simp: pool_quiet_def Mb_Malloc_def still_def Let_def)

text \<open>An event that has a lamp takes its cell.\<close>

lemma pool_take_inv:
  assumes inv: "pool_inv k p F n A (Suc w)"
  shows "\<exists>k' F' n'. pool_take p k = (k', hd (pool_cells k p F n)) \<and> pframe p k k' \<and> pool_cells k p F n \<noteq> [] \<and>
    pool_cells k' p F' n' = tl (pool_cells k p F n) \<and> pool_inv k' p F' n' (insert (hd (pool_cells k p F n)) A) w \<and> (F = [] \<longrightarrow> F' = [] \<and> n' = n - 1)"
proof -
  note I = inv [unfolded pool_inv_def]
  have ne: "pool_cells k p F n \<noteq> []" using I by (auto simp: pool_cells_def area_cells_def)
  obtain k' where t: "pool_take p k = (k', hd (pool_cells k p F n))" "pframe p k k'"
      "if F = [] then pool_rep k' p [] (n - 1) \<and> pool_cells k' p [] (n - 1) = tl (pool_cells k p F n)
       else pool_rep k' p (tl F) n \<and> pool_cells k' p (tl F) n = tl (pool_cells k p F n)"
    using pool_take_rep [of k p F n] ne I by auto
  define F' n' where "F' = tl F" and "n' = (if F = [] then n - 1 else n)"
  have r': "pool_rep k' p F' n'" "pool_cells k' p F' n' = tl (pool_cells k p F n)" "length F' + n' + 1 = length F + n"
    using t(3) ne by (auto simp: F'_def n'_def pool_cells_def area_cells_def split: if_splits)
  obtain c cs where cs: "pool_cells k p F n = c # cs" using ne by (cases "pool_cells k p F n") auto
  have "c \<notin> A" "c \<notin> set cs" "c \<noteq> 0" "A \<inter> set cs = {}" using I cs by (auto simp: pool_rep_def)
  then have "pool_inv k' p F' n' (insert c A) w" using I r' cs pframeD(2) [OF t(2)] by (auto simp: pool_inv_def)
  then show ?thesis using t(1,2) ne r'(2) cs by (intro exI [of _ k'] exI [of _ F'] exI [of _ n']) (auto simp: F'_def n'_def)
qed

lemma Mb_Malloc_lamp:
  assumes q: "pool_quiet k p R D S idle" and inv: "pool_inv k p F n A w" and l: "lamp_counter (semps k (memb_semp p)) > 0"
  shows "\<exists>k' F' n'. Mb_Malloc E H p timeout k = Some (k', Ret (hd (pool_cells k p F n))) \<and>
    pool_quiet k' p R D S idle \<and> pool_inv k' p F' n' (insert (hd (pool_cells k p F n)) A) w \<and> pool_cells k p F n \<noteq> [] \<and>
    pool_cells k' p F' n' = tl (pool_cells k p F n) \<and> cell_limit (pools k' p) = cell_limit (pools k p)"
proof -
  note Q = q [unfolded pool_quiet_def] and I = inv [unfolded pool_inv_def]
  let ?s = "memb_semp p" and ?m = "memb_mutex p"
  define k1 where "k1 = upd_mutex ?m (\<lambda>x. x\<lparr>enable := 1, owner := Some (hd R)\<rparr>) k"
  define k2 where "k2 = upd_semp ?s (\<lambda>l. l\<lparr>lamp_counter := lamp_counter (semps k ?s) - 1\<rparr>) k"
  have c1: "calling k1 R D S idle" using Q by (simp add: k1_def)
  have pend: "Lock_SempPend E (Some ?s) 0 k1 = Some (upd_semp ?s (\<lambda>l. l\<lparr>lamp_counter := lamp_counter (semps k ?s) - 1\<rparr>) k1, Ret True)"
    using SempPend_now(1) [OF c1, of ?s E 0] I l by (simp add: k1_def)
  have freed: "upd_mutex ?m (\<lambda>x. x\<lparr>enable := 0, owner := None\<rparr>) (upd_semp ?s f k1) = upd_semp ?s f k" for f
    using Q by (simp add: k1_def mutex_taken_freed)
  have k2: "pool_inv k2 p F n A (Suc w)" "pool_cells k2 p F n = pool_cells k p F n" using I l by (simp_all add: pool_inv_def k2_def)
  obtain k' F' n' where t: "pool_take p k2 = (k', hd (pool_cells k p F n))" "pframe p k2 k'" "pool_cells k p F n \<noteq> []"
      "pool_cells k' p F' n' = tl (pool_cells k p F n)" "pool_inv k' p F' n' (insert (hd (pool_cells k p F n)) A) w"
    using pool_take_inv [OF k2(1)] unfolding k2(2) by auto
  note fr = pframeD [OF t(2)]
  have "calling k2 R D S idle" using Q by (simp add: k2_def)
  then have "pool_quiet k' p R D S idle" using Q fr by (simp add: pool_quiet_def k2_def)
  moreover have "Mb_Malloc E H p timeout k = Some (k', Ret (hd (pool_cells k p F n)))"
  proof -
    obtain et where "Mb_Malloc E H p timeout k = malloc_owned E H p et k1" using Mb_Malloc_owned [OF q] I k1_def by blast
    moreover have "malloc_release E p (upd_semp ?s (\<lambda>l. l\<lparr>lamp_counter := lamp_counter (semps k ?s) - 1\<rparr>) k1) = Some (k', Ret (hd (pool_cells k p F n)))"
      using Q t(1) by (subst malloc_release_now(1) [OF calling_upd(1) [OF c1]]) (auto simp: freed k2_def [symmetric], auto simp: k1_def)
    ultimately show ?thesis using pend by (simp add: malloc_owned_def still_def)
  qed
  ultimately show ?thesis using t(3-5) fr(5) by (auto simp: k2_def)
qed

lemma Mb_Malloc_full:
  assumes q: "pool_quiet k p R D S idle" and p: "p \<noteq> 0" and l: "lamp_counter (semps k (memb_semp p)) = 0"
    and lim: "lamps_limit (semps k (memb_semp p)) \<noteq> -1" "cell_limit (pools k p) \<le> word_of_int (lamps_limit (semps k (memb_semp p)))"
  shows "Mb_Malloc E H p timeout k = Some (k, Ret 0)"
proof -
  note Q = q [unfolded pool_quiet_def]
  define k1 where "k1 = upd_mutex (memb_mutex p) (\<lambda>x. x\<lparr>enable := 1, owner := Some (hd R)\<rparr>) k"
  have c1: "calling k1 R D S idle" using Q by (simp add: k1_def)
  have "Lock_SempPend E (Some (memb_semp p)) 0 k1 = Some (k1, Ret False)"
    using SempPend_now(2) [OF c1, of "memb_semp p" E] lim(1) l by (simp add: k1_def)
  moreover have "malloc_refuse E p k1 = Some (k, Ret 0)"
    using Q by (subst malloc_release_now(2) [OF c1]) (auto simp: k1_def mutex_taken_freed)
  moreover obtain et where "Mb_Malloc E H p timeout k = malloc_owned E H p et k1" using Mb_Malloc_owned [OF q p] k1_def by blast
  moreover have "\<not> Lock_SempQueryCapacital (Some (memb_semp p)) k1 < cell_limit (pools k1 p)"
    using lim(2) by (simp add: Lock_SempQueryCapacital_def k1_def not_less)
  ultimately show ?thesis by (simp add: malloc_owned_def still_def)
qed

lemma Mb_Free_gives:
  assumes q: "pool_quiet k p R D S idle" and inv: "pool_inv k p F n A w" and b: "b \<in> A"
  shows "\<exists>k'. Mb_Free E p b k = Some k' \<and> pool_quiet k' p R D S idle \<and> pool_inv k' p (F @ [b]) n (A - {b}) w \<and>
    area_cells (pools k' p) n = area_cells (pools k p) n \<and> cell_limit (pools k' p) = cell_limit (pools k p)"
proof -
  note Q = q [unfolded pool_quiet_def] and I = inv [unfolded pool_inv_def]
  let ?s = "memb_semp p"
  have b': "b \<notin> set (pool_cells k p F n)" "b \<noteq> 0" using I b by auto
  obtain k1 where g: "pool_give p b k = k1" "pframe p k k1" "pool_rep k1 p (F @ [b]) n" "area_cells (pools k1 p) n = area_cells (pools k p) n"
    using pool_give_rep [of k p F n b] I b' by blast
  note fr = pframeD [OF g(2)]
  have ca: "card (A - {b}) = card A - 1" "0 < card A" using I b by (auto simp: card_gt_0_iff)
  define k2 where "k2 = upd_semp ?s (\<lambda>l. l\<lparr>lamp_counter := lamp_counter l + 1\<rparr>) k1"
  have "lamp_counter (semps k ?s) < lamps_limit (semps k ?s)" "lamps_limit (semps k ?s) \<noteq> -1" using I ca(2) by linarith+
  then have "Lock_SempPost E (Some ?s) k1 = Some k2"
    unfolding k2_def using fr(1,2) Q by (intro SempPost_now [of k1 R D S idle]) auto
  then have "Mb_Free E p b k = Some k2" using I g(1) by (simp add: Mb_Free_def)
  moreover have "pool_quiet k2 p R D S idle" using Q fr by (simp add: pool_quiet_def k2_def)
  ultimately show ?thesis
    using I g(3,4) b' ca fr(2,5) by (auto simp: pool_inv_def k2_def pool_cells_def)
qed

section \<open>Growth\<close>

lemma align_up_sys_1: "align_up_sys 1 = 8"
  by (simp add: align_up_sys_def)

text \<open>The heap has a block \<open>b\<close> for a request of \<open>sz\<close> bytes; its own data are not part of the state.\<close>

definition heap_grants :: "'k heap_env \<Rightarrow> u32 \<Rightarrow> u32 \<Rightarrow> bool" where
  "heap_grants H sz b \<longleftrightarrow> (\<forall>t k. he_malloc H sz t k = Some (k, Ret b))"

lemma area_cells_nat:
  assumes "unat (continue_pool P) + n * unat (cell_size P) < 2 ^ 32" "0 < continue_pool P" "0 < cell_size P"
  shows "distinct (area_cells P n)" "0 \<notin> set (area_cells P n)"
    "\<And>c. c \<in> set (area_cells P n) \<Longrightarrow> unat (continue_pool P) \<le> unat c \<and> unat c + unat (cell_size P) \<le> unat (continue_pool P) + n * unat (cell_size P)"
proof -
  have z: "0 < unat (cell_size P)" "0 < unat (continue_pool P)" using assms(2,3) by (simp_all add: word_less_nat_alt)
  have le: "Suc i * unat (cell_size P) \<le> n * unat (cell_size P)" if "i < n" for i using that by (intro mult_le_mono1) simp
  have u: "unat (continue_pool P + word_of_nat i * cell_size P) = unat (continue_pool P) + i * unat (cell_size P)" if "i < n" for i
  proof -
    have lt: "unat (continue_pool P) + i * unat (cell_size P) < 2 ^ 32" using le [OF that] assms(1) by simp
    have "continue_pool P + word_of_nat i * cell_size P = word_of_nat (unat (continue_pool P) + i * unat (cell_size P))" by simp
    then show ?thesis using unat_small [OF lt] by metis
  qed
  have "inj_on (\<lambda>i. continue_pool P + word_of_nat i * cell_size P) {0..<n}"
  proof (rule inj_onI)
    fix i j assume "i \<in> {0..<n}" "j \<in> {0..<n}" "continue_pool P + word_of_nat i * cell_size P = continue_pool P + word_of_nat j * cell_size P"
    then have "unat (continue_pool P) + i * unat (cell_size P) = unat (continue_pool P) + j * unat (cell_size P)"
      using u [of i] u [of j] by (metis atLeastLessThan_iff)
    then show "i = j" using z by simp
  qed
  then show "distinct (area_cells P n)" by (simp add: area_cells_def distinct_map)
  fix c assume "c \<in> set (area_cells P n)"
  then show "unat (continue_pool P) \<le> unat c \<and> unat c + unat (cell_size P) \<le> unat (continue_pool P) + n * unat (cell_size P)"
    using u le by (fastforce simp: area_cells_def)
next
  have z: "0 < unat (continue_pool P)" using assms(2) by (simp add: word_less_nat_alt)
  show "0 \<notin> set (area_cells P n)"
  proof
    assume "0 \<in> set (area_cells P n)"
    then obtain i where i: "i < n" "continue_pool P + word_of_nat i * cell_size P = 0" by (auto simp: area_cells_def)
    have "Suc i * unat (cell_size P) \<le> n * unat (cell_size P)" using i(1) by (intro mult_le_mono1) simp
    then have "unat (continue_pool P) + i * unat (cell_size P) < 2 ^ 32" using assms(1) by simp
    from unat_small [OF this] i(2) z show False by simp
  qed
qed

lemma block_cells:
  fixes sz :: u32
  assumes P: "continue_pool P = b + 8" "cell_size P \<noteq> 0" and sz: "8 \<le> sz" "unat b + unat sz < 2 ^ 32"
    and m: "m = unat (sz - 8) div unat (cell_size P)"
  shows "distinct (area_cells P m)" "0 \<notin> set (area_cells P m)"
    "\<And>c. c \<in> set (area_cells P m) \<Longrightarrow> unat b + 8 \<le> unat c \<and> unat c + unat (cell_size P) \<le> unat b + unat sz"
proof -
  have "unat (sz - 8) = unat sz - 8" and le: "8 \<le> unat sz" using sz(1) by (simp_all add: unat_sub word_le_nat_alt)
  then have ms: "m * unat (cell_size P) \<le> unat sz - 8" using m by simp
  have b8: "unat (b + 8) = unat b + 8" using sz(2) le by (simp add: unat_plus_if')
  have z: "0 < b + 8" "0 < cell_size P" using b8 P(2) by (simp_all add: word_less_nat_alt unat_gt_0)
  have "unat b + 8 + m * unat (cell_size P) < 2 ^ 32" using ms le sz(2) by linarith
  then have A: "distinct (area_cells P m)" "0 \<notin> set (area_cells P m)"
    "\<And>c. c \<in> set (area_cells P m) \<Longrightarrow> unat b + 8 \<le> unat c \<and> unat c + unat (cell_size P) \<le> unat b + 8 + m * unat (cell_size P)"
    using area_cells_nat [of P m] z unfolding P(1) b8 by blast+
  show "distinct (area_cells P m)" "0 \<notin> set (area_cells P m)" by (rule A)+
  show "unat b + 8 \<le> unat c \<and> unat c + unat (cell_size P) \<le> unat b + unat sz" if "c \<in> set (area_cells P m)" for c
    using A(3) [OF that] ms le by linarith
qed

definition grown :: "u32 \<Rightarrow> u32 \<Rightarrow> u32 \<Rightarrow> 'a pkernel_scheme \<Rightarrow> 'a pkernel_scheme" where
  "grown p b m k = (upd_pool p (\<lambda>P. P\<lparr>continue_pool := b + align_up_sys 1, pool_offset := b + align_up_sys 1 + m * cell_size P, next_inc_pool := b\<rparr>)
     k)\<lparr>inc_link := (inc_link k)(b := next_inc_pool (pools k p))\<rparr>"

lemma grown_simps [simp]:
  "calling k R D S idle \<Longrightarrow> calling (grown p b m k) R D S idle" "semps (grown p b m k) = semps k" "mutexes (grown p b m k) = mutexes k"
  "DJY_IsMultiEventStarted (grown p b m k) = DJY_IsMultiEventStarted k" "ptEventRunning (grown p b m k) = ptEventRunning k"
  using calling_pools [where k = k and x = "pools (grown p b m k)" and y = "cell_next k" and z = "cell_previous k" and i = "inc_link (grown p b m k)"]
  by (simp_all add: grown_def upd_pool_def DJY_IsMultiEventStarted_def)

lemma grown_comm: "upd_mutex m f (grown p b x k) = grown p b x (upd_mutex m f k)"
  by (simp add: grown_def upd_pool_def upd_mutex_def)

lemma still_cong: "ptEventRunning k = ptEventRunning k' \<Longrightarrow> still k = still k'"
  by (simp add: still_def fun_eq_iff)

lemma Mb_Malloc_grow:
  assumes q: "pool_quiet k p R D S idle" and p: "p \<noteq> 0" "cell_size (pools k p) \<noteq> 0" and l: "lamp_counter (semps k (memb_semp p)) = 0"
    and lim: "lamps_limit (semps k (memb_semp p)) \<noteq> -1" "word_of_int (lamps_limit (semps k (memb_semp p))) < cell_limit (pools k p)"
    and h: "heap_grants H (cell_increment (pools k p) * cell_size (pools k p) + align_up_sys 1) b" "b \<noteq> 0"
    and m: "m = (he_checksize H b - align_up_sys 1) div cell_size (pools k p)"
  shows "Mb_Malloc E H p timeout k = do {
      k' \<leftarrow> Lock_SempExpand E (Some (memb_semp p)) (sint m) (grown p b m (upd_mutex (memb_mutex p) (\<lambda>x. x\<lparr>enable := 1, owner := Some (hd R)\<rparr>) k));
      still k (\<lambda>k. do { (k', _) \<leftarrow> Lock_SempPend E (Some (memb_semp p)) 0 k; still k (malloc_release E p) k' }) k' }"
proof -
  note Q = q [unfolded pool_quiet_def]
  define k1 where "k1 = upd_mutex (memb_mutex p) (\<lambda>x. x\<lparr>enable := 1, owner := Some (hd R)\<rparr>) k"
  have c1: "calling k1 R D S idle" using Q by (simp add: k1_def)
  have pend: "Lock_SempPend E (Some (memb_semp p)) 0 k1 = Some (k1, Ret False)"
    using SempPend_now(2) [OF c1, of "memb_semp p" E] lim(1) l by (simp add: k1_def)
  have g: "upd_pool p (\<lambda>P. P\<lparr>next_inc_pool := b\<rparr>) ((upd_pool p (\<lambda>P. P\<lparr>pool_offset := continue_pool P + m * cell_size P\<rparr>)
      (upd_pool p (\<lambda>P. P\<lparr>continue_pool := b + align_up_sys 1\<rparr>) k1))\<lparr>inc_link := (inc_link k1)(b := next_inc_pool (pools k1 p))\<rparr>) = grown p b m k1"
    by (simp add: grown_def upd_pool_def)
  have k1_run: "ptEventRunning k1 = ptEventRunning k" by (simp add: k1_def)
  have csz: "cell_size (pools k1 p) = cell_size (pools k p)" by (simp add: k1_def)
  obtain et where "Mb_Malloc E H p timeout k = malloc_owned E H p et k1" using Mb_Malloc_owned [OF q p(1)] k1_def by blast
  moreover have "malloc_owned E H p et k1 = malloc_grown E H p b k1"
    using pend lim(2) h(1) by (simp add: malloc_owned_def still_def Lock_SempQueryCapacital_def heap_grants_def k1_def)
  ultimately show ?thesis unfolding k1_def [symmetric]
    using h(2) p(2) g by (simp add: malloc_grown_def Let_def csz m [symmetric] still_cong [of "grown p b m k1" k] k1_run)
qed

section \<open>The contract of an allocator of cells\<close>

text \<open>Calls of a thread that remembers the cells it holds: \<open>Take\<close> asks for a cell, \<open>Give i\<close> returns the \<open>i\<close>-th one it holds.\<close>

datatype cell_op = Take | Give nat

definition cell_step ::
    "('s \<Rightarrow> ('s \<times> 'c option) option) \<Rightarrow> ('c \<Rightarrow> 's \<Rightarrow> 's option) \<Rightarrow> cell_op \<Rightarrow> 's \<times> 'c list \<Rightarrow> ('s \<times> 'c list) option" where
  "cell_step alloc release a sh = (case (a, sh) of
     (Take, s, h) \<Rightarrow> (case alloc s of None \<Rightarrow> None | Some (s', None) \<Rightarrow> Some (s', h) | Some (s', Some c) \<Rightarrow> Some (s', c # h))
   | (Give i, s, h) \<Rightarrow> if i < length h then map_option (\<lambda>s'. (s', take i h @ drop (Suc i) h)) (release (h ! i) s) else Some (s, h))"

primrec cell_run ::
    "('s \<Rightarrow> ('s \<times> 'c option) option) \<Rightarrow> ('c \<Rightarrow> 's \<Rightarrow> 's option) \<Rightarrow> cell_op list \<Rightarrow> 's \<times> 'c list \<Rightarrow> ('s \<times> 'c list) option" where
  "cell_run alloc release [] sh = Some sh"
| "cell_run alloc release (a # as) sh = do { sh \<leftarrow> cell_step alloc release a sh; cell_run alloc release as sh }"

text \<open>\<open>inv s cs A\<close>: the cells \<open>cs\<close> are free and will be handed out in this order, the cells \<open>A\<close> are in use.\<close>

locale cell_allocator =
  fixes inv :: "'s \<Rightarrow> 'c list \<Rightarrow> 'c set \<Rightarrow> bool" and alloc :: "'s \<Rightarrow> ('s \<times> 'c option) option" and release :: "'c \<Rightarrow> 's \<Rightarrow> 's option"
  assumes alloc: "inv s (c # cs) A \<Longrightarrow> \<exists>s'. alloc s = Some (s', Some c) \<and> inv s' cs (insert c A)"
    and empty: "inv s [] A \<Longrightarrow> alloc s = Some (s, None)"
    and release: "inv s cs A \<Longrightarrow> c \<in> A \<Longrightarrow> \<exists>s' cs'. release c s = Some s' \<and> inv s' cs' (A - {c}) \<and> set cs' = insert c (set cs)"
    and disjoint: "inv s cs A \<Longrightarrow> distinct cs \<and> set cs \<inter> A = {}"
begin

lemma step_safe:
  assumes "inv s cs (set h)" "distinct h"
  shows "\<exists>s' h' cs'. cell_step alloc release a (s, h) = Some (s', h') \<and> inv s' cs' (set h') \<and> distinct h' \<and> set cs' \<union> set h' = set cs \<union> set h"
proof (cases a)
  case Take
  show ?thesis
  proof (cases cs)
    case Nil
    then show ?thesis using empty assms Take by (auto simp: cell_step_def)
  next
    case (Cons c cs')
    then obtain s' where "alloc s = Some (s', Some c)" "inv s' cs' (set (c # h))" using alloc [of s c cs' "set h"] assms by auto
    then show ?thesis using Take Cons disjoint [OF assms(1)] assms(2) by (auto simp: cell_step_def)
  qed
next
  case (Give i)
  show ?thesis
  proof (cases "i < length h")
    case True
    let ?h = "take i h @ drop (Suc i) h"
    have h: "h = take i h @ h ! i # drop (Suc i) h" by (rule id_take_nth_drop [OF True])
    have "distinct (take i h @ h ! i # drop (Suc i) h)" using h assms(2) by metis
    moreover have "set h = set (take i h @ h ! i # drop (Suc i) h)" using arg_cong [OF h, of set] .
    ultimately have d: "distinct ?h" "h ! i \<notin> set ?h" "set h = insert (h ! i) (set ?h)" by auto
    obtain s' cs' where s': "release (h ! i) s = Some s'" "inv s' cs' (set h - {h ! i})" "set cs' = insert (h ! i) (set cs)"
      using release [OF assms(1) nth_mem [OF True]] by auto
    have "set h - {h ! i} = set ?h" using d by auto
    then show ?thesis using s' d Give True by (auto simp: cell_step_def)
  qed (use assms Give in \<open>auto simp: cell_step_def\<close>)
qed

lemma run_safe:
  "inv s cs (set h) \<Longrightarrow> distinct h \<Longrightarrow>
   \<exists>s' h' cs'. cell_run alloc release as (s, h) = Some (s', h') \<and> inv s' cs' (set h') \<and> distinct h' \<and> set cs' \<union> set h' = set cs \<union> set h"
proof (induction as arbitrary: s cs h)
  case (Cons a as)
  obtain s1 h1 cs1 where 1: "cell_step alloc release a (s, h) = Some (s1, h1)" "inv s1 cs1 (set h1)" "distinct h1" "set cs1 \<union> set h1 = set cs \<union> set h"
    using step_safe [OF Cons.prems] by blast
  from Cons.IH [OF 1(2,3)] 1(1,4) show ?case by simp
qed auto

text \<open>No cell is lost: the number of cells in use and of free ones stays the same.\<close>

lemma run_count:
  assumes "inv s cs (set h)" "distinct h" "cell_run alloc release as (s, h) = Some (s', h')"
  shows "\<exists>cs'. inv s' cs' (set h') \<and> length cs' + length h' = length cs + length h"
proof -
  obtain cs' where r: "inv s' cs' (set h')" "distinct h'" "set cs' \<union> set h' = set cs \<union> set h"
    using run_safe [OF assms(1,2), of as] assms(3) by auto
  have "card (set cs' \<union> set h') = length cs' + length h'" "card (set cs \<union> set h) = length cs + length h"
    using disjoint [OF r(1)] disjoint [OF assms(1)] r(2) assms(2) by (simp_all add: card_Un_disjoint distinct_card)
  then show ?thesis using r by auto
qed

end

text \<open>A pool that does not grow.\<close>

definition fixed_pool :: "u32 \<Rightarrow> 'a pkernel_scheme \<Rightarrow> u32 list \<Rightarrow> u32 set \<Rightarrow> bool" where
  "fixed_pool p k cs A \<longleftrightarrow> (\<exists>R D S idle F n. pool_quiet k p R D S idle \<and> pool_inv k p F n A 0 \<and> cs = pool_cells k p F n \<and>
     cell_limit (pools k p) = 0)"

definition Mb_alloc :: "'a pkernel_scheme stack_env \<Rightarrow> 'a pkernel_scheme heap_env \<Rightarrow> u32 \<Rightarrow> u32 \<Rightarrow> 'a pkernel_scheme \<Rightarrow> ('a pkernel_scheme \<times> u32 option) option" where
  "Mb_alloc E H p timeout k = (case Mb_Malloc E H p timeout k of
     Some (k', Ret c) \<Rightarrow> Some (k', if c = 0 then None else Some c) | _ \<Rightarrow> None)"

interpretation mb: cell_allocator "fixed_pool p" "Mb_alloc E H p timeout" "Mb_Free E p"
proof unfold_locales
  fix k :: "'a pkernel_scheme" and c cs A
  assume "fixed_pool p k (c # cs) A"
  then obtain R D S idle F n where *: "pool_quiet k p R D S idle" "pool_inv k p F n A 0" "c # cs = pool_cells k p F n" "cell_limit (pools k p) = 0"
    by (auto simp: fixed_pool_def)
  have "length F + n = Suc (length cs)" using arg_cong [OF *(3), of length] by (simp add: pool_cells_def area_cells_def)
  then have "lamp_counter (semps k (memb_semp p)) > 0" using *(2) by (simp add: pool_inv_def)
  from Mb_Malloc_lamp [OF *(1,2) this, of E H timeout] *(3) [symmetric]
  obtain k' F' n' where "Mb_Malloc E H p timeout k = Some (k', Ret c)" "pool_quiet k' p R D S idle"
    "pool_inv k' p F' n' (insert c A) 0" "pool_cells k' p F' n' = cs" "cell_limit (pools k' p) = 0" using *(4) by auto
  moreover have "c \<noteq> 0" using *(2,3) by (metis pool_inv_def pool_rep_def list.set_intros(1))
  ultimately show "\<exists>k'. Mb_alloc E H p timeout k = Some (k', Some c) \<and> fixed_pool p k' cs (insert c A)" by (auto simp: Mb_alloc_def fixed_pool_def)
next
  fix k :: "'a pkernel_scheme" and A
  assume "fixed_pool p k [] A"
  then obtain R D S idle F n where *: "pool_quiet k p R D S idle" "pool_inv k p F n A 0" "[] = pool_cells k p F n" "cell_limit (pools k p) = 0"
    by (auto simp: fixed_pool_def)
  have "length F + n = 0" using arg_cong [OF *(3), of length] by (simp add: pool_cells_def area_cells_def)
  then have "Mb_Malloc E H p timeout k = Some (k, Ret 0)"
    using *(2,4) by (intro Mb_Malloc_full [OF *(1)]) (auto simp: pool_inv_def)
  then show "Mb_alloc E H p timeout k = Some (k, None)" by (simp add: Mb_alloc_def)
next
  fix k :: "'a pkernel_scheme" and c cs A
  assume "fixed_pool p k cs A" "c \<in> A"
  then obtain R D S idle F n where *: "pool_quiet k p R D S idle" "pool_inv k p F n A 0" "cs = pool_cells k p F n" "cell_limit (pools k p) = 0"
    by (auto simp: fixed_pool_def)
  from Mb_Free_gives [OF *(1,2) \<open>c \<in> A\<close>, of E]
  obtain k' where k': "Mb_Free E p c k = Some k'" "pool_quiet k' p R D S idle" "pool_inv k' p (F @ [c]) n (A - {c}) 0"
    "area_cells (pools k' p) n = area_cells (pools k p) n" "cell_limit (pools k' p) = cell_limit (pools k p)" by blast
  have "fixed_pool p k' (pool_cells k' p (F @ [c]) n) (A - {c})" using k' *(4) by (auto simp: fixed_pool_def)
  moreover have "set (pool_cells k' p (F @ [c]) n) = insert c (set cs)" using k'(4) *(3) by (auto simp: pool_cells_def)
  ultimately show "\<exists>k' cs'. Mb_Free E p c k = Some k' \<and> fixed_pool p k' cs' (A - {c}) \<and> set cs' = insert c (set cs)"
    using k'(1) by blast
next
  fix k :: "'a pkernel_scheme" and cs A
  assume "fixed_pool p k cs A"
  then show "distinct cs \<and> set cs \<inter> A = {}" by (auto simp: fixed_pool_def pool_inv_def pool_rep_def)
qed

section \<open>Theorems\<close>

lemma CreatePool_fixed:
  fixes k :: "'a pkernel_scheme" and inc :: u32 and name :: string
  assumes c: "calling k R D S idle" "DJY_IsMultiEventStarted k" "S (MutexSync (memb_mutex p)) = []" "S (SempSync (memb_semp p)) = []"
    and p: "p \<noteq> 0" "pool_args orig cap sz" "orig \<noteq> 0" "unat orig + unat cap * unat sz < 2 ^ 32" "unat cap < 2 ^ 31"
  defines "k1 \<equiv> pool_setup p orig cap sz inc 0 name k"
  shows "Mb_CreatePool_s p orig cap sz inc 0 name k = (k1, p)" "fixed_pool p k1 (rev (area_cells (pools k1 p) (unat cap))) {}"
    "continue_pool (pools k1 p) = orig" "cell_size (pools k1 p) = sz"
proof -
  have e: "cells k (MutexSync (memb_mutex p)) = None" "cells k (SempSync (memb_semp p)) = None"
    using kinvD(3) [OF callingD(1) [OF c(1)]] c(3,4) by (auto simp: sync_rep_def)
  note defs = k1_def pool_setup_def Let_def Lock_SempCreate_s_def Lock_MutexCreate_s_def upd_pool_def upd_semp_def upd_mutex_def set_cell_def
  have P: "pools k1 p = \<lparr>continue_pool = orig, free_list = 0, pool_offset = orig + cap * sz, cell_size = sz, cell_increment = inc,
      cell_limit = 0, Name = name, next_inc_pool = 0\<rparr>" by (simp add: defs)
  then show P': "continue_pool (pools k1 p) = orig" "cell_size (pools k1 p) = sz" by simp_all
  show "Mb_CreatePool_s p orig cap sz inc 0 name k = (k1, p)" using p by (simp add: Mb_CreatePool_s_def k1_def)
  have f: "fld g k1 = fld g k" "ptEventReady k1 = ptEventReady k" "ptEventDelay k1 = ptEventDelay k" "cells k1 = cells k"
    for g :: "EventECB \<Rightarrow> 'v" using e by (auto simp: defs fld_def)
  have "kinv k1 R D S" by (rule kinv_cong [OF callingD(1) [OF c(1)]]) (simp_all add: f)
  moreover have "ptEventRunning k1 = ptEventRunning k" "DJY_QuerySch k1 = DJY_QuerySch k" "nest_asyn_signal k1 = nest_asyn_signal k"
    "en_asyn_signal_counter k1 = en_asyn_signal_counter k" "DJY_IsMultiEventStarted k1 = DJY_IsMultiEventStarted k"
    by (simp_all add: defs DJY_QuerySch_def DJY_IsMultiEventStarted_def)
  moreover have "enable (mutexes k1 (memb_mutex p)) = 0" "owner (mutexes k1 (memb_mutex p)) = None" by (simp_all add: defs)
  ultimately have "pool_quiet k1 p R D S idle" using c by (auto simp: pool_quiet_def calling_def f)
  moreover have "0 < sz" "0 < orig" using p(2,3) by (auto simp: pool_args_def sizeof_ptr_def word_gt_0)
  then have a: "distinct (area_cells (pools k1 p) (unat cap))" "0 \<notin> set (area_cells (pools k1 p) (unat cap))"
    using area_cells_nat [of "pools k1 p" "unat cap"] p(4) P' by auto
  have "sint cap = int (unat cap)" using sint_small_nat [OF p(5)] by simp
  then have "lamp_counter (semps k1 (memb_semp p)) = int (unat cap)" "lamps_limit (semps k1 (memb_semp p)) = int (unat cap)" by (simp_all add: defs)
  then have "pool_inv k1 p [] (unat cap) {} 0" using p a P by (simp add: pool_inv_def pool_rep_def pool_cells_def)
  ultimately show "fixed_pool p k1 (rev (area_cells (pools k1 p) (unat cap))) {}"
    unfolding fixed_pool_def using P by (auto simp: pool_cells_def)
qed


text \<open>C31. \<open>Mb_Malloc\<close> when the mutex of the pool is free: while the semaphore has a lamp, the caller gets the first cell of the list of free cells,
  or the last one of the continuous area if the list is empty, at once and without a change of any queue; without a lamp and without room
  to grow it gets \<open>NULL\<close> and nothing changes.\<close>

theorem Mb_Malloc_takes:
  assumes q: "pool_quiet k p R D S idle" and inv: "pool_inv k p F n A w"
  shows "if lamp_counter (semps k (memb_semp p)) > 0 then
      \<exists>k' F' n' c. Mb_Malloc E H p timeout k = Some (k', Ret c) \<and> F @ rev (area_cells (pools k p) n) = c # pool_cells k' p F' n' \<and> c \<notin> A \<and>
        pool_quiet k' p R D S idle \<and> pool_inv k' p F' n' (insert c A) w
    else cell_limit (pools k p) \<le> word_of_nat (length F + n + card A) \<longrightarrow> Mb_Malloc E H p timeout k = Some (k, Ret 0)"
proof -
  note I = inv [unfolded pool_inv_def]
  show ?thesis
  proof (cases "lamp_counter (semps k (memb_semp p)) > 0")
    case True
    obtain k' F' n' where *: "Mb_Malloc E H p timeout k = Some (k', Ret (hd (pool_cells k p F n)))" "pool_quiet k' p R D S idle"
        "pool_inv k' p F' n' (insert (hd (pool_cells k p F n)) A) w" "pool_cells k p F n \<noteq> []" "pool_cells k' p F' n' = tl (pool_cells k p F n)"
      using Mb_Malloc_lamp [OF q inv True, of E H timeout] by blast
    then have "F @ rev (area_cells (pools k p) n) = hd (pool_cells k p F n) # pool_cells k' p F' n'" "hd (pool_cells k p F n) \<notin> A"
      using I hd_in_set [OF *(4)] by (auto simp: pool_cells_def)
    with True *(1-3) show ?thesis by (simp only: if_True) blast
  next
    case False
    then have "lamp_counter (semps k (memb_semp p)) = 0" using I by linarith
    moreover have "word_of_int (lamps_limit (semps k (memb_semp p))) = (word_of_nat (length F + n + card A) :: u32)" using I by simp
    ultimately have "cell_limit (pools k p) \<le> word_of_nat (length F + n + card A) \<longrightarrow> Mb_Malloc E H p timeout k = Some (k, Ret 0)"
      using Mb_Malloc_full [OF q, of E H timeout] I by auto
    then show ?thesis using False by simp
  qed
qed

text \<open>\<open>Mb_Malloc\<close> of an exhausted pool that may grow: with a block of the heap in which there is room for cells, the cells of the block become the
  continuous area, the block is noted for \<open>Mb_DeletePool\<close>, and the caller gets the last cell of the block.  But if the block has
  no room for a cell, which is the case for \<open>cell_increment = 0\<close>, the caller gets an address before the first cell of the
  block although the semaphore had no lamp for it.\<close>

theorem Mb_Malloc_grows:
  assumes q: "pool_quiet k p R D S idle" and inv: "pool_inv k p [] 0 A 0"
    and lim: "word_of_nat (card A) < cell_limit (pools k p)" and sz: "sz = cell_size (pools k p)" "sz \<noteq> 0"
    and h: "heap_grants H (cell_increment (pools k p) * sz + 8) b" "b \<noteq> 0" "8 \<le> he_checksize H b" "unat b + unat (he_checksize H b) < 2 ^ 32"
    and m: "m = unat (he_checksize H b - 8) div unat sz" "card A + m < 2 ^ 31"
    and fresh: "\<forall>c\<in>A. unat c < unat b \<or> unat b + unat (he_checksize H b) \<le> unat c"
  shows "if 0 < m then
      \<exists>k' c. Mb_Malloc E H p timeout k = Some (k', Ret c) \<and> unat b + 8 \<le> unat c \<and> unat c + unat sz \<le> unat b + unat (he_checksize H b) \<and>
        pool_quiet k' p R D S idle \<and> pool_inv k' p [] (m - 1) (insert c A) 0 \<and>
        next_inc_pool (pools k' p) = b \<and> inc_link k' b = next_inc_pool (pools k p)
    else \<exists>k'. Mb_Malloc E H p timeout k = Some (k', Ret (b + 8 - sz)) \<and> semps k' = semps k"
proof -
  note I = inv [unfolded pool_inv_def] and Q = q [unfolded pool_quiet_def]
  let ?s = "memb_semp p" and ?m = "memb_mutex p"
  define mw where "mw = (he_checksize H b - align_up_sys 1) div cell_size (pools k p)"
  define k1 where "k1 = upd_mutex ?m (\<lambda>x. x\<lparr>enable := 1, owner := Some (hd R)\<rparr>) k"
  have mw: "unat mw = m" "sint mw = int m" "mw = word_of_nat m"
  proof -
    show u: "unat mw = m" using m(1) sz(1) by (simp add: mw_def align_up_sys_1 unat_div)
    have "mw = word_of_nat (unat mw)" by simp
    then show w: "mw = word_of_nat m" using u by simp
    show "sint mw = int m" unfolding w using m(2) by (intro sint_small_nat) simp
  qed
  have l: "lamp_counter (semps k ?s) = 0" "lamps_limit (semps k ?s) = int (card A)" "p \<noteq> 0" using I by auto
  have run: "Mb_Malloc E H p timeout k = do {
      k' \<leftarrow> Lock_SempExpand E (Some ?s) (int m) (grown p b mw k1);
      still k (\<lambda>k. do { (k', _) \<leftarrow> Lock_SempPend E (Some ?s) 0 k; still k (malloc_release E p) k' }) k' }"
    unfolding k1_def mw(2) [symmetric] using l lim h sz by (intro Mb_Malloc_grow [OF q]) (auto simp: mw_def align_up_sys_1)
  have c1: "calling (grown p b mw k1) R D S idle" using Q by (simp add: k1_def)
  have rel: "malloc_release E p (f (grown p b mw k1)) = (case pool_take p (f (grown p b mw k)) of (k, r) \<Rightarrow> Some (k, Ret r))"
    if "calling (f (grown p b mw k1)) R D S idle" "f = id \<or> f = (\<lambda>k. upd_semp ?s g (upd_semp ?s g' k))" for f g g'
    using Q that by (subst malloc_release_now(1) [OF that(1)]) (auto simp: k1_def mutex_taken_freed grown_comm)
  have run1: "ptEventRunning (grown p b mw k1) = ptEventRunning k" by (simp add: k1_def)
  show ?thesis
  proof (cases "0 < m")
    case False
    have "Lock_SempPend E (Some ?s) 0 (grown p b mw k1) = Some (grown p b mw k1, Ret False)"
      using l by (intro SempPend_now(2) [OF c1]) (simp_all add: k1_def)
    moreover have "pool_take p (grown p b mw k) = (upd_pool p (\<lambda>P. P\<lparr>pool_offset := pool_offset P - cell_size P\<rparr>) (grown p b mw k), b + 8 - sz)"
      using I False mw(3) sz(1) by (simp add: pool_take_def pool_rep_def grown_def align_up_sys_1)
    ultimately show ?thesis using False run rel [of id] c1 run1 by (simp add: Lock_SempExpand_def still_def)
  next
    case True
    let ?f = "\<lambda>x. x\<lparr>lamps_limit := int (card A) + int m, lamp_counter := int m\<rparr>" and ?g = "\<lambda>x. x\<lparr>lamp_counter := int m - 1\<rparr>"
    have expand: "Lock_SempExpand E (Some ?s) (int m) (grown p b mw k1) = Some (upd_semp ?s ?f (grown p b mw k1))"
      using SempExpand_now [OF c1, of "int m" ?s E] True l Q m(2) by (simp add: k1_def CN_LIMIT_SINT32_def)
    have pend: "Lock_SempPend E (Some ?s) 0 (upd_semp ?s ?f (grown p b mw k1)) = Some (upd_semp ?s ?g (upd_semp ?s ?f (grown p b mw k1)), Ret True)"
      using SempPend_now(1) [OF calling_upd(1) [OF c1, of ?s ?f], of ?s E 0] True by simp
    define k4 where "k4 = upd_semp ?s ?g (upd_semp ?s ?f (grown p b mw k))"
    have P: "continue_pool (pools k4 p) = b + 8" "cell_size (pools k4 p) = sz" "pool_offset (pools k4 p) = b + 8 + mw * sz" "free_list (pools k4 p) = 0"
      "next_inc_pool (pools k4 p) = b" "inc_link k4 b = next_inc_pool (pools k p)"
      "semps k4 ?s = (semps k ?s)\<lparr>lamps_limit := int (card A) + int m, lamp_counter := int m - 1\<rparr>"
      using I sz(1) by (simp_all add: k4_def grown_def align_up_sys_1 pool_rep_def)
    let ?cs = "area_cells (pools k4 p) m"
    have a: "distinct ?cs" "0 \<notin> set ?cs" "\<And>c. c \<in> set ?cs \<Longrightarrow> unat b + 8 \<le> unat c \<and> unat c + unat sz \<le> unat b + unat (he_checksize H b)"
      using block_cells [of "pools k4 p" b "he_checksize H b" m] P(1,2) sz(2) h(3,4) m(1) by auto
    have "A \<inter> set ?cs = {}"
    proof (rule ccontr)
      assume "A \<inter> set ?cs \<noteq> {}"
      then obtain c where "c \<in> A" "c \<in> set ?cs" by blast
      moreover have "0 < unat sz" using sz(2) by (simp add: unat_gt_0)
      ultimately show False using a(3) [of c] bspec [OF fresh, of c] by linarith
    qed
    then have inv4: "pool_inv k4 p [] m A (Suc 0)"
      using I a P mw(3) True m(2) by (simp add: pool_inv_def pool_rep_def pool_cells_def)
    obtain k' where t: "pool_take p k4 = (k', hd (rev ?cs))" "pframe p k4 k'" "rev ?cs \<noteq> []" "pool_inv k' p [] (m - 1) (insert (hd (rev ?cs)) A) 0"
      using pool_take_inv [OF inv4] by (auto simp: pool_cells_def)
    note F = pframeD [OF t(2)]
    have hd: "hd (rev ?cs) \<in> set ?cs" using hd_in_set [OF t(3)] by simp
    have "pool_quiet k' p R D S idle" using Q F by (simp add: pool_quiet_def k4_def)
    moreover have "next_inc_pool (pools k' p) = b" "inc_link k' = inc_link k4" using F(9,10) P(5) by simp_all
    moreover have "Mb_Malloc E H p timeout k = Some (k', Ret (hd (rev ?cs)))"
      using run rel [of "\<lambda>k. upd_semp ?s ?g (upd_semp ?s ?f k)" ?g ?f] c1 t(1) run1
        expand pend by (simp add: still_def k4_def [symmetric])
    ultimately show ?thesis using True a(3) [OF hd] P(6) t(4) by auto
  qed
qed

text \<open>A pool of two cells of 8 bytes at 4096, one of them in use, beside the sample state of the kernel.\<close>

definition sample_pool :: "u32 \<Rightarrow> pkernel" where
  "sample_pool lim = busy_kernel \<lparr>semps = (\<lambda>_. \<lparr>sync_order = False, lamps_limit = 2, lamp_counter = (if lim = 0 then 1 else 0), semp_name = []\<rparr>),
     mutexes = (\<lambda>_. \<lparr>enable = 0, owner = None, mutex_name = []\<rparr>), semp_list = [], mutex_list = [],
     pools = (\<lambda>_. \<lparr>continue_pool = 4096, free_list = 0, pool_offset = (if lim = 0 then 4104 else 4096), cell_size = 8, cell_increment = 2, cell_limit = lim,
       Name = [], next_inc_pool = 0\<rparr>),
     cell_next = (\<lambda>_. 0), cell_previous = (\<lambda>_. 0), inc_link = (\<lambda>_. 0), pool_nodes = \<lparr>dnext = (\<lambda>_. 0), dprev = (\<lambda>_. 0)\<rparr>, PoolHead = 0, PoolCtrl = 0\<rparr>"

lemma sample_pool_facts:
  "calling (sample_pool lim) [1, 0] [2, 3] busy_syncs 0" "DJY_IsMultiEventStarted (sample_pool lim)"
  "busy_syncs (MutexSync (memb_mutex 100)) = []" "busy_syncs (SempSync (memb_semp 100)) = []"
  "pool_quiet (sample_pool lim) 100 [1, 0] [2, 3] busy_syncs 0"
proof -
  show c: "calling (sample_pool lim) [1, 0] [2, 3] busy_syncs 0" unfolding sample_pool_def by (rule busy_calling)
  show m: "DJY_IsMultiEventStarted (sample_pool lim)" by (simp add: sample_pool_def busy_kernel_def DJY_IsMultiEventStarted_def)
  show e: "busy_syncs (MutexSync (memb_mutex 100)) = []" "busy_syncs (SempSync (memb_semp 100)) = []" by (simp_all add: busy_syncs_def memb_mutex_def memb_semp_def)
  show "pool_quiet (sample_pool lim) 100 [1, 0] [2, 3] busy_syncs 0" using c m e by (simp add: pool_quiet_def sample_pool_def busy_kernel_def)
qed

lemma sample_pool_sel:
  "pools (sample_pool lim) p = \<lparr>continue_pool = 4096, free_list = 0, pool_offset = (if lim = 0 then 4104 else 4096), cell_size = 8, cell_increment = 2,
     cell_limit = lim, Name = [], next_inc_pool = 0\<rparr>"
  "semps (sample_pool lim) q = \<lparr>sync_order = False, lamps_limit = 2, lamp_counter = (if lim = 0 then 1 else 0), semp_name = []\<rparr>"
  by (simp_all add: sample_pool_def busy_kernel_def)

definition sample_heap :: "'k heap_env" where
  "sample_heap = \<lparr>he_malloc = (\<lambda>_ _ k. Some (k, Ret 8192)), he_checksize = (\<lambda>_. 24), he_free = (\<lambda>_ k. Some k), he_time = (\<lambda>_. 0)\<rparr>"

theorem Mb_Malloc_takes_witness:
  "\<exists>k'. Mb_Malloc sample_env sample_heap 100 0 (sample_pool 0) = Some (k', Ret 4096)"
proof -
  have "pool_inv (sample_pool 0) 100 [] 1 {4104} 0"
    by (simp add: pool_inv_def pool_rep_def pool_cells_def area_cells_def sample_pool_sel)
  from Mb_Malloc_takes [OF sample_pool_facts(5) this, of sample_env sample_heap 0] show ?thesis
    by (auto simp: sample_pool_sel area_cells_def)
qed


theorem Mb_Malloc_grows_witness:
  "\<exists>k' c. Mb_Malloc sample_env sample_heap 100 0 (sample_pool 3) = Some (k', Ret c) \<and> unat c \<in> {8200..8208} \<and> next_inc_pool (pools k' 100) = 8192"
proof -
  have inv: "pool_inv (sample_pool 3) 100 [] 0 {4096, 4104} 0"
    by (simp add: pool_inv_def pool_rep_def pool_cells_def area_cells_def sample_pool_sel)
  have f: "word_of_nat (card {4096 :: u32, 4104}) < cell_limit (pools (sample_pool 3) 100)" "8 = cell_size (pools (sample_pool 3) 100)" "(8 :: u32) \<noteq> 0"
    "heap_grants sample_heap (cell_increment (pools (sample_pool 3) 100) * 8 + 8) 8192" "(8192 :: u32) \<noteq> 0" "8 \<le> he_checksize sample_heap 8192"
    "unat (8192 :: u32) + unat (he_checksize sample_heap 8192) < 2 ^ 32" "2 = unat (he_checksize sample_heap 8192 - 8) div unat (8 :: u32)"
    "card {4096 :: u32, 4104} + 2 < 2 ^ 31" "\<forall>c\<in>{4096 :: u32, 4104}. unat c < unat (8192 :: u32) \<or> unat (8192 :: u32) + unat (he_checksize sample_heap 8192) \<le> unat c"
    by (simp_all add: sample_pool_sel sample_heap_def heap_grants_def)
  have sz: "unat (he_checksize (sample_heap :: pkernel heap_env) 8192) = 24" by (simp add: sample_heap_def)
  have "\<exists>k' c. Mb_Malloc sample_env sample_heap 100 0 (sample_pool 3) = Some (k', Ret c) \<and> unat (8192 :: u32) + 8 \<le> unat c \<and>
      unat c + unat (8 :: u32) \<le> unat (8192 :: u32) + 24 \<and> next_inc_pool (pools k' 100) = 8192"
    using Mb_Malloc_grows [OF sample_pool_facts(5) inv f, of sample_env 0] by (simp only: zero_less_numeral if_True sz) blast
  then show ?thesis by (elim exE conjE) (intro exI conjI; simp)
qed

section \<open>Locks from a pool\<close>

text \<open>The functions of \<open>src/djyos/lock/lock.c\<close> that return the control block of a lock to the pool \<open>g_ptLockPool\<close>, here an argument.\<close>

definition Lock_SempDelete ::
    "'a pkernel_scheme stack_env \<Rightarrow> u32 \<Rightarrow> nat option \<Rightarrow> 'a pkernel_scheme \<Rightarrow> ('a pkernel_scheme \<times> bool) option" where
  "Lock_SempDelete E g_ptLockPool semp k =
     (case semp of None \<Rightarrow> Some (k, False)
      | Some s \<Rightarrow> do {
          let k = Int_SaveAsynSignal k;
          let result = (cells k (SempSync s) = None);
          k \<leftarrow> (if result then Mb_Free E g_ptLockPool (word_of_nat s) (k\<lparr>semp_list := remove1 s (semp_list k)\<rparr>) else Some k);
          k \<leftarrow> Int_RestoreAsynSignal E k;
          Some (k, result) })"

definition Lock_MutexDelete ::
    "'a pkernel_scheme stack_env \<Rightarrow> u32 \<Rightarrow> nat option \<Rightarrow> 'a pkernel_scheme \<Rightarrow> ('a pkernel_scheme \<times> bool) option" where
  "Lock_MutexDelete E g_ptLockPool mutex k =
     (case mutex of None \<Rightarrow> Some (k, False)
      | Some m \<Rightarrow> do {
          let k = Int_SaveAsynSignal k;
          let result = (cells k (MutexSync m) = None);
          k \<leftarrow> (if result then Mb_Free E g_ptLockPool (word_of_nat m) (k\<lparr>mutex_list := remove1 m (mutex_list k)\<rparr>) else Some k);
          k \<leftarrow> Int_RestoreAsynSignal E k;
          Some (k, result) })"

end
