(* ===== verification/Djy_IntLine.thy ===== *)
theory Djy_IntLine
  imports Djy_Evtt
begin

text \<open>
  The interrupt lines of \<open>src/djyos/int/int.c\<close>: registration, the nesting counter and the enable bit of a line, its handler and event
  type, and the wait for an interrupt.  The interrupt controller of the board is an argument: \<open>Int_CutLine\<close>, \<open>Int_ContactLine\<close>,
  \<open>Int_QueryLine\<close> and \<open>Int_ClearLine\<close> on the state \<open>hw\<close> of the controller.  \<open>int_last\<close> is \<open>CN_INT_LINE_LAST\<close>; a handler is a number, its
  code is the argument \<open>isr\<close>.
\<close>

record IntLine =
  ISR :: "nat option"
  sync_event :: "nat option"
  en_counter :: u32
  int_type :: u32
  clear_type :: u32
  enable_nest :: bool
  my_evtt_id :: u16
  line_prio :: u32
  para :: u32

record 'h ikernel = kernel +
  int_last :: u32
  IntLineTable :: "u32 \<Rightarrow> IntLine option"
  enable_bitmap :: "u32 list"
  hw :: 'h

record 'h int_hard =
  Int_CutLine :: "u32 \<Rightarrow> 'h \<Rightarrow> 'h"
  Int_ContactLine :: "u32 \<Rightarrow> 'h \<Rightarrow> 'h"
  Int_QueryLine :: "u32 \<Rightarrow> 'h \<Rightarrow> bool \<times> 'h"
  Int_ClearLine :: "u32 \<Rightarrow> 'h \<Rightarrow> 'h"

definition CN_ASYN_SIGNAL :: u32 where "CN_ASYN_SIGNAL = 0"
definition CN_REAL :: u32 where "CN_REAL = 1"
definition CN_INT_CLEAR_AUTO :: u32 where "CN_INT_CLEAR_AUTO = 0"
definition CN_STS_WAIT_ASYN_SIGNAL :: u32 where "CN_STS_WAIT_ASYN_SIGNAL = push_bit 9 1"
definition CN_CPU_BITS :: nat where "CN_CPU_BITS = 32"

definition upd_line :: "u32 \<Rightarrow> (IntLine \<Rightarrow> IntLine) \<Rightarrow> ('h, 'a) ikernel_scheme \<Rightarrow> ('h, 'a) ikernel_scheme" where
  "upd_line l f k = k\<lparr>IntLineTable := (IntLineTable k)(l := map_option f (IntLineTable k l))\<rparr>"

definition line_bad :: "u32 \<Rightarrow> ('h, 'a) ikernel_scheme \<Rightarrow> bool" where
  "line_bad l k \<longleftrightarrow> l > int_last k \<or> IntLineTable k l = None"

definition set_enable_bit :: "u32 \<Rightarrow> ('h, 'a) ikernel_scheme \<Rightarrow> ('h, 'a) ikernel_scheme" where
  "set_enable_bit l k = (let i = unat l div CN_CPU_BITS in
     k\<lparr>enable_bitmap := (enable_bitmap k)[i := enable_bitmap k ! i OR push_bit (unat l mod CN_CPU_BITS) 1]\<rparr>)"

definition clear_enable_bit :: "u32 \<Rightarrow> ('h, 'a) ikernel_scheme \<Rightarrow> ('h, 'a) ikernel_scheme" where
  "clear_enable_bit l k = (let i = unat l div CN_CPU_BITS in
     k\<lparr>enable_bitmap := (enable_bitmap k)[i := enable_bitmap k ! i AND NOT (push_bit (unat l mod CN_CPU_BITS) 1)]\<rparr>)"

definition Int_SaveLine :: "'h int_hard \<Rightarrow> u32 \<Rightarrow> ('h, 'a) ikernel_scheme \<Rightarrow> ('h, 'a) ikernel_scheme \<times> bool" where
  "Int_SaveLine B l k =
     (if line_bad l k then (k, False)
      else let k = k\<lparr>hw := Int_CutLine B l (hw k)\<rparr>;
               k = upd_line l (\<lambda>L. if en_counter L \<noteq> CN_LIMIT_UCPU then L\<lparr>en_counter := en_counter L + 1\<rparr> else L) k
           in (clear_enable_bit l k, True))"

definition Int_RestoreLine :: "'h int_hard \<Rightarrow> u32 \<Rightarrow> ('h, 'a) ikernel_scheme \<Rightarrow> ('h, 'a) ikernel_scheme \<times> bool" where
  "Int_RestoreLine B l k =
     (if line_bad l k then (k, False)
      else let k = upd_line l (\<lambda>L. if en_counter L \<noteq> 0 then L\<lparr>en_counter := en_counter L - 1\<rparr> else L) k
           in if map_option en_counter (IntLineTable k l) = Some 0 then
                let k = set_enable_bit l k in (k\<lparr>hw := Int_ContactLine B l (hw k)\<rparr>, True)
              else (k, True))"

definition Int_DisableLine :: "'h int_hard \<Rightarrow> u32 \<Rightarrow> ('h, 'a) ikernel_scheme \<Rightarrow> ('h, 'a) ikernel_scheme \<times> bool" where
  "Int_DisableLine B l k =
     (if line_bad l k then (k, False)
      else let k = k\<lparr>hw := Int_CutLine B l (hw k)\<rparr>;
               k = upd_line l (\<lambda>L. L\<lparr>en_counter := 1\<rparr>) k
           in (clear_enable_bit l k, True))"

definition Int_EnableLine :: "'h int_hard \<Rightarrow> u32 \<Rightarrow> ('h, 'a) ikernel_scheme \<Rightarrow> ('h, 'a) ikernel_scheme \<times> bool" where
  "Int_EnableLine B l k =
     (if line_bad l k then (k, False)
      else let k = upd_line l (\<lambda>L. L\<lparr>en_counter := 0\<rparr>) k;
               k = set_enable_bit l k
           in (k\<lparr>hw := Int_ContactLine B l (hw k)\<rparr>, True))"

definition Int_CheckLine :: "u32 \<Rightarrow> ('h, 'a) ikernel_scheme \<Rightarrow> bool" where
  "Int_CheckLine l k =
     (if line_bad l k then False else map_option en_counter (IntLineTable k l) = Some 0)"

definition Int_SetClearType :: "u32 \<Rightarrow> u32 \<Rightarrow> ('h, 'a) ikernel_scheme \<Rightarrow> ('h, 'a) ikernel_scheme \<times> bool" where
  "Int_SetClearType l ct k =
     (if line_bad l k then (k, False)
      else if map_option int_type (IntLineTable k l) = Some CN_REAL then (k, False)
      else (upd_line l (\<lambda>L. L\<lparr>clear_type := ct\<rparr>) k, True))"

definition Int_IsrConnect :: "u32 \<Rightarrow> nat option \<Rightarrow> ('h, 'a) ikernel_scheme \<Rightarrow> ('h, 'a) ikernel_scheme" where
  "Int_IsrConnect l f k = (if line_bad l k then k else upd_line l (\<lambda>L. L\<lparr>ISR := f\<rparr>) k)"

definition Int_SetIsrPara :: "u32 \<Rightarrow> u32 \<Rightarrow> ('h, 'a) ikernel_scheme \<Rightarrow> ('h, 'a) ikernel_scheme" where
  "Int_SetIsrPara l p k = (if line_bad l k then k else upd_line l (\<lambda>L. L\<lparr>para := p\<rparr>) k)"

definition Int_EvttConnect :: "u32 \<Rightarrow> u16 \<Rightarrow> ('h, 'a) ikernel_scheme \<Rightarrow> ('h, 'a) ikernel_scheme \<times> bool" where
  "Int_EvttConnect l evtt k =
     (if line_bad l k then (k, False)
      else if map_option int_type (IntLineTable k l) \<noteq> Some CN_ASYN_SIGNAL then (k, False)
      else (upd_line l (\<lambda>L. L\<lparr>my_evtt_id := evtt\<rparr>) k, True))"

definition Int_IsrDisConnect :: "u32 \<Rightarrow> ('h, 'a) ikernel_scheme \<Rightarrow> ('h, 'a) ikernel_scheme" where
  "Int_IsrDisConnect l k = (if line_bad l k then k else upd_line l (\<lambda>L. L\<lparr>ISR := None\<rparr>) k)"

definition Int_EvttDisConnect :: "u32 \<Rightarrow> ('h, 'a) ikernel_scheme \<Rightarrow> ('h, 'a) ikernel_scheme" where
  "Int_EvttDisConnect l k = (if line_bad l k then k else upd_line l (\<lambda>L. L\<lparr>my_evtt_id := CN_EVTT_ID_INVALID\<rparr>) k)"

text \<open>The entry of the table is read before the number of the line is checked: behind the table, the outcome is \<^const>\<open>None\<close>.\<close>

definition Int_AsynSignalSync ::
    "('h, 'a) ikernel_scheme stack_env \<Rightarrow> 'h int_hard \<Rightarrow> (nat \<Rightarrow> u32 \<Rightarrow> ('h, 'a) ikernel_scheme \<Rightarrow> ('h, 'a) ikernel_scheme option) \<Rightarrow>
     u32 \<Rightarrow> ('h, 'a) ikernel_scheme \<Rightarrow> (('h, 'a) ikernel_scheme \<times> bool call) option" where
  "Int_AsynSignalSync E B isr l k =
     (if l > int_last k then None
      else case IntLineTable k l of None \<Rightarrow> Some (k, Ret False)
      | Some L \<Rightarrow>
        if \<not> DJY_QuerySch k then Some (DJY_SaveLastError EN_KNL_CANT_SCHED k, Ret False)
        else do {
          let k = Int_SaveAsynSignal k;
          if int_type L = CN_REAL \<or> sync_event L \<noteq> None then do {
            k \<leftarrow> Int_RestoreAsynSignal E k;
            Some (k, Ret False) }
          else do {
            let (hit, h) = Int_QueryLine B l (hw k);
            let k = k\<lparr>hw := h\<rparr>;
            if hit then do {
              k \<leftarrow> (case ISR L of None \<Rightarrow> Some k | Some f \<Rightarrow> isr f (para L) k);
              let k = k\<lparr>hw := Int_ClearLine B l (hw k)\<rparr>;
              k \<leftarrow> Int_RestoreAsynSignal E k;
              Some (k, Ret True) }
            else do {
              let run = ptEventRunning k;
              k \<leftarrow> DJY_CutReadyEvent run k;
              let k = set_next run None k;
              let k = set_previous run None k;
              let k = set_fld event_status_update run CN_STS_WAIT_ASYN_SIGNAL k;
              let k = upd_line l (\<lambda>L. L\<lparr>sync_event := Some run\<rparr>) k;
              let (k, _) = Int_EnableLine B l k;
              k \<leftarrow> Int_RestoreAsynSignal E k;
              Some (k, Blocked) } } })"

definition Int_AsynSignalSync_resume :: "'h int_hard \<Rightarrow> u32 \<Rightarrow> ('h, 'a) ikernel_scheme \<Rightarrow> ('h, 'a) ikernel_scheme \<times> bool" where
  "Int_AsynSignalSync_resume B l k =
     (let (k, _) = Int_DisableLine B l k;
          k = set_fld wakeup_from_update (ptEventRunning k) CN_STS_WAIT_ASYN_SIGNAL k
      in (set_fld event_status_update (ptEventRunning k) CN_STS_EVENT_READY k, True))"

text \<open>\<open>mem\<close> says whether \<open>M_Malloc\<close> returned memory, \<open>null\<close> is the handler \<open>DJY_NullFunc\<close>.\<close>

definition Int_Register :: "nat \<Rightarrow> bool \<Rightarrow> u32 \<Rightarrow> ('h, 'a) ikernel_scheme \<Rightarrow> ('h, 'a) ikernel_scheme \<times> bool" where
  "Int_Register null mem l k =
     (if l > int_last k then (k, False)
      else if IntLineTable k l \<noteq> None then (k, True)
      else if \<not> mem then (k, False)
      else (k\<lparr>IntLineTable := (IntLineTable k)(l := Some \<lparr>ISR = Some null, sync_event = None, en_counter = 1, int_type = CN_ASYN_SIGNAL,
              clear_type = CN_INT_CLEAR_AUTO, enable_nest = False, my_evtt_id = CN_EVTT_ID_INVALID, line_prio = 0, para = l\<rparr>)\<rparr>, True))"

definition Int_UnRegister :: "u32 \<Rightarrow> ('h, 'a) ikernel_scheme \<Rightarrow> ('h, 'a) ikernel_scheme \<times> bool" where
  "Int_UnRegister l k =
     (if l > int_last k then (k, False)
      else if IntLineTable k l = None then (k, False)
      else (k\<lparr>IntLineTable := (IntLineTable k)(l := None)\<rparr>, True))"

section \<open>Counter, bit and controller agree\<close>

text \<open>What the kernel relies on: the controller has a state for each line that the two functions switch.  \<open>on h l\<close> says that the line \<open>l\<close> is connected.\<close>

definition switches :: "('h \<Rightarrow> u32 \<Rightarrow> bool) \<Rightarrow> 'h int_hard \<Rightarrow> bool" where
  "switches on B \<longleftrightarrow> (\<forall>h l. on (Int_CutLine B l h) = (on h)(l := False) \<and> on (Int_ContactLine B l h) = (on h)(l := True))"

definition enabled_bit :: "('h, 'a) ikernel_scheme \<Rightarrow> u32 \<Rightarrow> bool" where
  "enabled_bit k l = bit (enable_bitmap k ! (unat l div CN_CPU_BITS)) (unat l mod CN_CPU_BITS)"

definition lines_inv :: "('h \<Rightarrow> u32 \<Rightarrow> bool) \<Rightarrow> ('h, 'a) ikernel_scheme \<Rightarrow> bool" where
  "lines_inv on k \<longleftrightarrow> length (enable_bitmap k) = (unat (int_last k) + CN_CPU_BITS) div CN_CPU_BITS \<and>
     (\<forall>l\<le>int_last k. enabled_bit k l = Int_CheckLine l k \<and> on (hw k) l = Int_CheckLine l k)"

lemma line_index:
  assumes "l \<le> int_last k" "length (enable_bitmap k) = (unat (int_last k) + CN_CPU_BITS) div CN_CPU_BITS"
  shows "unat l div CN_CPU_BITS < length (enable_bitmap k)"
proof -
  have "unat l div 32 < Suc (unat (int_last k) div 32)" using assms(1) by (simp add: word_le_nat_alt div_le_mono le_imp_less_Suc)
  then show ?thesis using assms(2) by (simp add: CN_CPU_BITS_def)
qed

lemma same_line: "unat (l :: u32) div 32 = unat l' div 32 \<Longrightarrow> unat l mod 32 = unat l' mod 32 \<longleftrightarrow> l = l'"
  by (metis div_mult_mod_eq word_unat_eq_iff)

lemma enabled_bit_upd:
  assumes "l \<le> int_last k" "l' \<le> int_last k" "length (enable_bitmap k) = (unat (int_last k) + CN_CPU_BITS) div CN_CPU_BITS"
  shows "enabled_bit (set_enable_bit l k) l' = (l' = l \<or> enabled_bit k l')" "enabled_bit (clear_enable_bit l k) l' = (l' \<noteq> l \<and> enabled_bit k l')"
proof -
  note i = line_index [OF assms(1,3)]
  have m: "unat l' mod 32 < 32" by simp
  show "enabled_bit (set_enable_bit l k) l' = (l' = l \<or> enabled_bit k l')"
    using i m same_line [of l' l] by (auto simp: enabled_bit_def set_enable_bit_def Let_def nth_list_update CN_CPU_BITS_def bit_simps)
  show "enabled_bit (clear_enable_bit l k) l' = (l' \<noteq> l \<and> enabled_bit k l')"
    using i m same_line [of l' l] by (auto simp: enabled_bit_def clear_enable_bit_def Let_def nth_list_update CN_CPU_BITS_def bit_simps)
qed

lemma line_upd_simps [simp]:
  "int_last (upd_line l f k) = int_last k" "enable_bitmap (upd_line l f k) = enable_bitmap k" "hw (upd_line l f k) = hw k"
  "IntLineTable (upd_line l f k) = (IntLineTable k)(l := map_option f (IntLineTable k l))"
  "int_last (set_enable_bit l k) = int_last k" "hw (set_enable_bit l k) = hw k" "IntLineTable (set_enable_bit l k) = IntLineTable k"
  "length (enable_bitmap (set_enable_bit l k)) = length (enable_bitmap k)"
  "int_last (clear_enable_bit l k) = int_last k" "hw (clear_enable_bit l k) = hw k" "IntLineTable (clear_enable_bit l k) = IntLineTable k"
  "length (enable_bitmap (clear_enable_bit l k)) = length (enable_bitmap k)"
  "enabled_bit (upd_line l f k) = enabled_bit k" "enabled_bit (k\<lparr>hw := h\<rparr>) = enabled_bit k"
  by (simp_all add: upd_line_def set_enable_bit_def clear_enable_bit_def Let_def enabled_bit_def fun_eq_iff)

datatype line_op = Save u32 | Restore u32 | Disable u32 | Enable u32 | Register u32 | UnRegister u32

definition line_step :: "'h int_hard \<Rightarrow> nat \<Rightarrow> line_op \<Rightarrow> ('h, 'a) ikernel_scheme \<Rightarrow> ('h, 'a) ikernel_scheme" where
  "line_step B null a k = (case a of
     Save l \<Rightarrow> fst (Int_SaveLine B l k) | Restore l \<Rightarrow> fst (Int_RestoreLine B l k) | Disable l \<Rightarrow> fst (Int_DisableLine B l k)
   | Enable l \<Rightarrow> fst (Int_EnableLine B l k) | Register l \<Rightarrow> fst (Int_Register null True l k)
   | UnRegister l \<Rightarrow> if Int_CheckLine l k then k else fst (Int_UnRegister l k))"

lemma line_step_inv:
  assumes B: "switches on B" and inv: "lines_inv on k"
  shows "lines_inv on (line_step B null a k)"
proof -
  note I = inv [unfolded lines_inv_def]
  have sat: "w + 1 \<noteq> 0" if "w \<noteq> CN_LIMIT_UCPU" for w :: u32
  proof
    assume "w + 1 = 0"
    then have "w = - 1" by (simp add: add_eq_0_iff2)
    then show False using that by (simp add: CN_LIMIT_UCPU_def)
  qed
  have lim: "CN_LIMIT_UCPU \<noteq> (0 :: u32)" by (simp add: CN_LIMIT_UCPU_def)
  have on: "on (Int_CutLine B l h) l' = (l' \<noteq> l \<and> on h l')" "on (Int_ContactLine B l h) l' = (l' = l \<or> on h l')" for l l' h
    using B by (simp_all add: switches_def)
  show ?thesis
  proof (cases a)
    case (Save l)
    then show ?thesis using I sat lim
      by (auto simp: line_step_def Int_SaveLine_def lines_inv_def Let_def line_bad_def Int_CheckLine_def on enabled_bit_upd)
  next
    case (Restore l)
    then show ?thesis using I
      by (auto simp: line_step_def Int_RestoreLine_def lines_inv_def Let_def line_bad_def Int_CheckLine_def on enabled_bit_upd)
  next
    case (Disable l)
    then show ?thesis using I by (auto simp: line_step_def Int_DisableLine_def lines_inv_def Let_def line_bad_def Int_CheckLine_def on enabled_bit_upd)
  next
    case (Enable l)
    then show ?thesis using I by (auto simp: line_step_def Int_EnableLine_def lines_inv_def Let_def line_bad_def Int_CheckLine_def on enabled_bit_upd)
  next
    case (Register l)
    then show ?thesis using I
      by (auto simp: line_step_def Int_Register_def lines_inv_def Let_def line_bad_def Int_CheckLine_def enabled_bit_def)
  next
    case (UnRegister l)
    then show ?thesis using I
      by (auto simp: line_step_def Int_UnRegister_def lines_inv_def Let_def line_bad_def Int_CheckLine_def enabled_bit_def)
  qed
qed

lemma lines_run_inv: "switches on B \<Longrightarrow> lines_inv on k \<Longrightarrow> lines_inv on (fold (line_step B null) as k)"
  by (induction as arbitrary: k) (simp_all add: line_step_inv)

text \<open>The counter of a line as a number.\<close>

definition off_count :: "u32 \<Rightarrow> ('h, 'a) ikernel_scheme \<Rightarrow> nat option" where
  "off_count l k = map_option (\<lambda>L. unat (en_counter L)) (IntLineTable k l)"

lemma line_step_last [simp]: "int_last (line_step B null a k) = int_last k"
  by (simp add: line_step_def Int_SaveLine_def Int_RestoreLine_def Int_DisableLine_def Int_EnableLine_def Int_Register_def Int_UnRegister_def Let_def
      split: line_op.split)

lemma off_count_step:
  assumes "l \<le> int_last k" "off_count l k = Some c"
  shows "Suc c < 2 ^ 32 \<Longrightarrow> off_count l (line_step B null (Save l) k) = Some (Suc c)" "off_count l (line_step B null (Restore l) k) = Some (c - 1)"
proof -
  obtain L where L: "IntLineTable k l = Some L" "unat (en_counter L) = c" using assms(2) by (auto simp: off_count_def)
  show "off_count l (line_step B null (Save l) k) = Some (Suc c)" if c: "Suc c < 2 ^ 32"
  proof -
    have "en_counter L \<noteq> CN_LIMIT_UCPU" "unat (en_counter L + 1) = Suc c" using c L(2) by (auto simp: CN_LIMIT_UCPU_def unat_plus_if')
    then show ?thesis using L assms(1) by (auto simp: off_count_def line_step_def Int_SaveLine_def line_bad_def Let_def)
  qed
  have "unat (en_counter L - 1) = c - 1" if "en_counter L \<noteq> 0"
  proof -
    have "1 \<le> en_counter L" using that by (simp add: word_le_nat_alt Suc_le_eq unat_gt_0)
    then show ?thesis using L(2) by (simp add: unat_sub)
  qed
  then show "off_count l (line_step B null (Restore l) k) = Some (c - 1)"
    using L assms(1) by (auto simp: off_count_def line_step_def Int_RestoreLine_def line_bad_def Let_def)
qed

lemma off_count_run:
  assumes "l \<le> int_last k" "off_count l k = Some c" "c + n < 2 ^ 32"
  shows "off_count l (fold (line_step B null) (replicate n (Save l)) k) = Some (c + n)"
  using assms
proof (induction n arbitrary: k c)
  case (Suc n)
  then show ?case using off_count_step(1) [OF Suc.prems(1,2), of B null] Suc.IH [of "line_step B null (Save l) k" "Suc c"] by simp
qed simp

lemma off_count_run_back:
  assumes "l \<le> int_last k" "off_count l k = Some c"
  shows "off_count l (fold (line_step B null) (replicate n (Restore l)) k) = Some (c - n)"
  using assms
proof (induction n arbitrary: k c)
  case (Suc n)
  then show ?case using off_count_step(2) [OF Suc.prems(1,2), of B null] Suc.IH [of "line_step B null (Restore l) k" "c - 1"] by simp
qed simp

lemma fold_last [simp]: "int_last (fold (line_step B null) as k) = int_last k"
  by (induction as arbitrary: k) simp_all

lemma CheckLine_count: "l \<le> int_last k \<Longrightarrow> off_count l k = Some c \<Longrightarrow> Int_CheckLine l k \<longleftrightarrow> c = 0"
  by (auto simp: off_count_def Int_CheckLine_def line_bad_def unat_eq_0)

text \<open>C33. Whatever sequence of saves, restores, disables, enables, registrations, and removals of disabled lines is carried out, for each line the nesting counter,
  the enable bitmap and the interrupt controller agree.  A line that was saved \<open>n\<close> times is enabled again by exactly as many
  restores.  But the removal of an enabled line leaves its bit set and the line connected, and a new registration does not correct it.\<close>

theorem Int_lines_agree:
  assumes "switches on B" "lines_inv on k" "l \<le> int_last k" "off_count l k = Some c" "c + n < 2 ^ 32"
  shows "lines_inv on (fold (line_step B null) as k) \<and>
    (let k' = fold (line_step B null) (replicate n (Save l) @ replicate m (Restore l)) k
     in lines_inv on k' \<and> (Int_CheckLine l k' \<longleftrightarrow> c + n \<le> m) \<and> (on (hw k') l \<longleftrightarrow> c + n \<le> m)) \<and>
    (c = 0 \<longrightarrow> (let k' = fst (Int_Register null True l (fst (Int_UnRegister l k))) in \<not> Int_CheckLine l k' \<and> enabled_bit k' l \<and> on (hw k') l))"
proof -
  define k' where "k' = fold (line_step B null) (replicate n (Save l) @ replicate m (Restore l)) k"
  have k': "lines_inv on k'" unfolding k'_def by (rule lines_run_inv [OF assms(1,2)])
  have "off_count l k' = Some (c + n - m)"
    using off_count_run_back [of l "fold (line_step B null) (replicate n (Save l)) k" "c + n" B null m] off_count_run [OF assms(3-5), of B null] assms(3)
      fold_last [of B null "replicate n (Save l)" k]
    by (simp add: k'_def del: fold_replicate)
  moreover have last: "int_last k' = int_last k" unfolding k'_def by (rule fold_last)
  ultimately have ck: "Int_CheckLine l k' \<longleftrightarrow> c + n \<le> m" using CheckLine_count [of l k'] assms(3) by simp
  have on: "on (hw k') l = Int_CheckLine l k'" using k' assms(3) last by (simp add: lines_inv_def)
  have "\<not> Int_CheckLine l k2 \<and> enabled_bit k2 l \<and> on (hw k2) l" if "c = 0" "k2 = fst (Int_Register null True l (fst (Int_UnRegister l k)))" for k2
  proof -
    have "Int_CheckLine l k" using CheckLine_count [OF assms(3,4)] that(1) by simp
    then have "enabled_bit k l" "on (hw k) l" using assms(2,3) by (auto simp: lines_inv_def)
    moreover have "IntLineTable k l \<noteq> None" using assms(4) by (auto simp: off_count_def)
    ultimately show ?thesis using assms(3) that(2) by (auto simp: Int_UnRegister_def Int_Register_def Int_CheckLine_def enabled_bit_def)
  qed
  then show ?thesis using lines_run_inv [OF assms(1,2), of null as] k' ck on unfolding k'_def [symmetric] Let_def by blast
qed

text \<open>Lines 0 to 34 of a controller that remembers the connected lines; line 33 is registered and enabled.\<close>

definition sample_board :: "(u32 \<Rightarrow> bool) int_hard" where
  "sample_board = \<lparr>Int_CutLine = (\<lambda>l h. h(l := False)), Int_ContactLine = (\<lambda>l h. h(l := True)), Int_QueryLine = (\<lambda>l h. (False, h)), Int_ClearLine = (\<lambda>l h. h)\<rparr>"

definition sample_lines :: "(u32 \<Rightarrow> bool) ikernel" where
  "sample_lines = busy_kernel \<lparr>int_last = 34, IntLineTable = [33 \<mapsto> \<lparr>ISR = None, sync_event = None, en_counter = 0, int_type = 0, clear_type = 0,
     enable_nest = False, my_evtt_id = 0, line_prio = 0, para = 33\<rparr>], enable_bitmap = [0, 2], hw = (\<lambda>l. l = 33)\<rparr>"

theorem Int_lines_agree_witness:
  "lines_inv id (fold (line_step sample_board 0) [Save 33, Register 5, Enable 5, Save 5, Restore 33, UnRegister 5] sample_lines) \<and>
   Int_CheckLine 33 (fold (line_step sample_board 0) (replicate 3 (Save 33) @ replicate 3 (Restore 33)) sample_lines)"
proof -
  have s: "IntLineTable sample_lines = [33 \<mapsto> \<lparr>ISR = None, sync_event = None, en_counter = 0, int_type = 0, clear_type = 0,
      enable_nest = False, my_evtt_id = 0, line_prio = 0, para = 33\<rparr>]" "enable_bitmap sample_lines = [0, 2]" "int_last sample_lines = 34"
      "hw sample_lines = (\<lambda>l. l = 33)"
    by (simp_all add: sample_lines_def busy_kernel_def)
  have b: "enabled_bit sample_lines l \<longleftrightarrow> l = 33" if "l \<le> 34" for l
  proof -
    have "unat l \<le> 34" using that by (simp add: word_le_nat_alt)
    then consider "unat l div 32 = 0" | "unat l div 32 = 1" by fastforce
    then show ?thesis
    proof cases
      case 1
      then have "unat l \<noteq> 33" by linarith
      then have "l \<noteq> 33" by auto
      then show ?thesis using 1 by (simp add: enabled_bit_def s CN_CPU_BITS_def)
    next
      case 2
      have "bit (2 :: u32) m \<longleftrightarrow> m = 1" for m by (auto simp: bit_simps simp flip: power_one_right)
      moreover have "unat l mod 32 = 1 \<longleftrightarrow> unat l = 33" using 2 by presburger
      moreover have "unat l = 33 \<longleftrightarrow> l = 33" by (simp add: word_unat_eq_iff)
      moreover have "enabled_bit sample_lines l = bit (2 :: u32) (unat l mod 32)" using 2 by (simp add: enabled_bit_def s CN_CPU_BITS_def)
      ultimately show ?thesis by blast
    qed
  qed
  have "Int_CheckLine l sample_lines \<longleftrightarrow> l = 33" if "l \<le> 34" for l using that by (simp add: Int_CheckLine_def line_bad_def s)
  then have "lines_inv id sample_lines" using b by (simp add: lines_inv_def s CN_CPU_BITS_def)
  moreover have "switches id sample_board" by (simp add: switches_def sample_board_def)
  moreover have "(33 :: u32) \<le> int_last sample_lines" "off_count 33 sample_lines = Some 0" "0 + 3 < (2 :: nat) ^ 32" "0 + 3 \<le> (3 :: nat)" by (simp_all add: off_count_def s)
  ultimately show ?thesis
    using Int_lines_agree [of id sample_board sample_lines 33 0 3 0 "[Save 33, Register 5, Enable 5, Save 5, Restore 33, UnRegister 5]" 3]
    unfolding Let_def by blast
qed

end
