(* ===== verification/Djy_System.thy ===== *)
theory Djy_System
  imports Djy_Wake
begin

text \<open>
  The system as a state machine: threads that delay themselves and use semaphores, interrupted by the tick.  The handler of the tick is
  that of the Cortex-M (\<open>src/bsp/arch/arm/cortex-m/src/systick.c\<close>); its static variable \<open>s_gCurrentTicks\<close>, the number of ticks
  since the last interrupt, is an argument and a result.
  \<open>steady\<close> describes the states between two operations when all events have their threads; every operation returns there and leads to such a
  state again.
\<close>

definition Exp_SystickTickHandler :: "'a kernel_scheme stack_env \<Rightarrow> u32 \<Rightarrow> 'a kernel_scheme \<Rightarrow> ('a kernel_scheme \<times> u32) option" where
  "Exp_SystickTickHandler E s_gCurrentTicks k = do {
     let k = k\<lparr>ScheduleEnable := False\<rparr>;
     let k = k\<lparr>nest_asyn_signal := nest_asyn_signal k + 1\<rparr>;
     let inc = s_gCurrentTicks;
     let s_gCurrentTicks = 1;
     k \<leftarrow> DJY_ScheduleIsr inc k;
     let k = k\<lparr>nest_asyn_signal := nest_asyn_signal k - 1\<rparr>;
     k \<leftarrow> (if ptEventReady k \<noteq> ptEventRunning k then DJY_ScheduleAsynSignal E k else Some k);
     Some (k\<lparr>ScheduleEnable := True\<rparr>, s_gCurrentTicks) }"

text \<open>The system service event (\<open>idle\<close>) calls none of the services below.\<close>

inductive sys_step :: "'a lkernel_scheme stack_env \<Rightarrow> nat \<Rightarrow> 'a lkernel_scheme \<Rightarrow> 'a lkernel_scheme \<Rightarrow> bool"
  for E :: "'a lkernel_scheme stack_env" and idle :: nat where
  tick: "Exp_SystickTickHandler E inc k = Some (k', n) \<Longrightarrow> sys_step E idle k k'"
| delay: "ptEventRunning k \<noteq> idle \<Longrightarrow> us \<noteq> 0 \<Longrightarrow> DJY_EventDelay E us k = Some (k', r) \<Longrightarrow> sys_step E idle k k'"
| post: "ptEventRunning k \<noteq> idle \<Longrightarrow> Lock_SempPost E (Some s) k = Some k' \<Longrightarrow> sys_step E idle k k'"
| pend: "ptEventRunning k \<noteq> idle \<Longrightarrow> Lock_SempPend E (Some s) timeout k = Some (k', b) \<Longrightarrow> sys_step E idle k k'"

inductive_cases sys_stepE: "sys_step E idle k k'"

definition evs :: "nat list \<Rightarrow> nat list \<Rightarrow> (qhead \<Rightarrow> nat list) \<Rightarrow> nat set" where
  "evs R D S = set R \<union> set D \<union> (\<Union>h. set (S h))"

definition steady :: "'a lkernel_scheme \<Rightarrow> nat list \<Rightarrow> nat list \<Rightarrow> (qhead \<Rightarrow> nat list) \<Rightarrow> nat \<Rightarrow> bool" where
  "steady k R D S idle \<longleftrightarrow> kwf k R D S \<and> ptEventRunning k = hd R \<and> idle \<in> set R \<and>
     (\<forall>e\<in>evs R D S. fld vm k e \<noteq> None \<and> (e \<noteq> idle \<longrightarrow> pr k e < pr k idle)) \<and>
     nest_asyn_signal k = 0 \<and> en_asyn_signal_counter k = 0 \<and> DJY_QuerySch k \<and>
     (\<forall>s. lamps_limit (semps k s) \<noteq> -1 \<and> lamp_inv (lamps_limit (semps k s)) (lamp_counter (semps k s), S (SempSync s)))"

lemma steadyD:
  assumes "steady k R D S idle"
  shows "kwf k R D S" "kinv k R D S" "ptEventRunning k = hd R" "idle \<in> set R" "\<And>e. e \<in> evs R D S \<Longrightarrow> fld vm k e \<noteq> None"
    "\<And>e. e \<in> evs R D S \<Longrightarrow> e \<noteq> idle \<Longrightarrow> pr k e < pr k idle" "nest_asyn_signal k = 0" "en_asyn_signal_counter k = 0" "DJY_QuerySch k"
    "\<And>s. lamps_limit (semps k s) \<noteq> -1" "\<And>s. lamp_inv (lamps_limit (semps k s)) (lamp_counter (semps k s), S (SempSync s))"
    "ptEventReady k = hd R" "hd R \<in> set R"
  using assms ready_repD(1,2) [OF kinvD(1), of k R D S] unfolding steady_def kwf_def by auto

lemma steady_calling:
  assumes "steady k R D S idle" "ptEventRunning k \<noteq> idle"
  shows "calling k R D S idle"
proof -
  note S = steadyD [OF assms(1)]
  have "idle \<in> set (tl R)" using S(3,4) assms(2) by (cases R) auto
  then show ?thesis using S(2-5,7-9,13) by (auto simp: calling_def evs_def)
qed

lemma kept_kwf:
  assumes "kept k k'" "kwf k R D S"
  shows "kwf k' R D S"
  using assms kept_kinv [OF assms(1)] unfolding kwf_def by (simp add: kept_def)

text \<open>The end of an operation: the scheduler runs from a consistent state in which all events have threads.\<close>

lemma steady_resumed:
  assumes wf: "kwf k2 R2 D2 S2" and r: "resumed k2 R2 k' R' D2" "ptEventRunning k' = ptEventReady k'"
    and k2: "fld vm k2 = fld vm k" "pr k2 = pr k" "nest_asyn_signal k2 = 0"
    and e: "idle \<in> set R2" "evs R2 D2 S2 \<subseteq> A" "\<And>e. e \<in> A \<Longrightarrow> fld vm k e \<noteq> None \<and> (e \<noteq> idle \<longrightarrow> pr k e < pr k idle)"
    and l: "\<And>s. lamps_limit (semps k' s) \<noteq> -1 \<and> lamp_inv (lamps_limit (semps k' s)) (lamp_counter (semps k' s), S2 (SempSync s))"
  shows "steady k' R2 D2 S2 idle"
proof -
  note R = ready_repD [OF kinvD(1) [OF kwf_kinv [OF wf]]]
  have "hd R2 \<in> evs R2 D2 S2" using R(1) by (simp add: evs_def)
  then have "fld vm k2 (hd R2) \<noteq> None" using e k2(1) by auto
  then have k': "kept k2 k'" "en_asyn_signal_counter k' = 0" "DJY_QuerySch k'" using r(1) by (auto simp: resumed_def)
  then have "kwf k' R2 D2 S2" using kept_kwf wf by blast
  moreover have "ptEventRunning k' = hd R2" using k'(1) R(2) r(2) by (simp add: kept_def)
  moreover have "fld vm k' = fld vm k" "pr k' = pr k" "nest_asyn_signal k' = 0" using k'(1) k2 by (simp_all add: kept_def)
  ultimately show ?thesis using k'(2,3) e l by (auto simp: steady_def)
qed

section \<open>Every operation returns\<close>

lemma steady_delay:
  assumes s: "steady k R D S idle" and E: "stack_provider E" and run: "ptEventRunning k \<noteq> idle" "us \<noteq> 0"
  shows "\<exists>k' R' D'. DJY_EventDelay E us k = Some (k', Blocked) \<and> steady k' R' D' S idle \<and> evs R' D' S = evs R D S"
proof -
  note F = steadyD [OF s] and c = steady_calling [OF s run(1)]
  let ?R = "remove1 (hd R) R"
  obtain k2 k' R' t where d: "DJY_EventDelay E us k = Some (k', Blocked)" "kinv k2 ?R (walk_insert (\<lambda>x. det k x \<le> t) (hd R) D) S"
      "resumed k2 ?R k' R' (walk_insert (\<lambda>x. det k x \<le> t) (hd R) D)" "ptEventRunning k' = ptEventReady k'"
      "fld vm k2 = fld vm k" "pr k2 = pr k" "fld event_status k2 = (fld event_status k)(hd R := CN_STS_EVENT_DELAY)"
      "nest_asyn_signal k2 = 0" "kernel.more k2 = kernel.more k"
    using EventDelay_rep [OF c E run(2)] by blast
  let ?D = "walk_insert (\<lambda>x. det k x \<le> t) (hd R) D"
  have dR: "distinct R" using ready_repD(6) [OF kinvD(1) [OF F(2)]] .
  have ev: "evs ?R ?D S = evs R D S" using dR F(13) by (auto simp: evs_def)
  have "kwf k2 ?R ?D S" using F(1) d(2,7) dR callingD(15) [OF c] by (auto simp: kwf_def)
  moreover have "semps k' = semps k"
    using d(3,9) more_lkernel(1) [of k' k] by (simp add: resumed_def settled_def)
  ultimately have "steady k' ?R ?D S idle"
    using callingD(16) [OF c] F(5,6,10,11) ev by (intro steady_resumed [OF _ d(3,4,5,6,8), of S idle "evs R D S"]) auto
  then show ?thesis using d(1) ev by blast
qed

lemma move_event: "insert e D' = insert e D \<Longrightarrow> insert e U' = insert e U \<Longrightarrow> e \<in> U \<Longrightarrow> insert e R \<union> D' \<union> U' = R \<union> D \<union> U"
  by auto

lemma block_event:
  "e \<in> U' \<Longrightarrow> insert e U' = insert e U \<Longrightarrow> insert e R' = R \<Longrightarrow> D \<subseteq> D' \<Longrightarrow> D' \<subseteq> insert e D \<Longrightarrow> R' \<union> D' \<union> U' = R \<union> D \<union> U"
  by auto

lemma steady_post:
  assumes s: "steady k R D S idle" and E: "stack_provider E" and run: "ptEventRunning k \<noteq> idle"
  shows "\<exists>k' R' D' S'. Lock_SempPost E (Some s) k = Some k' \<and> steady k' R' D' S' idle \<and> evs R' D' S' = evs R D S"
proof -
  note F = steadyD [OF s(1)] and c = steady_calling [OF s(1) run]
  let ?h = "SempSync s" and ?l = "semps k s"
  obtain k2 k' R2 D2 R' Q where p: "Lock_SempPost E (Some s) k = Some k'" "kwf k2 R2 D2 (S(?h := Q))" "resumed k2 R2 k' R' D2"
      "ptEventRunning k' = ptEventReady k'" "(lamp_counter (semps k' s), Q) = asem_post (lamps_limit ?l) (lamp_counter ?l, S ?h)"
      "lamp_inv (lamps_limit (semps k' s)) (lamp_counter (semps k' s), Q)"
      "case S ?h of [] \<Rightarrow> R2 = R \<and> D2 = D
       | e # _ \<Rightarrow> R2 = walk_insert (\<lambda>x. pr k x \<le> pr k e) e R \<and> D2 = remove1 e D \<and> fld wakeup_from k2 e = CN_STS_WAIT_SEMP"
      "semps k' = (semps k)(s := ?l\<lparr>lamp_counter := fst (asem_post (lamps_limit ?l) (lamp_counter ?l, S ?h))\<rparr>)"
      "fld vm k2 = fld vm k" "pr k2 = pr k" "nest_asyn_signal k2 = 0"
    using SempPost_rep [OF c F(1) E F(11) [of s]] by blast
  have ev: "evs R2 D2 (S(?h := Q)) = evs R D S"
  proof (cases "S ?h")
    case Nil
    then have "S(?h := Q) = S" using p(5) by (auto simp: asem_post_def split: if_splits)
    then show ?thesis using p(7) Nil by simp
  next
    case (Cons e q)
    then have Q: "Q = q" using p(5) by (simp add: asem_post_def)
    have 1: "set R2 = insert e (set R)" "D2 = remove1 e D" using p(7) Cons by simp_all
    have "set D \<subseteq> insert e (set (remove1 e D))" by (metis in_set_remove1 insert_iff subsetI)
    then have "insert e (set D2) = insert e (set D)" using 1(2) set_remove1_subset [of e D] by blast
    moreover have "insert e (\<Union>h. set ((S(?h := Q)) h)) = insert e (\<Union>h. set (S h))"
    proof -
      have "insert e (set ((S(?h := Q)) h)) = insert e (set (S h))" for h using Cons Q by simp
      then show ?thesis by auto
    qed
    moreover have "e \<in> (\<Union>h. set (S h))" using Cons by (metis UN_iff UNIV_I list.set_intros(1))
    ultimately show ?thesis unfolding evs_def 1(1) by (rule move_event)
  qed
  have l: "lamps_limit (semps k' t) \<noteq> -1 \<and> lamp_inv (lamps_limit (semps k' t)) (lamp_counter (semps k' t), (S(?h := Q)) (SempSync t))" for t
    using F(10,11) p(6,8) by (cases "t = s") simp_all
  have "idle \<in> set R2" using F(4) p(7) by (cases "S ?h") auto
  then have "steady k' R2 D2 (S(?h := Q)) idle"
    using F(5,6) ev l by (intro steady_resumed [OF p(2-4,9-11), of idle "evs R D S"]) auto
  then show ?thesis using p(1) ev by blast
qed

lemma steady_data:
  assumes "steady k R D S idle" "\<And>t. lamps_limit (semps (upd_semp s f k) t) \<noteq> -1 \<and>
    lamp_inv (lamps_limit (semps (upd_semp s f k) t)) (lamp_counter (semps (upd_semp s f k) t), S (SempSync t))"
  shows "steady (upd_semp s f k) R D S idle"
proof -
  note F = steadyD [OF assms(1)]
  have "kinv (upd_semp s f k) R D S" by (rule kinv_cong [OF F(2)]) simp_all
  then show ?thesis using F assms(2) by (auto simp: steady_def kwf_def DJY_QuerySch_def upd_semp_def fld_def)
qed

lemma steady_pend:
  assumes s: "steady k R D S idle" and E: "stack_provider E" and run: "ptEventRunning k \<noteq> idle"
  shows "\<exists>k' r R' D' S'. Lock_SempPend E (Some s) timeout k = Some (k', r) \<and> steady k' R' D' S' idle \<and> evs R' D' S' = evs R D S"
proof -
  note F = steadyD [OF s(1)] and c = steady_calling [OF s(1) run]
  let ?h = "SempSync s" and ?l = "semps k s"
  consider (lamp) "lamp_counter ?l > 0" | (no) "\<not> lamp_counter ?l > 0" "timeout = 0" | (wait) "\<not> lamp_counter ?l > 0" "timeout \<noteq> 0" by auto
  then show ?thesis
  proof cases
    case lamp
    have "steady (upd_semp s (\<lambda>l. l\<lparr>lamp_counter := lamp_counter ?l - 1\<rparr>) k) R D S idle"
    proof (rule steady_data [OF s(1)])
      have "lamp_counter ?l - 1 \<le> lamps_limit ?l" using F(10,11) [of s] by (simp add: lamp_inv_def)
      then show "lamps_limit (semps (upd_semp s (\<lambda>l. l\<lparr>lamp_counter := lamp_counter ?l - 1\<rparr>) k) t) \<noteq> - 1 \<and>
        lamp_inv (lamps_limit (semps (upd_semp s (\<lambda>l. l\<lparr>lamp_counter := lamp_counter ?l - 1\<rparr>) k) t))
          (lamp_counter (semps (upd_semp s (\<lambda>l. l\<lparr>lamp_counter := lamp_counter ?l - 1\<rparr>) k) t), S (SempSync t))" for t
        using F(10,11) [of t] lamp by (auto simp: lamp_inv_def)
    qed
    then show ?thesis using SempPend_now(1) [OF c F(10) lamp, of E timeout] by blast
  next
    case no
    then show ?thesis using SempPend_now(2) [OF c F(10), of s E] s by auto
  next
    case wait
    let ?P = "block_order (sync_order ?l) (pr k) (hd R)" and ?R = "remove1 (hd R) R"
    let ?S = "S(?h := walk_insert ?P (hd R) (S ?h))"
    obtain k2 k' D2 R' where p: "Lock_SempPend E (Some s) timeout k = Some (k', Blocked)" "kwf k2 ?R D2 ?S" "resumed k2 ?R k' R' D2"
        "ptEventRunning k' = ptEventReady k'" "fld vm k2 = fld vm k" "pr k2 = pr k" "nest_asyn_signal k2 = 0" "semps k' = semps k"
        "set D \<subseteq> set D2" "set D2 \<subseteq> insert (hd R) (set D)"
      using SempPend_waits [OF c F(1) E, of s timeout] wait F(10) [of s] by blast
    have dR: "distinct R" using ready_repD(6) [OF kinvD(1) [OF F(2)]] .
    have "hd R \<in> (\<Union>h. set (?S h))" by (intro UN_I [of ?h]) simp_all
    moreover have "insert (hd R) (\<Union>h. set (?S h)) = insert (hd R) (\<Union>h. set (S h))" by (auto split: if_splits)
    moreover have "insert (hd R) (set ?R) = set R" using dR F(13) by auto
    ultimately have ev: "evs ?R D2 ?S = evs R D S" unfolding evs_def by (rule block_event [OF _ _ _ p(9,10)])
    have l: "lamps_limit (semps k' t) \<noteq> -1 \<and> lamp_inv (lamps_limit (semps k' t)) (lamp_counter (semps k' t), ?S (SempSync t))" for t
      using F(10,11) [of t] wait(1) p(8) by (auto simp: lamp_inv_def)
    have "steady k' ?R D2 ?S idle"
      using callingD(16) [OF c] F(5,6) ev l by (intro steady_resumed [OF p(2-7), of idle "evs R D S"]) auto
    then show ?thesis using p(1) ev by blast
  qed
qed

lemma insert_remove1: "e \<in> set xs \<Longrightarrow> insert e (set (remove1 e xs)) = set xs"
  by (induction xs) auto

text \<open>The interrupt itself, with the scheduler off.\<close>

lemma tick_queues:
  assumes s: "steady k R D S idle"
  defines "k0 \<equiv> k\<lparr>ScheduleEnable := False, nest_asyn_signal := 1\<rparr>"
  shows "\<exists>k1 R' D' S'. DJY_ScheduleIsr inc k0 = Some k1 \<and> kwf k1 R' D' S' \<and> tick_frame (k0\<lparr>OsTicks := OsTicks k0 + uint inc\<rparr>) k1 \<and> pr k1 = pr k \<and>
    evs R' D' S' = evs R D S \<and> idle \<in> set R' \<and> (\<forall>h. set (S' h) \<subseteq> set (S h))"
proof -
  note F = steadyD [OF s] and I = kinvD [OF steadyD(2) [OF s]]
  have k0: "pr k0 = pr k" "ptEventRunning k0 = hd R" "fld event_status k0 = fld event_status k" using F(3) by (simp_all add: k0_def)
  have inv0: "kinv k0 R D S" by (rule kinv_cong [OF F(2)]) (simp_all add: k0_def)
  have gh: "ptEventRunning k0 \<in> set (gheads (pr k0) R)" 
  proof -
    have "gheads (pr k) R \<noteq> []" using F(13) by auto
    from hd_in_set [OF this] show ?thesis by (simp add: k0)
  qed
  have idle: "pr k0 x < pr k0 idle" if "x \<in> set R \<union> set D" "x \<noteq> idle" for x using F(6) that by (auto simp: evs_def k0)
  define t where "t = OsTicks k0 + uint inc"
  define W where "W = takeWhile (\<lambda>e. det k0 e \<le> t) D"
  define D' where "D' = dropWhile (\<lambda>e. det k0 e \<le> t) D"
  define R1 where "R1 = enq_all (pr k0) W R"
  define R' where "R' = (if rotate_due t (RRS_Slice k0) (pr k0) (ptEventRunning k0) R1
     then enq_all (pr k0) [ptEventRunning k0] (remove1 (ptEventRunning k0) R1) else R1)"
  define S' where "S' = (\<lambda>h. fold remove1 W (S h))"
  obtain k1 where k1: "DJY_ScheduleIsr inc k0 = Some k1" "kinv k1 R' D' S'" "woken W k0 k1" "tick_frame (k0\<lparr>OsTicks := t\<rparr>) k1" "pr k1 = pr k0"
    using ScheduleIsr_rep [OF inv0 gh F(4) idle, of inc] unfolding t_def W_def D'_def R1_def R'_def S'_def by blast
  have D: "set D = set W \<union> set D'" "distinct D" using takeWhile_dropWhile_id [of "\<lambda>e. det k0 e \<le> t" D] delay_repD(5) [OF I(2)]
    by (metis W_def D'_def set_append, blast)
  have WD': "set W \<inter> set D' = {}" using D(2) takeWhile_dropWhile_id [of "\<lambda>e. det k0 e \<le> t" D] unfolding W_def D'_def by (metis distinct_append)
  have S': "set (S' h) = set (S h) - set W" for h
  proof -
    have "distinct (S h)" using I(3) [of h] by (auto simp: sync_rep_def cdll_def split: if_splits)
    then show ?thesis by (simp add: S'_def set_fold_remove1)
  qed
  have R1: "set R1 = set W \<union> set R" by (simp add: R1_def set_enq_all)
  have "insert (hd R) (set (remove1 (hd R) R1)) = set R1" by (rule insert_remove1) (use R1 F(13) in blast)
  then have R': "set R' = set W \<union> set R" using R1 by (simp add: R'_def set_enq_all k0)
  have ev: "evs R' D' S' = evs R D S" using D(1) S' R' by (auto simp: evs_def)
  have st: "fld event_status k1 e = (if e \<in> set W then CN_STS_EVENT_READY else fld event_status k e)" for e
    using k1(3) by (auto simp: woken_def k0 split: if_splits)
  have wf1: "kwf k1 R' D' S'"
  proof -
    have "fld event_status k1 e = CN_STS_EVENT_READY" if "e \<in> set R'" for e using that R' F(1) by (auto simp: st kwf_def)
    moreover have "fld event_status k1 e AND CN_STS_SYNC_TIMEOUT \<noteq> 0 \<longleftrightarrow> e \<in> set D'" if "e \<in> set (S' h)" for e h
    proof -
      have "e \<in> set (S h)" "e \<notin> set W" using that S' by auto
      moreover have "e \<in> set D \<longleftrightarrow> e \<in> set D'" using D(1) \<open>e \<notin> set W\<close> by blast
      ultimately show ?thesis using F(1) unfolding kwf_def st by simp
    qed
    ultimately show ?thesis using k1(2) unfolding kwf_def by blast
  qed
  show ?thesis using k1(1,4,5) wf1 ev R' F(4) S' unfolding t_def k0(1) by blast
qed

lemma steady_tick:
  assumes s: "steady k R D S idle"
  shows "\<exists>k' R' D' S'. Exp_SystickTickHandler E inc k = Some (k', 1) \<and> steady k' R' D' S' idle \<and> evs R' D' S' = evs R D S"
proof -
  note F = steadyD [OF s]
  obtain k1 R' D' S' where k1: "DJY_ScheduleIsr inc (k\<lparr>ScheduleEnable := False, nest_asyn_signal := 1\<rparr>) = Some k1" "kwf k1 R' D' S'"
      "tick_frame (k\<lparr>ScheduleEnable := False, nest_asyn_signal := 1, OsTicks := OsTicks k + uint inc\<rparr>) k1" "pr k1 = pr k"
      "evs R' D' S' = evs R D S" "idle \<in> set R'" "\<forall>h. set (S' h) \<subseteq> set (S h)"
    using tick_queues [OF s, of inc] by auto
  note T = tick_frameD [OF k1(3)] and ev = k1(5)
  let ?k2 = "k1\<lparr>nest_asyn_signal := 0\<rparr>"
  have hd: "ptEventReady k1 = hd R'" "hd R' \<in> evs R' D' S'" using ready_repD(1,2) [OF kinvD(1) [OF kwf_kinv [OF k1(2)]]] by (auto simp: evs_def)
  have vm2: "fld vm ?k2 = fld vm k" using T(1) by simp
  then have "fld vm ?k2 (ptEventReady ?k2) \<noteq> None" using hd ev F(5) by simp
  from ScheduleAsyn_keeps [OF this, of E]
  obtain k3 where k3: "(if ptEventReady ?k2 \<noteq> ptEventRunning ?k2 then DJY_ScheduleAsynSignal E ?k2 else Some ?k2) = Some k3" "kept ?k2 k3"
      "ptEventRunning k3 = ptEventReady ?k2" "en_asyn_signal_counter k3 = en_asyn_signal_counter ?k2"
    by (cases "ptEventReady ?k2 = ptEventRunning ?k2") (auto simp: kept_def)
  let ?k' = "k3\<lparr>ScheduleEnable := True\<rparr>"
  have K: "kept ?k2 ?k'" using k3(2) by (simp add: kept_def)
  have "kwf ?k2 R' D' S'" using k1(2) kinv_cong [of k1 R' D' S' ?k2] by (simp add: kwf_def)
  then have "kwf ?k' R' D' S'" by (rule kept_kwf [OF K])
  moreover have "semps ?k' = semps k" by (rule more_lkernel) (use K T(6) in \<open>simp add: kept_def\<close>)
  moreover have "lamp_inv l (c, S' h)" if "lamp_inv l (c, S h)" for l c h
    using that k1(7) [rule_format, of h] by (auto simp: lamp_inv_def)
  moreover have "fld vm ?k' = fld vm k" "pr ?k' = pr k" "nest_asyn_signal ?k' = 0" using K vm2 k1(4) by (simp_all add: kept_def)
  ultimately have "steady ?k' R' D' S' idle"
    using F(5,6,8,10,11) k3(3,4) hd(1) T(4) ev k1(6) unfolding steady_def by (simp add: DJY_QuerySch_def)
  moreover have "Exp_SystickTickHandler E inc k = Some (?k', 1)"
  proof -
    have "nest_asyn_signal k1 = 1" using T(3) by simp
    then have "k1\<lparr>nest_asyn_signal := nest_asyn_signal k1 - 1\<rparr> = ?k2" by simp
    then show ?thesis using k1(1) k3(1) F(7) unfolding Exp_SystickTickHandler_def Let_def by (auto split: if_splits)
  qed
  ultimately show ?thesis using ev by blast
qed

lemma sys_step_steady:
  assumes "sys_step E idle k k'" "stack_provider E" "steady k R D S idle"
  shows "\<exists>R' D' S'. steady k' R' D' S' idle \<and> evs R' D' S' = evs R D S"
  using assms(1)
proof cases
  case (tick inc n)
  then show ?thesis using steady_tick [OF assms(3), of E inc] by auto
next
  case (delay us r)
  then show ?thesis using steady_delay [OF assms(3,2), of us] by auto
next
  case (post s)
  then show ?thesis using steady_post [OF assms(3,2), of s] by auto
next
  case (pend s timeout b)
  then show ?thesis using steady_pend [OF assms(3,2), of s timeout] by auto
qed

lemma sys_steps_steady:
  assumes "(sys_step E idle)\<^sup>*\<^sup>* k k'" "stack_provider E" "steady k R D S idle"
  shows "\<exists>R' D' S'. steady k' R' D' S' idle \<and> evs R' D' S' = evs R D S"
  using assms(1)
proof (induction rule: rtranclp_induct)
  case (step y z)
  then show ?case using sys_step_steady [OF _ assms(2)] by metis
qed (use assms(3) in blast)

text \<open>C34. The running system.  From a state in which all events have threads, after any sequence of ticks, delays, and semaphore operations:
  all queues are consistent, no event is lost, the running event is a most urgent ready one, and every further operation returns, so that the system never stops.\<close>

theorem system_runs:
  assumes "stack_provider E" "steady k R D S idle" "(sys_step E idle)\<^sup>*\<^sup>* k k'"
  shows "\<exists>R' D' S'. kinv k' R' D' S' \<and> set R' \<union> set D' \<union> (\<Union>h. set (S' h)) = set R \<union> set D \<union> (\<Union>h. set (S h)) \<and>
    ptEventRunning k' = hd R' \<and> (\<forall>e\<in>set R'. pr k' (ptEventRunning k') \<le> pr k' e) \<and>
    Exp_SystickTickHandler E inc k' \<noteq> None \<and>
    (ptEventRunning k' \<noteq> idle \<longrightarrow> (us \<noteq> 0 \<longrightarrow> DJY_EventDelay E us k' \<noteq> None) \<and>
       Lock_SempPost E (Some s) k' \<noteq> None \<and> Lock_SempPend E (Some s) timeout k' \<noteq> None)"
proof -
  obtain R' D' S' where s: "steady k' R' D' S' idle" "evs R' D' S' = evs R D S" using sys_steps_steady [OF assms(3,1,2)] by blast
  note F = steadyD [OF s(1)]
  have "\<forall>e\<in>set R'. pr k' (ptEventRunning k') \<le> pr k' e"
    using rq.head_most_urgent [OF kinvD(1) [OF F(2)]] F(3) rq.rep_head [OF kinvD(1) [OF F(2)]] by auto
  moreover have "Exp_SystickTickHandler E inc k' \<noteq> None" using steady_tick [OF s(1), of E inc] by auto
  moreover have "DJY_EventDelay E us k' \<noteq> None" if "ptEventRunning k' \<noteq> idle" "us \<noteq> 0" using steady_delay [OF s(1) assms(1) that] by auto
  moreover have "Lock_SempPost E (Some s) k' \<noteq> None" "Lock_SempPend E (Some s) timeout k' \<noteq> None" if "ptEventRunning k' \<noteq> idle"
    using steady_post [OF s(1) assms(1) that, of s] steady_pend [OF s(1) assms(1) that, of s timeout] by auto
  ultimately show ?thesis using F(2,3) s(2) unfolding evs_def by blast
qed

text \<open>The busy state in which every event has a thread.\<close>

definition threaded_lock :: "lkernel" where
  "threaded_lock = busy_lock\<lparr>ecbs := \<lambda>e. (ecbs busy_lock e)\<lparr>vm := Some 4096\<rparr>\<rparr>"

lemma threaded_steady: "steady threaded_lock [1, 0] [2, 3] busy_syncs 0"
proof -
  let ?k = threaded_lock
  have f: "nx ?k = nx busy_lock" "pv ?k = pv busy_lock" "mnx ?k = mnx busy_lock" "mpv ?k = mpv busy_lock" "pr ?k = pr busy_lock"
    "det ?k = det busy_lock" "shd ?k = shd busy_lock" "fld event_status ?k = fld event_status busy_lock" "\<And>e. fld vm ?k e = Some 4096"
    by (simp_all add: threaded_lock_def fld_def)
  have g: "ptEventReady ?k = ptEventReady busy_lock" "ptEventDelay ?k = ptEventDelay busy_lock" "cells ?k = cells busy_lock"
    "semps ?k = semps busy_lock" by (simp_all add: threaded_lock_def)
  have "kinv ?k [1, 0] [2, 3] busy_syncs" by (rule kinv_cong [OF kwf_kinv [OF busy_lock_calling(2)]]) (simp_all add: f g)
  then have "kwf ?k [1, 0] [2, 3] busy_syncs" using busy_lock_calling(2) by (simp add: kwf_def f)
  moreover have "pr busy_lock e < pr busy_lock 0" if "e \<noteq> 0" for e
    using that by (auto simp: busy_lock_def busy_defs)
  moreover have "ptEventRunning ?k = 1" "nest_asyn_signal ?k = 0" "en_asyn_signal_counter ?k = 0" "DJY_QuerySch ?k"
    by (simp_all add: threaded_lock_def busy_lock_def busy_kernel_def DJY_QuerySch_def)
  ultimately show ?thesis by (simp add: steady_def f g lamp_inv_def)
qed

theorem system_runs_witness:
  "\<exists>k1 n. Exp_SystickTickHandler sample_env 6 threaded_lock = Some (k1, n) \<and> Exp_SystickTickHandler sample_env 1 k1 \<noteq> None \<and>
     (\<exists>R' D' S'. kinv k1 R' D' S' \<and> ptEventRunning k1 = hd R' \<and> set R' \<union> set D' \<union> (\<Union>h. set (S' h)) = set [1, 0] \<union> set [2, 3] \<union> (\<Union>h. set (busy_syncs h)))"
proof -
  note run = system_runs [OF sample_provider threaded_steady]
  have "Exp_SystickTickHandler sample_env 6 threaded_lock \<noteq> None" using run [where k' = threaded_lock and inc = 6] by blast
  then obtain k1 n where k1: "Exp_SystickTickHandler sample_env 6 threaded_lock = Some (k1, n)" by (metis option.exhaust surj_pair)
  then have "(sys_step sample_env 0)\<^sup>*\<^sup>* threaded_lock k1" by (blast intro: sys_step.tick)
  from run [OF this, where inc = 1 and us = 0 and s = 0 and timeout = 0] k1 show ?thesis
    by (elim exE conjE) (intro exI conjI, assumption+)
qed

end
