(* ===== verification/Djy_Utf8.thy ===== *)
theory Djy_Utf8
  imports Djy_Bytes
begin

text \<open>
  The UTF-8 codec of \<open>src/component/charset/utf8/utf8.c\<close>.  Texts are pieces of memory, so that reading or writing behind the end is the
  outcome \<^const>\<open>None\<close>; a null pointer is the argument \<^const>\<open>None\<close>.  Bytes are unsigned: where the source converts a \<open>char\<close> to
  \<open>u32\<close> it masks the bits a sign would fill.
\<close>

section \<open>The codec\<close>

definition byte_at :: "u8 list \<Rightarrow> nat \<Rightarrow> u8 option" where
  "byte_at m i = (if i < length m then Some (m ! i) else None)"

definition utf8_len :: "u8 \<Rightarrow> nat" where
  "utf8_len c =
     (if c = 0x00 then 0
      else if c < 0x80 then 1
      else if c < 0xc2 then 0
      else if c < 0xe0 then 2
      else if c < 0xf0 then 3
      else if c < 0xf8 then 4
      else if c < 0xfc then 5
      else if c < 0xfe then 6 else 7)"

text \<open>The inner switch: is the second byte wrong for the first one?\<close>

definition second_bad :: "u8 \<Rightarrow> u8 \<Rightarrow> bool" where
  "second_bad c a =
     (if c = 0xE0 then a < 0xA0
      else if c = 0xED then a > 0x9F
      else if c = 0xF0 then a < 0x90
      else if c = 0xF8 then a < 0x88
      else if c = 0xFC then a < 0x84
      else a < 0x80)"

text \<open>The outer switch enters at the case of the length and falls through to the cases below.\<close>

fun legal_case :: "u8 list \<Rightarrow> nat \<Rightarrow> bool option" where
  "legal_case src 0 = Some False"
| "legal_case src (Suc 0) = do {
     c \<leftarrow> byte_at src 0;
     Some (\<not> (c \<ge> 0x80 \<and> c < 0xC0)) }"
| "legal_case src (Suc (Suc 0)) = do {
     a \<leftarrow> byte_at src 1;
     if a > 0xBF then Some False
     else do {
       c \<leftarrow> byte_at src 0;
       if second_bad c a then Some False else legal_case src (Suc 0) } }"
| "legal_case src (Suc (Suc (Suc m))) =
     (if m > 3 then Some False
      else do {
        a \<leftarrow> byte_at src (Suc (Suc m));
        if a < 0x80 \<or> a > 0xBF then Some False else legal_case src (Suc (Suc m)) })"

definition UTF8_IsLegal :: "u8 list \<Rightarrow> int \<Rightarrow> int option" where
  "UTF8_IsLegal src len = do {
     c \<leftarrow> byte_at src 0;
     let length = utf8_len c;
     if int length > len \<and> len > 0 then Some (-1)
     else if length = 0 then Some 0
     else if length \<ge> 6 then Some (-1)
     else do {
       ok \<leftarrow> legal_case src length;
       if \<not> ok \<or> c > 0xFD then Some (-1) else Some (int length) } }"

definition UTF8_GetOneMb :: "u8 list option \<Rightarrow> int \<Rightarrow> int option" where
  "UTF8_GetOneMb mbs n = (case mbs of None \<Rightarrow> Some (-1)
     | Some m \<Rightarrow> do {
         c \<leftarrow> byte_at m 0;
         if c = 0 then Some 0 else UTF8_IsLegal m n })"

text \<open>The loop over the following bytes: \<open>len\<close> more, from offset \<open>i\<close>.\<close>

fun ucs4_loop :: "u8 list \<Rightarrow> nat \<Rightarrow> nat \<Rightarrow> u32 \<Rightarrow> u32 option" where
  "ucs4_loop m i 0 wc = Some wc"
| "ucs4_loop m i (Suc len) wc = do {
     b \<leftarrow> byte_at m i;
     ucs4_loop m (Suc i) len (push_bit 6 wc OR (ucast b AND 0x3f)) }"

text \<open>\<open>pwc\<close> is the variable for the character, \<^const>\<open>None\<close> for a null pointer.\<close>

definition UTF8_MbToUcs4 :: "u32 option \<Rightarrow> u8 list option \<Rightarrow> int \<Rightarrow> (u32 option \<times> int) option" where
  "UTF8_MbToUcs4 pwc mbs n = (case mbs of None \<Rightarrow> Some (pwc, -1)
     | Some m \<Rightarrow> do {
         count \<leftarrow> UTF8_IsLegal m n;
         if count = -1 then Some (pwc, -1)
         else do {
           c \<leftarrow> byte_at m 0;
           wc \<leftarrow> (if count = 1 then Some (ucast c)
                 else ucs4_loop m 1 (nat count - 1) (ucast c AND (push_bit (8 - nat count - 1) 1 - 1)));
           Some (map_option (\<lambda>_. wc) pwc, count) } })"

definition wc_count :: "u32 \<Rightarrow> nat option" where
  "wc_count wc =
     (if wc < 0x00000080 then Some 1
      else if wc < 0x00000800 then Some 2
      else if wc < 0x00010000 then Some 3
      else if wc < 0x00200000 then Some 4
      else if wc < 0x04000000 then Some 5
      else if wc < 0x80000000 then Some 6
      else None)"

definition lead_bits :: "nat \<Rightarrow> u32" where
  "lead_bits n = (if n = 6 then 0x4000000 else if n = 5 then 0x200000 else if n = 4 then 0x10000 else if n = 3 then 0x800 else 0xc0)"

text \<open>The switch over the number of bytes, which falls through from the last byte to the first.\<close>

fun put_case :: "nat \<Rightarrow> u32 \<Rightarrow> u8 list \<Rightarrow> u8 list option" where
  "put_case 0 wc mbs = Some mbs"
| "put_case (Suc 0) wc mbs = mem_write mbs 0 [ucast wc]"
| "put_case (Suc (Suc n)) wc mbs = do {
     mbs \<leftarrow> mem_write mbs (Suc n) [ucast (0x80 OR (wc AND 0x3f))];
     put_case (Suc n) (drop_bit 6 wc OR lead_bits (Suc (Suc n))) mbs }"

definition UTF8_Ucs4ToMb :: "u8 list \<Rightarrow> u32 \<Rightarrow> (u8 list \<times> int) option" where
  "UTF8_Ucs4ToMb mbs wc = (case wc_count wc of None \<Rightarrow> Some (mbs, -1)
     | Some count \<Rightarrow> do {
         mbs \<leftarrow> put_case count wc mbs;
         Some (mbs, int count) })"

text \<open>The two functions for strings are empty.\<close>

definition UTF8_MbsToUcs4s :: "u32 list \<Rightarrow> u8 list \<Rightarrow> int \<Rightarrow> u32 list \<times> int" where
  "UTF8_MbsToUcs4s pwcs mbs n = (pwcs, 0)"

definition UTF8_Ucs4sToMbs :: "u8 list \<Rightarrow> u32 list \<Rightarrow> int \<Rightarrow> u8 list \<times> int" where
  "UTF8_Ucs4sToMbs mbs pwcs n = (mbs, 0)"

section \<open>Numbers\<close>

lemma or_low: "unat (x :: u32) < 2 ^ n \<Longrightarrow> 2 ^ n dvd unat y \<Longrightarrow> unat (x OR y) = unat x + unat y"
proof -
  assume *: "unat x < 2 ^ n" "2 ^ n dvd unat y"
  have "unat x AND unat y = 0"
  proof (rule bit_eqI)
    fix i
    show "bit (unat x AND unat y) i = bit (0::nat) i"
    proof (cases "i < n")
      case True
      obtain z where "unat y = 2 ^ n * z" using *(2) by (auto elim: dvdE)
      then have "unat y = push_bit n z" by (simp add: push_bit_eq_mult)
      then have "\<not> bit (unat y) i" using True by (simp add: bit_push_bit_iff)
      then show ?thesis by (simp add: bit_and_iff)
    next
      case False
      have "unat x < 2 ^ i" using *(1) False by (meson less_le_trans linorder_not_less one_le_numeral power_increasing)
      then have "\<not> bit (unat x) i" by (simp add: bit_iff_odd)
      then show ?thesis by (simp add: bit_and_iff)
    qed
  qed
  then have "unat x OR unat y = unat x + unat y" by (simp add: disjunctive_add_eq_or)
  then show ?thesis by (simp add: unsigned_or_eq)
qed

lemma six_bits: "unat (x AND 0x3f :: u32) = unat x mod 64"
proof -
  have "(0x3f :: u32) = mask 6" by (simp add: mask_eq_exp_minus_1)
  then have "x AND 0x3f = take_bit 6 x" by (metis take_bit_eq_mask)
  then show ?thesis by (simp add: take_bit_eq_mod unat_mod_distrib)
qed

lemma byte_less [simp]: "unat (b::u8) < 256"
  using unsigned_less [of b, where ?'a = nat] by simp

lemma byte_up [simp]: "unat (ucast (b::u8) :: u32) = unat b"
proof -
  have "unat b < 2 ^ 32" by (rule less_trans [OF byte_less]) simp
  then show ?thesis by (simp add: unsigned_ucast_eq take_bit_eq_mod)
qed

lemma byte_val: "n < 256 \<Longrightarrow> unat (word_of_nat n :: u8) = n"
  by (simp add: unsigned_of_nat take_bit_eq_mod)

lemma byte_eqI: "unat (b :: u8) = n \<Longrightarrow> b = word_of_nat n"
  by auto

lemma put_byte_val: "unat (ucast (0x80 OR (wc AND 0x3f) :: u32) :: u8) = 128 + unat wc mod 64"
proof -
  have "unat ((wc AND 0x3f) OR 0x80 :: u32) = unat wc mod 64 + 128"
    using or_low [of "wc AND 0x3f" 6 "0x80"] six_bits [of wc] by simp
  then have "unat (0x80 OR (wc AND 0x3f) :: u32) = 128 + unat wc mod 64" by (simp add: or.commute)
  moreover have "128 + unat wc mod 64 < (256::nat)" by simp
  ultimately show ?thesis by (simp add: unsigned_ucast_eq take_bit_eq_mod)
qed

lemma get_bits_val:
  assumes "unat wc < 2 ^ 26"
  shows "unat (push_bit 6 wc OR (ucast (b::u8) AND 0x3f) :: u32) = 64 * unat wc + unat b mod 64"
proof -
  have "unat (push_bit 6 wc) = 64 * unat wc" using assms unat_word_ariths(2) [of wc "64::u32"] by (simp add: push_bit_eq_mult)
  moreover have "unat (ucast b AND 0x3f :: u32) = unat b mod 64" by (simp add: six_bits)
  moreover have "2 ^ 6 dvd unat (push_bit 6 wc)" using calculation(1) by simp
  ultimately show ?thesis using or_low [of "ucast b AND 0x3f" 6 "push_bit 6 wc"] by (simp add: or.commute)
qed

section \<open>The encoded bytes\<close>

text \<open>The bytes that follow the first one, and the marks of the first byte of an encoding with \<open>n\<close> following bytes.\<close>

fun trail_bytes :: "nat \<Rightarrow> nat \<Rightarrow> nat list" where
  "trail_bytes 0 w = []"
| "trail_bytes (Suc n) w = trail_bytes n (w div 64) @ [128 + w mod 64]"

fun first_mark :: "nat \<Rightarrow> nat" where
  "first_mark 0 = 0"
| "first_mark (Suc n) = first_mark n + unat (lead_bits (Suc (Suc n))) div 64 ^ n"

lemma trail_length [simp]: "length (trail_bytes n w) = n"
  by (induction n w rule: trail_bytes.induct) simp_all

lemma trail_high: "trail_bytes n (w + 64 ^ n * c) = trail_bytes n w"
proof (induction n w arbitrary: c rule: trail_bytes.induct)
  case (2 n w)
  have "(w + 64 ^ Suc n * c) div 64 = w div 64 + 64 ^ n * c" "(w + 64 ^ Suc n * c) mod 64 = w mod 64"
    by (simp_all add: mult.assoc)
  then show ?case using 2 by simp
qed simp

lemma lead_bits_val:
  assumes "n \<le> 4"
  shows "2 ^ (5 * n + 6) dvd unat (lead_bits (Suc (Suc n)))" "unat (lead_bits (Suc (Suc n))) < 2 ^ (5 * n + 8)"
    "64 ^ n dvd unat (lead_bits (Suc (Suc n)))" "0 < n \<Longrightarrow> unat (lead_bits (Suc (Suc n))) = 2 ^ (5 * n + 6)"
proof -
  have "n = 0 \<or> n = 1 \<or> n = 2 \<or> n = 3 \<or> n = 4" using assms by linarith
  then show "2 ^ (5 * n + 6) dvd unat (lead_bits (Suc (Suc n)))" "unat (lead_bits (Suc (Suc n))) < 2 ^ (5 * n + 8)"
    "64 ^ n dvd unat (lead_bits (Suc (Suc n)))" "0 < n \<Longrightarrow> unat (lead_bits (Suc (Suc n))) = 2 ^ (5 * n + 6)"
    by (auto simp: lead_bits_def)
qed

lemma put_case_bytes:
  assumes "n \<le> 5" "0 < n \<Longrightarrow> unat x < 2 ^ (5 * n + 7)" "n < length mbs"
  shows "put_case (Suc n) x mbs = Some (map word_of_nat ((unat x div 64 ^ n + first_mark n) # trail_bytes n (unat x)) @ drop (Suc n) mbs)"
  using assms
proof (induction n arbitrary: x mbs)
  case 0
  then show ?case by (cases mbs) (simp_all add: mem_write_def)
next
  case (Suc n)
  note L = lead_bits_val [of n]
  let ?x = "drop_bit 6 x OR lead_bits (Suc (Suc n))" and ?b = "ucast (0x80 OR (x AND 0x3f)) :: u8"
  have d: "unat (drop_bit 6 x) = unat x div 64" by (simp add: drop_bit_eq_div unat_div_distrib)
  have "unat x div 64 < 2 ^ (5 * n + 6)" using Suc.prems(2) by (simp add: less_mult_imp_div_less power_add)
  then have x: "unat ?x = unat x div 64 + unat (lead_bits (Suc (Suc n)))" using or_low [of "drop_bit 6 x" "5 * n + 6"] d L(1) Suc.prems(1) by simp
  obtain c where c: "unat (lead_bits (Suc (Suc n))) = 64 ^ n * c" using L(3) Suc.prems(1) by (auto elim: dvdE)
  have b: "?b = word_of_nat (128 + unat x mod 64)" by (rule byte_eqI) (rule put_byte_val)
  let ?m = "take (Suc n) mbs @ [?b] @ drop (Suc n + 1) mbs"
  have m: "mem_write mbs (Suc n) [?b] = Some ?m" using Suc.prems(3) by (simp add: mem_write_def)
  have "unat ?x < 2 ^ (5 * n + 7)" if "0 < n"
    using \<open>unat x div 64 < 2 ^ (5 * n + 6)\<close> L(4) that Suc.prems(1) unfolding x by (simp add: power_add)
  then have "put_case (Suc n) ?x ?m = Some (map word_of_nat ((unat ?x div 64 ^ n + first_mark n) # trail_bytes n (unat ?x)) @ drop (Suc n) ?m)"
    using Suc.prems by (intro Suc.IH) auto
  moreover have "unat ?x div 64 ^ n = unat x div 64 ^ Suc n + c"  "trail_bytes n (unat ?x) = trail_bytes n (unat x div 64)"
    unfolding x c using trail_high by (simp_all add: div_mult2_eq)
  ultimately show ?case using m c b Suc.prems(3) by (simp add: add.assoc)
qed

section \<open>Decoding\<close>

text \<open>The value of following bytes.\<close>

fun trail_val :: "nat \<Rightarrow> u8 list \<Rightarrow> nat" where
  "trail_val v [] = v"
| "trail_val v (b # bs) = trail_val (64 * v + unat b mod 64) bs"

lemma trail_val_append [simp]: "trail_val v (xs @ ys) = trail_val (trail_val v xs) ys"
  by (induction v xs rule: trail_val.induct) simp_all

lemma ucs4_loop_val:
  assumes "i + n \<le> length m" "unat wc < 2 ^ (32 - 6 * n)" "n \<le> 4"
  shows "ucs4_loop m i n wc = Some (word_of_nat (trail_val (unat wc) (take n (drop i m))))"
  using assms
proof (induction n arbitrary: i wc)
  case (Suc n)
  let ?w = "push_bit 6 wc OR (ucast (m ! i) AND 0x3f)"
  have "(2::nat) ^ (32 - 6 * Suc n) \<le> 2 ^ 26" by (rule power_increasing) simp_all
  then have b: "unat wc < 2 ^ 26" using Suc.prems(2) by linarith
  have e: "(2::nat) ^ (32 - 6 * n) = 64 * 2 ^ (32 - 6 * Suc n)"
  proof -
    have "32 - 6 * n = 6 + (32 - 6 * Suc n)" using Suc.prems(3) by simp
    then show ?thesis by (simp only: power_add) simp
  qed
  have w: "unat ?w = 64 * unat wc + unat (m ! i) mod 64" by (rule get_bits_val [OF b])
  have "unat (m ! i) mod 64 < 64" by simp
  then have "unat ?w < 2 ^ (32 - 6 * n)" using Suc.prems(2) w e by linarith
  moreover have "take (Suc n) (drop i m) = m ! i # take n (drop (Suc i) m)" using Suc.prems(1) by (simp add: Cons_nth_drop_Suc [symmetric])
  ultimately show ?case using Suc.IH [of "Suc i" ?w] Suc.prems w by (simp add: byte_at_def)
qed simp

lemma trail_bytes_val:
  "trail_val v (map word_of_nat (trail_bytes n w)) = v * 64 ^ n + w mod 64 ^ n"
proof (induction n w rule: trail_bytes.induct)
  case (2 n w)
  have "unat (word_of_nat (128 + w mod 64) :: u8) = 128 + w mod 64" by (rule byte_val) simp
  moreover have "(2 * 64 + w mod 64) mod 64 = w mod 64" by (simp only: mod_mult_self3 mod_mod_trivial)
  ultimately have "unat (word_of_nat (128 + w mod 64) :: u8) mod 64 = w mod 64" by simp
  moreover have "w mod 64 ^ Suc n = 64 * (w div 64 mod 64 ^ n) + w mod 64" by (simp add: mod_mult2_eq)
  ultimately show ?case using 2 by (simp add: algebra_simps)
qed simp

section \<open>Legal sequences\<close>

text \<open>The table of legal sequences at the head of the source file, as ranges of the bytes.\<close>

definition utf8_table :: "(nat \<times> nat) list list" where
  "utf8_table = (let t = (0x80, 0xBF) in
     [[(0x00, 0x7F)],
      [(0xC2, 0xDF), t],
      [(0xE0, 0xE0), (0xA0, 0xBF), t],
      [(0xE1, 0xEC), t, t],
      [(0xED, 0xED), (0x80, 0x9F), t],
      [(0xEE, 0xEF), t, t],
      [(0xF0, 0xF0), (0x90, 0xBF), t, t],
      [(0xF1, 0xF7), t, t, t],
      [(0xF8, 0xF8), (0x88, 0xBF), t, t, t],
      [(0xF9, 0xFB), t, t, t, t],
      [(0xFC, 0xFC), (0x84, 0xBF), t, t, t, t],
      [(0xFD, 0xFD), t, t, t, t, t]])"

definition legal_seq :: "nat list \<Rightarrow> bool" where
  "legal_seq bs \<longleftrightarrow> (\<exists>row\<in>set utf8_table. list_all2 (\<lambda>(l, h) b. l \<le> b \<and> b \<le> h) row bs)"

lemmas byte_nat = word_less_nat_alt word_le_nat_alt word_unat_eq_iff

lemma utf8_len_nat:
  "utf8_len c = (let v = unat c in if v = 0 then 0 else if v < 128 then 1 else if v < 194 then 0 else if v < 224 then 2
     else if v < 240 then 3 else if v < 248 then 4 else if v < 252 then 5 else if v < 254 then 6 else 7)"
  by (simp add: utf8_len_def byte_nat Let_def)

lemma second_bad_nat:
  "second_bad c a = (let v = unat c; b = unat a in if v = 224 then b < 160 else if v = 237 then b > 159 else if v = 240 then b < 144
     else if v = 248 then b < 136 else if v = 252 then b < 132 else b < 128)"
  by (simp add: second_bad_def byte_nat Let_def)

lemma legal_case_iff:
  assumes "2 \<le> k" "k \<le> length src" "k \<le> 6"
  shows "legal_case src k = Some ((\<forall>i\<in>{2..<k}. 128 \<le> unat (src ! i) \<and> unat (src ! i) \<le> 191) \<and>
    unat (src ! 1) \<le> 191 \<and> \<not> second_bad (src ! 0) (src ! 1) \<and> \<not> (128 \<le> unat (src ! 0) \<and> unat (src ! 0) < 192))"
  using assms
proof (induction k rule: dec_induct)
  case base
  then have "legal_case src (Suc (Suc 0)) = Some (unat (src ! 1) \<le> 191 \<and> \<not> second_bad (src ! 0) (src ! 1) \<and> \<not> (128 \<le> unat (src ! 0) \<and> unat (src ! 0) < 192))"
    by (cases src) (auto simp: byte_at_def byte_nat not_le Suc_le_length_iff)
  then show ?case by (simp add: numeral_2_eq_2)
next
  case (step k)
  have e: "{2..<Suc k} = insert k {2..<k}" using step.hyps by auto
  obtain m where m: "k = Suc (Suc m)" using le_Suc_ex [OF step.hyps(1)] by auto
  have "legal_case src (Suc k) = (if 128 \<le> unat (src ! k) \<and> unat (src ! k) \<le> 191 then legal_case src k else Some False)"
    using step.prems m by (simp add: byte_at_def byte_nat not_le not_less)
  then show ?case using step.IH step.prems unfolding e by auto
qed

lemma legal_seq_simps:
  "legal_seq [a] \<longleftrightarrow> a \<le> 127"
  "legal_seq [a, b] \<longleftrightarrow> 194 \<le> a \<and> a \<le> 223 \<and> 128 \<le> b \<and> b \<le> 191"
  "legal_seq [a, b, c] \<longleftrightarrow> 224 \<le> a \<and> a \<le> 239 \<and> 128 \<le> b \<and> b \<le> 191 \<and> (a = 224 \<longrightarrow> 160 \<le> b) \<and> (a = 237 \<longrightarrow> b \<le> 159) \<and> 128 \<le> c \<and> c \<le> 191"
  "legal_seq [a, b, c, d] \<longleftrightarrow> 240 \<le> a \<and> a \<le> 247 \<and> 128 \<le> b \<and> b \<le> 191 \<and> (a = 240 \<longrightarrow> 144 \<le> b) \<and>
     128 \<le> c \<and> c \<le> 191 \<and> 128 \<le> d \<and> d \<le> 191"
  "legal_seq [a, b, c, d, e] \<longleftrightarrow> 248 \<le> a \<and> a \<le> 251 \<and> 128 \<le> b \<and> b \<le> 191 \<and> (a = 248 \<longrightarrow> 136 \<le> b) \<and>
     128 \<le> c \<and> c \<le> 191 \<and> 128 \<le> d \<and> d \<le> 191 \<and> 128 \<le> e \<and> e \<le> 191"
proof -
  show "legal_seq [a] \<longleftrightarrow> a \<le> 127" by (simp add: legal_seq_def utf8_table_def Let_def)
  show "legal_seq [a, b] \<longleftrightarrow> 194 \<le> a \<and> a \<le> 223 \<and> 128 \<le> b \<and> b \<le> 191" by (simp add: legal_seq_def utf8_table_def Let_def)
  show "legal_seq [a, b, c] \<longleftrightarrow> 224 \<le> a \<and> a \<le> 239 \<and> 128 \<le> b \<and> b \<le> 191 \<and> (a = 224 \<longrightarrow> 160 \<le> b) \<and> (a = 237 \<longrightarrow> b \<le> 159) \<and> 128 \<le> c \<and> c \<le> 191"
    by (simp add: legal_seq_def utf8_table_def Let_def) arith
  show "legal_seq [a, b, c, d] \<longleftrightarrow> 240 \<le> a \<and> a \<le> 247 \<and> 128 \<le> b \<and> b \<le> 191 \<and> (a = 240 \<longrightarrow> 144 \<le> b) \<and>
     128 \<le> c \<and> c \<le> 191 \<and> 128 \<le> d \<and> d \<le> 191"
    by (simp add: legal_seq_def utf8_table_def Let_def) arith
  show "legal_seq [a, b, c, d, e] \<longleftrightarrow> 248 \<le> a \<and> a \<le> 251 \<and> 128 \<le> b \<and> b \<le> 191 \<and> (a = 248 \<longrightarrow> 136 \<le> b) \<and>
     128 \<le> c \<and> c \<le> 191 \<and> 128 \<le> d \<and> d \<le> 191 \<and> 128 \<le> e \<and> e \<le> 191"
    by (simp add: legal_seq_def utf8_table_def Let_def) arith
qed

lemma first_ranges:
  "utf8_len c = 1 \<Longrightarrow> 1 \<le> unat c \<and> unat c \<le> 127" "utf8_len c = 2 \<Longrightarrow> 194 \<le> unat c \<and> unat c \<le> 223"
  "utf8_len c = 3 \<Longrightarrow> 224 \<le> unat c \<and> unat c \<le> 239" "utf8_len c = 4 \<Longrightarrow> 240 \<le> unat c \<and> unat c \<le> 247"
  "utf8_len c = 5 \<Longrightarrow> 248 \<le> unat c \<and> unat c \<le> 251"
  by (simp_all add: utf8_len_nat Let_def split: if_splits)

lemma Ball_below:
  "(\<forall>i\<in>{2..<2::nat}. P i) \<longleftrightarrow> True" "(\<forall>i\<in>{2..<3::nat}. P i) \<longleftrightarrow> P 2" "(\<forall>i\<in>{2..<4::nat}. P i) \<longleftrightarrow> P 2 \<and> P 3"
  "(\<forall>i\<in>{2..<5::nat}. P i) \<longleftrightarrow> P 2 \<and> P 3 \<and> P 4"
proof -
  have "{2..<3} = {2::nat}" "{2..<4} = {2, 3::nat}" "{2..<5} = {2, 3, 4::nat}" by auto
  then show "(\<forall>i\<in>{2..<2::nat}. P i) \<longleftrightarrow> True" "(\<forall>i\<in>{2..<3::nat}. P i) \<longleftrightarrow> P 2" "(\<forall>i\<in>{2..<4::nat}. P i) \<longleftrightarrow> P 2 \<and> P 3"
    "(\<forall>i\<in>{2..<5::nat}. P i) \<longleftrightarrow> P 2 \<and> P 3 \<and> P 4" by simp_all
qed

lemma take_nths:
  "1 \<le> length xs \<Longrightarrow> take 1 xs = [xs ! 0]" "2 \<le> length xs \<Longrightarrow> take 2 xs = [xs ! 0, xs ! 1]"
  "3 \<le> length xs \<Longrightarrow> take 3 xs = [xs ! 0, xs ! 1, xs ! 2]" "4 \<le> length xs \<Longrightarrow> take 4 xs = [xs ! 0, xs ! 1, xs ! 2, xs ! 3]"
  "5 \<le> length xs \<Longrightarrow> take 5 xs = [xs ! 0, xs ! 1, xs ! 2, xs ! 3, xs ! 4]"
proof -
  have "take k xs = map ((!) xs) [0..<k]" if "k \<le> length xs" for k by (rule nth_equalityI) (use that in simp_all)
  moreover have "[0..<1] = [0]" "[0..<2] = [0, 1]" "[0..<3] = [0, 1, 2]" "[0..<4] = [0, 1, 2, 3]" "[0..<5] = [0, 1, 2, 3, 4]"
    by (simp_all add: upt_rec)
  ultimately show "1 \<le> length xs \<Longrightarrow> take 1 xs = [xs ! 0]" "2 \<le> length xs \<Longrightarrow> take 2 xs = [xs ! 0, xs ! 1]"
    "3 \<le> length xs \<Longrightarrow> take 3 xs = [xs ! 0, xs ! 1, xs ! 2]" "4 \<le> length xs \<Longrightarrow> take 4 xs = [xs ! 0, xs ! 1, xs ! 2, xs ! 3]"
    "5 \<le> length xs \<Longrightarrow> take 5 xs = [xs ! 0, xs ! 1, xs ! 2, xs ! 3, xs ! 4]" by (simp_all only: list.map)
qed

lemma legal_case_table:
  assumes "utf8_len (src ! 0) = k" "k \<le> length src" "k \<noteq> 0" "k \<le> 5"
  shows "legal_case src k = Some (legal_seq (map unat (take k src)) \<or>
    unat (src ! 0) = 237 \<and> unat (src ! 1) < 128 \<and> 128 \<le> unat (src ! 2) \<and> unat (src ! 2) \<le> 191)"
proof -
  let ?a = "unat (src ! 0)" and ?b = "unat (src ! 1)"
  note defs = Ball_below take_nths legal_seq_simps second_bad_nat Let_def list.map
  consider "k = 1" | "k = 2" | "k = 3" | "k = 4" | "k = 5" using assms by linarith
  then show ?thesis
  proof cases
    case 1
    then show ?thesis using assms(2) first_ranges(1) [of "src ! 0"] assms(1)
      by (cases src) (auto simp: byte_at_def byte_nat legal_seq_simps)
  next
    case 2
    then show ?thesis using assms(1,2) legal_case_iff [of 2 src] first_ranges(2) [of "src ! 0"] by (auto simp: defs)
  next
    case 3
    then show ?thesis using assms(1,2) legal_case_iff [of 3 src] first_ranges(3) [of "src ! 0"] by (auto simp: defs)
  next
    case 4
    then show ?thesis using assms(1,2) legal_case_iff [of 4 src] first_ranges(4) [of "src ! 0"] by (auto simp: defs)
  next
    case 5
    then show ?thesis using assms(1,2) legal_case_iff [of 5 src] first_ranges(5) [of "src ! 0"] by (auto simp: defs)
  qed
qed

text \<open>What the check accepts as one character: the legal sequences of at most five bytes, and those that begin with \<open>ED\<close> although the
  second byte is too small.\<close>

definition ed_hole :: "nat list \<Rightarrow> bool" where
  "ed_hole bs \<longleftrightarrow> (\<exists>b c. bs = [237, b, c] \<and> b < 128 \<and> 128 \<le> c \<and> c \<le> 191)"

definition accepted :: "nat list \<Rightarrow> bool" where
  "accepted bs \<longleftrightarrow> length bs \<le> 5 \<and> (legal_seq bs \<or> ed_hole bs)"

lemma legal_seq_len: "legal_seq (unat c # bs) \<Longrightarrow> c \<noteq> 0 \<Longrightarrow> utf8_len c = Suc (length bs)"
  by (auto simp: legal_seq_def utf8_table_def Let_def list_all2_Cons1 utf8_len_nat unat_eq_0)

lemma IsLegal_cases:
  assumes "src \<noteq> []" "k = utf8_len (src ! 0)" "k \<le> length src"
  shows "UTF8_IsLegal src n = Some (if int k > n \<and> n > 0 then -1 else if k = 0 then 0
     else if accepted (map unat (take k src)) then int k else -1)"
proof (cases "k = 0 \<or> k \<ge> 6")
  case True
  then show ?thesis using assms by (auto simp: UTF8_IsLegal_def byte_at_def Let_def accepted_def)
next
  case False
  then have k: "k \<noteq> 0" "k \<le> 5" by auto
  have "unat (src ! 0) \<le> 251"
    using first_ranges [of "src ! 0"] k assms(2) by (cases "k = 1 \<or> k = 2 \<or> k = 3 \<or> k = 4 \<or> k = 5") auto
  then have "\<not> src ! 0 > 0xFD" by (simp add: byte_nat)
  moreover have "unat (src ! 0) = 237 \<and> unat (src ! 1) < 128 \<and> 128 \<le> unat (src ! 2) \<and> unat (src ! 2) \<le> 191 \<longleftrightarrow>
      ed_hole (map unat (take k src))" (is "?l = ?r")
  proof
    assume l: ?l
    then have "k = 3" using assms(2) by (simp add: utf8_len_nat)
    then show ?r using l take_nths(3) [of src] assms(3) by (simp add: ed_hole_def)
  next
    assume r: ?r
    then have "length (map unat (take k src)) = 3" unfolding ed_hole_def by force
    then have "k = 3" using assms(3) by simp
    then show ?l using r take_nths(3) [of src] assms(3) by (auto simp: ed_hole_def)
  qed
  ultimately show ?thesis using assms k legal_case_table [of src k] by (simp add: UTF8_IsLegal_def byte_at_def Let_def accepted_def)
qed

section \<open>Round trips\<close>

lemma low_bits: "j < 32 \<Longrightarrow> unat (x AND (push_bit j 1 - 1) :: u32) = unat x mod 2 ^ j"
proof -
  assume j: "j < 32"
  have "push_bit j 1 - 1 = (mask j :: u32)" by (simp add: mask_eq_exp_minus_1 push_bit_eq_mult)
  then have "x AND (push_bit j 1 - 1) = take_bit j x" by (metis take_bit_eq_mask)
  then have "unat (x AND (push_bit j 1 - 1)) = take_bit j (unat x)" by (simp only: unsigned_take_bit_eq)
  then show ?thesis by (simp only: take_bit_eq_mod)
qed

lemma small_nats: "5 = Suc 4" "4 = Suc 3" "3 = Suc 2" "2 = Suc 1" "1 = Suc 0"
  by simp_all

lemma marks: "first_mark 0 = 0" "first_mark 1 = 192" "first_mark 2 = 224" "first_mark 3 = 240" "first_mark 4 = 248" "first_mark 5 = 252"
proof -
  show "first_mark 0 = 0" "first_mark 1 = 192" "first_mark 2 = 224" "first_mark 3 = 240" "first_mark 4 = 248" "first_mark 5 = 252"
    unfolding small_nats first_mark.simps by (simp_all add: lead_bits_def)
qed

lemma trails:
  "trail_bytes 1 w = [128 + w mod 64]"
  "trail_bytes 2 w = [128 + w div 64 mod 64, 128 + w mod 64]"
  "trail_bytes 3 w = [128 + w div 4096 mod 64, 128 + w div 64 mod 64, 128 + w mod 64]"
  "trail_bytes 4 w = [128 + w div 262144 mod 64, 128 + w div 4096 mod 64, 128 + w div 64 mod 64, 128 + w mod 64]"
proof -
  have d: "w div 64 div 64 = w div 4096" "w div 4096 div 64 = w div 262144" by (simp_all add: div_mult2_eq [symmetric])
  show "trail_bytes 1 w = [128 + w mod 64]"
    "trail_bytes 2 w = [128 + w div 64 mod 64, 128 + w mod 64]"
    "trail_bytes 3 w = [128 + w div 4096 mod 64, 128 + w div 64 mod 64, 128 + w mod 64]"
    "trail_bytes 4 w = [128 + w div 262144 mod 64, 128 + w div 4096 mod 64, 128 + w div 64 mod 64, 128 + w mod 64]"
    unfolding small_nats trail_bytes.simps d by simp_all
qed

lemma mod_range: "c * q \<le> a \<Longrightarrow> a < c * q + q \<Longrightarrow> a mod q + c * q = a" for a q c :: nat
proof -
  assume a: "c * q \<le> a" "a < c * q + q"
  then obtain r where r: "a = c * q + r" "r < q" using le_Suc_ex by fastforce
  then show ?thesis by simp
qed

lemma div_split: "w div a = 64 * (w div (a * 64)) + w div a mod 64" for w :: nat
  using mult_div_mod_eq [of 64 "w div a"] by (simp add: div_mult2_eq)

text \<open>The bytes written for a character with \<open>n\<close> following bytes.\<close>

definition enc_bytes :: "nat \<Rightarrow> nat \<Rightarrow> nat list" where
  "enc_bytes n w = (w div 64 ^ n + first_mark n) # trail_bytes n w"

definition surrogate :: "nat \<Rightarrow> bool" where "surrogate w \<longleftrightarrow> 0xD800 \<le> w \<and> w \<le> 0xDFFF"

lemma enc_count:
  assumes "wc_count wc = Some (Suc n)"
  shows "n \<le> 5" "n = 0 \<Longrightarrow> unat wc < 128" "0 < n \<Longrightarrow> unat wc < 2 ^ (5 * n + 6)" "n = 1 \<Longrightarrow> 2 ^ 7 \<le> unat wc" "1 < n \<Longrightarrow> 2 ^ (5 * n + 1) \<le> unat wc"
  using assms by (auto simp: wc_count_def word_less_nat_alt word_le_nat_alt not_less split: if_splits)

lemma wc_countI:
  assumes "n \<le> 5" "n = 0 \<Longrightarrow> unat wc < 128" "0 < n \<Longrightarrow> unat wc < 2 ^ (5 * n + 6)" "n = 1 \<Longrightarrow> 2 ^ 7 \<le> unat wc" "1 < n \<Longrightarrow> 2 ^ (5 * n + 1) \<le> unat wc"
  shows "wc_count wc = Some (Suc n)"
proof -
  have "n = 0 \<or> n = 1 \<or> n = 2 \<or> n = 3 \<or> n = 4 \<or> n = 5" using assms(1) by linarith
  then show ?thesis using assms(2-) by (auto simp: wc_count_def word_less_nat_alt)
qed

lemma legal_enc:
  assumes "wc_count wc = Some (Suc n)" "n \<le> 4"
  shows "legal_seq (enc_bytes n (unat wc)) \<longleftrightarrow> \<not> surrogate (unat wc)"
proof -
  let ?w = "unat wc"
  note c = enc_count [OF assms(1)]
  consider "n = 0" | "n = 1" | "n = 2" | "n = 3" | "n = 4" using assms(2) by linarith
  then show ?thesis
  proof cases
    case 1
    then show ?thesis using c by (simp add: enc_bytes_def surrogate_def legal_seq_simps)
  next
    case 2
    then have "?w div 64 < 32" "2 \<le> ?w div 64" "?w < 0xD800" using c by auto
    then show ?thesis using 2 marks(2) trails(1) by (simp add: enc_bytes_def surrogate_def legal_seq_simps)
  next
    case 3
    have e: "?w div 64 = 64 * (?w div 4096) + ?w div 64 mod 64" using div_split [of ?w 64] by simp
    have "?w div 4096 < 16" "32 \<le> ?w div 64" using 3 c by auto
    moreover have "surrogate ?w \<longleftrightarrow> 864 \<le> ?w div 64 \<and> ?w div 64 < 896"
      using less_eq_div_iff_mult_less_eq [of 64 864 ?w] div_less_iff_less_mult [of 64 ?w 896] unfolding surrogate_def by auto
    moreover have "?w div 64 mod 64 < 64" by simp
    moreover have "(a = 13 \<longrightarrow> b \<le> 31) \<longleftrightarrow> \<not> (864 \<le> d \<and> d < 896)" "32 \<le> d \<Longrightarrow> a = 0 \<longrightarrow> 32 \<le> b" if "d = 64 * a + b" "b < 64" for a b d :: nat
      using that by arith+
    ultimately have "(?w div 4096 = 13 \<longrightarrow> ?w div 64 mod 64 \<le> 31) \<longleftrightarrow> \<not> surrogate ?w" "?w div 4096 = 0 \<longrightarrow> 32 \<le> ?w div 64 mod 64"
      using e by blast+
    then show ?thesis using 3 \<open>?w div 4096 < 16\<close> \<open>?w div 64 mod 64 < 64\<close>
      by (auto simp: enc_bytes_def marks trails legal_seq_simps)
  next
    case 4
    have e: "?w div 4096 = 64 * (?w div 262144) + ?w div 4096 mod 64" using div_split [of ?w 4096] by simp
    have "?w div 262144 < 8" "16 \<le> ?w div 4096" "\<not> surrogate ?w" using 4 c by (auto simp: surrogate_def)
    moreover have "?w div 4096 mod 64 < 64" by simp
    ultimately show ?thesis using 4 e by (auto simp: enc_bytes_def marks trails legal_seq_simps)
  next
    case 5
    have e: "?w div 262144 = 64 * (?w div 16777216) + ?w div 262144 mod 64" using div_split [of ?w 262144] by simp
    have "?w div 16777216 < 4" "8 \<le> ?w div 262144" "\<not> surrogate ?w" using 5 c by (auto simp: surrogate_def)
    moreover have "?w div 262144 mod 64 < 64" by simp
    ultimately show ?thesis using 5 e by (auto simp: enc_bytes_def marks trails legal_seq_simps)
  qed
qed

lemma Ucs4ToMb_bytes:
  assumes "wc_count wc = Some (Suc n)" "n < length mbs"
  shows "UTF8_Ucs4ToMb mbs wc = Some (map word_of_nat (enc_bytes n (unat wc)) @ drop (Suc n) mbs, int (Suc n))"
proof -
  note c = enc_count [OF assms(1)]
  have "unat wc < 2 ^ (5 * n + 7)" if "0 < n" using c(3) [OF that] by (simp add: power_add)
  then show ?thesis using put_case_bytes [of n wc mbs] assms c(1) by (simp add: UTF8_Ucs4ToMb_def enc_bytes_def)
qed

lemma trail_small: "b \<in> set (trail_bytes n w) \<Longrightarrow> 128 \<le> b \<and> b < 192"
  by (induction n w rule: trail_bytes.induct) auto

lemma enc_small:
  assumes "wc_count wc = Some (Suc n)"
  shows "map unat (map (word_of_nat :: nat \<Rightarrow> u8) (enc_bytes n (unat wc))) = enc_bytes n (unat wc)"
proof -
  note c = enc_count [OF assms]
  have "n = 0 \<or> n = 1 \<or> n = 2 \<or> n = 3 \<or> n = 4 \<or> n = 5" using c(1) by linarith
  then have "unat wc div 64 ^ n + first_mark n < 256"
    using c(2,3) by (elim disjE) (simp_all add: marks marks(2) [simplified] less_mult_imp_div_less)
  then have "\<forall>b\<in>set (enc_bytes n (unat wc)). b < 256" using trail_small by (fastforce simp: enc_bytes_def)
  then show ?thesis by (simp add: map_idI byte_val)
qed

lemma MbToUcs4_val:
  assumes "src \<noteq> []" "k = utf8_len (src ! 0)" "k \<le> length src" "1 \<le> k" "accepted (map unat (take k src))" "n \<le> 0 \<or> int k \<le> n"
  shows "UTF8_MbToUcs4 (Some x) (Some src) n =
    Some (Some (word_of_nat (if k = 1 then unat (src ! 0) else trail_val (unat (src ! 0) mod 2 ^ (7 - k)) (take (k - 1) (drop 1 src)))), int k)"
proof (cases "k = 1")
  case True
  then show ?thesis using assms IsLegal_cases [OF assms(1-3), of n] by (auto simp: UTF8_MbToUcs4_def byte_at_def)
next
  case False
  have k: "k \<le> 5" using assms(3,5) by (simp add: accepted_def)
  let ?v = "ucast (src ! 0) AND (push_bit (8 - k - 1) 1 - 1) :: u32"
  have v: "unat ?v = unat (src ! 0) mod 2 ^ (7 - k)" using low_bits [of "7 - k"] by simp
  then have "unat ?v < 2 ^ (7 - k)" by simp
  moreover have "(2::nat) ^ (7 - k) \<le> 2 ^ (32 - 6 * (k - 1))" by (rule power_increasing) (use k in simp_all)
  ultimately have "unat ?v < 2 ^ (32 - 6 * (k - 1))" by linarith
  then have "ucs4_loop src 1 (k - 1) ?v = Some (word_of_nat (trail_val (unat ?v) (take (k - 1) (drop 1 src))))"
    using assms(1,3,4) k by (intro ucs4_loop_val) auto
  then show ?thesis using False assms IsLegal_cases [OF assms(1-3), of n] v by (auto simp: UTF8_MbToUcs4_def byte_at_def nat_diff_distrib)
qed

lemma first_value:
  assumes "wc_count wc = Some (Suc n)" "1 \<le> n" "n \<le> 4"
  shows "(unat wc div 64 ^ n + first_mark n) mod 2 ^ (6 - n) = unat wc div 64 ^ n"
proof -
  note c = enc_count [OF assms(1)]
  have "n = 1 \<or> n = 2 \<or> n = 3 \<or> n = 4" using assms(2,3) by linarith
  then have "2 ^ (6 - n) dvd first_mark n" "unat wc div 64 ^ n < 2 ^ (6 - n)"
    using c(3) by (elim disjE; simp add: marks marks(2) [simplified] less_mult_imp_div_less)+
  then show ?thesis by (auto elim!: dvdE)
qed

lemma decode_enc:
  assumes wc: "wc_count wc = Some (Suc n)" "wc \<noteq> 0" and m: "m = map word_of_nat (enc_bytes n (unat wc)) @ t"
    and ok: "n \<le> 4" "\<not> surrogate (unat wc)"
  shows "UTF8_MbToUcs4 (Some x) (Some m) N = Some (if N \<le> 0 \<or> int (Suc n) \<le> N then (Some wc, int (Suc n)) else (Some x, -1))"
proof -
  let ?f = "unat wc div 64 ^ n + first_mark n"
  have b: "map unat (take (Suc n) m) = enc_bytes n (unat wc)" using enc_small [OF wc(1)] by (simp add: m enc_bytes_def)
  have m0: "m ! 0 = word_of_nat ?f" "unat (m ! 0) = ?f" "m \<noteq> []" using enc_small [OF wc(1)] by (simp_all add: m enc_bytes_def)
  have l: "legal_seq (enc_bytes n (unat wc))" using legal_enc [OF wc(1) ok(1)] ok(2) by simp
  have "m ! 0 \<noteq> 0"
  proof (cases "n = 0")
    case True
    then show ?thesis using m0(2) wc(2) by (auto simp: unat_eq_0)
  next
    case False
    then have "n = 1 \<or> n = 2 \<or> n = 3 \<or> n = 4" using ok(1) by linarith
    then have "0 < ?f" using marks by auto
    then show ?thesis using m0(2) by auto
  qed
  then have u: "Suc n = utf8_len (m ! 0)" using legal_seq_len [of "m ! 0" "trail_bytes n (unat wc)"] l m0(2) by (simp add: enc_bytes_def)
  have "accepted (map unat (take (Suc n) m))" using l ok(1) unfolding b accepted_def by (simp add: enc_bytes_def)
  note v = MbToUcs4_val [OF m0(3) u _ _ this, of N x]
  have "Suc n \<le> length m" by (simp add: m enc_bytes_def)
  consider "\<not> (N \<le> 0 \<or> int (Suc n) \<le> N)" | "N \<le> 0 \<or> int (Suc n) \<le> N" "n = 0" | "N \<le> 0 \<or> int (Suc n) \<le> N" "n \<noteq> 0" by blast
  then show ?thesis
  proof cases
    case 1
    then have "UTF8_IsLegal m N = Some (-1)" using IsLegal_cases [OF m0(3) u \<open>Suc n \<le> length m\<close>, of N] by auto
    then show ?thesis using 1 by (auto simp: UTF8_MbToUcs4_def)
  next
    case 2
    then show ?thesis using v \<open>Suc n \<le> length m\<close> m0(2) by simp
  next
    case 3
    then have False: "n \<noteq> 0" by simp
    have "take n (drop 1 m) = map word_of_nat (trail_bytes n (unat wc))" by (simp add: m enc_bytes_def)
    then have "trail_val (unat (m ! 0) mod 2 ^ (6 - n)) (take n (drop 1 m)) = unat wc"
      using first_value [OF wc(1) _ ok(1)] False by (simp add: m0(2) trail_bytes_val div_mult_mod_eq)
    then show ?thesis using v \<open>Suc n \<le> length m\<close> 3 by simp
  qed
qed

lemma decode_bad:
  assumes wc: "wc_count wc = Some (Suc n)" and m: "m = map word_of_nat (enc_bytes n (unat wc)) @ t"
    and bad: "n = 5 \<or> surrogate (unat wc)"
  shows "UTF8_MbToUcs4 p (Some m) N = Some (p, -1)"
proof -
  let ?f = "unat wc div 64 ^ n + first_mark n"
  note c = enc_count [OF wc]
  have b: "map unat (take (Suc n) m) = enc_bytes n (unat wc)" using enc_small [OF wc] by (simp add: m enc_bytes_def)
  have m0: "unat (m ! 0) = ?f" "m \<noteq> []" "Suc n \<le> length m" using enc_small [OF wc] by (simp_all add: m enc_bytes_def)
  have "utf8_len (m ! 0) = Suc n \<and> \<not> accepted (enc_bytes n (unat wc))"
  proof (cases "n = 5")
    case True
    have "unat wc div 64 ^ 5 < 2" using c(3) True by (simp add: less_mult_imp_div_less)
    then show ?thesis using True m0(1) marks(6) by (simp add: utf8_len_nat Let_def accepted_def enc_bytes_def)
  next
    case False
    then have s: "surrogate (unat wc)" using bad by simp
    then have "wc_count wc = Some 3" by (simp add: wc_count_def word_less_nat_alt surrogate_def)
    then have n: "n = 2" using wc by simp
    have "unat wc div 4096 = 13" by (rule div_nat_eqI) (use s in \<open>simp_all add: surrogate_def\<close>)
    then have "utf8_len (m ! 0) = Suc n" using m0(1) n marks(3) by (simp add: utf8_len_nat Let_def)
    moreover have "\<not> accepted (enc_bytes n (unat wc))"
      using legal_enc [OF wc] s n trails(2) [of "unat wc"] by (simp add: accepted_def ed_hole_def enc_bytes_def)
    ultimately show ?thesis by simp
  qed
  then have "UTF8_IsLegal m N = Some (-1)" using IsLegal_cases [OF m0(2) refl, of N] m0(3) b by auto
  then show ?thesis by (simp add: UTF8_MbToUcs4_def)
qed

text \<open>From the bytes to the character and back.\<close>

lemma trail_inverse:
  "\<forall>b\<in>set bs. 128 \<le> unat b \<and> unat b \<le> 191 \<Longrightarrow>
    trail_bytes (length bs) (trail_val v bs) = map unat bs \<and> trail_val v bs div 64 ^ length bs = v"
proof (induction bs rule: rev_induct)
  case (snoc b bs)
  have b: "(64 * trail_val v bs + unat b mod 64) div 64 = trail_val v bs" "(64 * trail_val v bs + unat b mod 64) mod 64 = unat b mod 64" by simp_all
  have "128 + unat b mod 64 = unat b"
  proof -
    have "unat b - 128 < 64" "unat b = 2 * 64 + (unat b - 128)" using snoc.prems by auto
    then have "unat b mod 64 = unat b - 128" by (metis mod_less mod_mult_self3)
    then show ?thesis using snoc.prems by auto
  qed
  then show ?case using snoc b by (simp add: div_mult2_eq)
qed simp

lemma legal_cont:
  assumes "legal_seq (a # bs)" "length bs \<le> 4"
  shows "\<forall>b\<in>set bs. 128 \<le> b \<and> b \<le> 191"
    "a = a mod 2 ^ (6 - length bs) + first_mark (length bs) \<or> bs = []"
proof -
  have "length bs = 0 \<or> length bs = 1 \<or> length bs = 2 \<or> length bs = 3 \<or> length bs = 4" using assms(2) by linarith
  then consider "bs = []" | b where "bs = [b]" | b c where "bs = [b, c]" | b c d where "bs = [b, c, d]" | b c d e where "bs = [b, c, d, e]"
    by (auto simp: length_Suc_conv numeral_eq_Suc)
  then have "(\<forall>b\<in>set bs. 128 \<le> b \<and> b \<le> 191) \<and> (a = a mod 2 ^ (6 - length bs) + first_mark (length bs) \<or> bs = [])"
  proof cases
    case 2
    have "a mod 32 + 192 = a" if "194 \<le> a" "a \<le> 223" using mod_range [of 6 32 a] that by simp
    moreover have n: "length bs = 1" using 2 by simp
    ultimately show ?thesis using assms(1) unfolding n marks by (simp add: 2 legal_seq_simps)
  next
    case 3
    have "a mod 16 + 224 = a" if "224 \<le> a" "a \<le> 239" using mod_range [of 14 16 a] that by simp
    moreover have n: "length bs = 2" using 3 by simp
    ultimately show ?thesis using assms(1) unfolding n marks by (simp add: 3 legal_seq_simps)
  next
    case 4
    have "a mod 8 + 240 = a" if "240 \<le> a" "a \<le> 247" using mod_range [of 30 8 a] that by simp
    moreover have n: "length bs = 3" using 4 by simp
    ultimately show ?thesis using assms(1) unfolding n marks by (simp add: 4 legal_seq_simps)
  next
    case 5
    have "a mod 4 + 248 = a" if "248 \<le> a" "a \<le> 251" using mod_range [of 62 4 a] that by simp
    moreover have n: "length bs = 4" using 5 by simp
    ultimately show ?thesis using assms(1) unfolding n marks by (simp add: 5 legal_seq_simps)
  qed simp
  then show "\<forall>b\<in>set bs. 128 \<le> b \<and> b \<le> 191" "a = a mod 2 ^ (6 - length bs) + first_mark (length bs) \<or> bs = []" by auto
qed

lemma legal_value_low:
  assumes l: "legal_seq (a # map unat bs)" "length bs = n" "n \<le> 4"
    and w: "trail_bytes n w = map unat bs" "w div 64 ^ n = a mod 2 ^ (6 - n)"
  shows "n = 1 \<Longrightarrow> 2 ^ 7 \<le> w" "1 < n \<Longrightarrow> 2 ^ (5 * n + 1) \<le> w"
proof -
  have l': "legal_seq (a # trail_bytes n w)" using l(1) w(1) by simp
  have le: "b * c \<le> w" if "b \<le> w div c" for b c :: nat using that div_times_less_eq_dividend [of w c] mult_le_mono1 [of b "w div c" c] by linarith
  show "2 ^ 7 \<le> w" if n: "n = 1"
  proof -
    have "194 \<le> a" "a \<le> 223" using l' trails(1) [of w] n by (simp_all add: legal_seq_simps)
    then have "2 \<le> a mod 32" using mod_range [of 6 32 a] by simp
    then have "2 \<le> w div 64" using w(2) n by simp
    then show ?thesis using le [of 2 64] by simp
  qed
  show "2 ^ (5 * n + 1) \<le> w" if n1: "1 < n"
  proof -
    consider "n = 2" | "n = 3" | "n = 4" using n1 l(3) by linarith
    then show ?thesis
    proof cases
      case 1
      have r: "224 \<le> a" "a \<le> 239" "a = 224 \<Longrightarrow> 32 \<le> w div 64 mod 64" using l' 1 trails(2) [of w] by (auto simp: legal_seq_simps)
      have "32 \<le> w div 64"
      proof (cases "a = 224")
        case False
        then have "1 \<le> a mod 16" using r(1,2) mod_range [of 14 16 a] by simp
        then show ?thesis using w(2) 1 div_split [of w 64] by simp
      qed (use r(3) mod_less_eq_dividend [of "w div 64" 64] in linarith)
      then show ?thesis using le [of 32 64] 1 by simp
    next
      case 2
      have r: "240 \<le> a" "a \<le> 247" "a = 240 \<Longrightarrow> 16 \<le> w div 4096 mod 64" using l' 2 trails(3) [of w] by (auto simp: legal_seq_simps)
      have "16 \<le> w div 4096"
      proof (cases "a = 240")
        case False
        then have "1 \<le> a mod 8" using r(1,2) mod_range [of 30 8 a] by simp
        then show ?thesis using w(2) 2 div_split [of w 4096] by simp
      qed (use r(3) mod_less_eq_dividend [of "w div 4096" 64] in linarith)
      then show ?thesis using le [of 16 4096] 2 by simp
    next
      case 3
      have r: "248 \<le> a" "a \<le> 251" "a = 248 \<Longrightarrow> 8 \<le> w div 262144 mod 64" using l' 3 trails(4) [of w] by (auto simp: legal_seq_simps)
      have "8 \<le> w div 262144"
      proof (cases "a = 248")
        case False
        then have "1 \<le> a mod 4" using r(1,2) mod_range [of 62 4 a] by simp
        then show ?thesis using w(2) 3 div_split [of w 262144] by simp
      qed (use r(3) mod_less_eq_dividend [of "w div 262144" 64] in linarith)
      then show ?thesis using le [of 8 262144] 3 by simp
    qed
  qed
qed

lemma legal_value:
  fixes c :: u8
  assumes l: "legal_seq (unat c # map unat bs)" "length bs = n" "n \<le> 4"
  defines "w \<equiv> if n = 0 then unat c else trail_val (unat c mod 2 ^ (6 - n)) bs"
  shows "wc_count (word_of_nat w) = Some (Suc n)" "unat (word_of_nat w :: u32) = w" "enc_bytes n w = unat c # map unat bs"
proof -
  have c: "\<forall>b\<in>set bs. 128 \<le> unat b \<and> unat b \<le> 191" "unat c = unat c mod 2 ^ (6 - n) + first_mark n \<or> bs = []"
    using legal_cont [OF l(1)] l(2,3) by auto
  have t: "trail_bytes n w = map unat bs" "w div 64 ^ n = unat c mod 2 ^ (6 - n)" if "n \<noteq> 0"
    using trail_inverse [OF c(1), of "unat c mod 2 ^ (6 - n)"] l(2) that by (simp_all add: w_def)
  have up: "w < 2 ^ (5 * n + 6)" if "n \<noteq> 0"
  proof -
    have "w div 64 ^ n < 2 ^ (6 - n)" using t(2) [OF that] by simp
    then have "w < 2 ^ (6 - n) * 64 ^ n" by (simp add: div_less_iff_less_mult)
    also have "\<dots> = 2 ^ (6 - n + 6 * n)" by (simp add: power_add power_mult)
    also have "6 - n + 6 * n = 5 * n + 6" using l(3) by simp
    finally show ?thesis .
  qed
  have z: "n = 0 \<Longrightarrow> w < 128" using l(1,2) by (auto simp: w_def legal_seq_simps)
  have "w < 2 ^ 32"
  proof (cases "n = 0")
    case False
    have "(2::nat) ^ (5 * n + 6) \<le> 2 ^ 26" by (rule power_increasing) (use l(3) in simp_all)
    then show ?thesis using up [OF False] by simp
  qed (use z in simp)
  then show u: "unat (word_of_nat w :: u32) = w" by (rule unat_small)
  show "wc_count (word_of_nat w) = Some (Suc n)"
  proof (rule wc_countI)
    show "unat (word_of_nat w :: u32) < 2 ^ (5 * n + 6)" if "0 < n" unfolding u by (rule up) (use that in simp)
    show "n \<le> 5" using l(3) by simp
    show "unat (word_of_nat w :: u32) < 128" if "n = 0" unfolding u by (rule z [OF that])
    show "2 ^ 7 \<le> unat (word_of_nat w :: u32)" if "n = 1" unfolding u by (rule legal_value_low(1) [OF l]) (use t that in auto)
    show "2 ^ (5 * n + 1) \<le> unat (word_of_nat w :: u32)" if "1 < n" unfolding u by (rule legal_value_low(2) [OF l]) (use t that in auto)
  qed
  show "enc_bytes n w = unat c # map unat bs"
  proof (cases "n = 0")
    case True
    then show ?thesis using l(2) by (simp add: enc_bytes_def w_def)
  next
    case False
    then show ?thesis using t c(2) l(2) unfolding enc_bytes_def by auto
  qed
qed

section \<open>The properties\<close>

text \<open>C38. The check of one character against the table at the head of the file: with the memory of the character readable,
  \<open>__UTF8_IsLegal\<close> returns its length exactly for the legal sequences of at most five bytes that fit into the text, and for the sequences
  that begin with \<open>ED\<close> and a second byte below \<open>80\<close>, which the table does not have.  A byte that cannot begin a character is reported as the end of the text.\<close>

theorem UTF8_IsLegal_table:
  assumes "src \<noteq> []" "src ! 0 \<noteq> 0" "utf8_len (src ! 0) \<le> length src"
  shows "(0 < k \<and> UTF8_IsLegal src n = Some k \<longleftrightarrow> 0 < k \<and> k \<le> 5 \<and> k \<le> int (length src) \<and> (n \<le> 0 \<or> k \<le> n) \<and>
      (legal_seq (map unat (take (nat k) src)) \<or> ed_hole (map unat (take (nat k) src)))) \<and>
    (128 \<le> unat (src ! 0) \<and> unat (src ! 0) < 194 \<longrightarrow> UTF8_IsLegal src n = Some 0)"
proof -
  let ?l = "utf8_len (src ! 0)" and ?bs = "map unat (take (nat k) src)"
  note I = IsLegal_cases [OF assms(1) refl assms(3), of n]
  have len: "?l = nat k" if k: "0 < k" "k \<le> int (length src)" "legal_seq ?bs \<or> ed_hole ?bs"
  proof -
    obtain j where j: "nat k = Suc j" using k(1) by (cases "nat k") auto
    then have e: "?bs = unat (src ! 0) # map unat (take j (tl src))" using assms(1) by (cases src) auto
    have "length (take j (tl src)) = j" using k(2) j by auto
    moreover have "?l = Suc (length (map unat (take j (tl src))))" if "legal_seq ?bs" using legal_seq_len [OF that [unfolded e] assms(2)] .
    moreover have "?l = 3" if "ed_hole ?bs" using that e by (auto simp: ed_hole_def utf8_len_nat)
    moreover have "length ?bs = 3" if "ed_hole ?bs" using that unfolding ed_hole_def by force
    ultimately show ?thesis using k(2,3) j by auto
  qed
  have "0 < k \<and> UTF8_IsLegal src n = Some k \<longleftrightarrow> 0 < k \<and> k = int ?l \<and> (n \<le> 0 \<or> k \<le> n) \<and> accepted ?bs" using I by auto
  also have "\<dots> \<longleftrightarrow> 0 < k \<and> k \<le> 5 \<and> k \<le> int (length src) \<and> (n \<le> 0 \<or> k \<le> n) \<and> (legal_seq ?bs \<or> ed_hole ?bs)"
    using len assms(3) by (auto simp: accepted_def)
  moreover have "UTF8_IsLegal src n = Some 0" if "128 \<le> unat (src ! 0)" "unat (src ! 0) < 194"
  proof -
    have "?l = 0" using that by (simp add: utf8_len_nat)
    then show ?thesis using I by auto
  qed
  ultimately show ?thesis by simp
qed

text \<open>C39. Encoding and decoding.  \<open>UTF8_Ucs4ToMb\<close> writes one to six bytes and nothing behind them, and refuses numbers from \<open>0x80000000\<close> on.  \<open>UTF8_MbToUcs4\<close> reads
  the same character back when the text is long enough, except the characters with six bytes and the surrogates, which it refuses, and the
  character 0, which is the end of a text.\<close>

theorem UTF8_roundtrip:
  assumes "6 \<le> length mbs"
  shows "\<exists>m k. UTF8_Ucs4ToMb mbs wc = Some (m, k) \<and> length m = length mbs \<and>
    (wc \<ge> 0x80000000 \<longrightarrow> k = -1 \<and> m = mbs) \<and>
    (wc < 0x80000000 \<longrightarrow> 1 \<le> k \<and> k \<le> 6 \<and> drop (nat k) m = drop (nat k) mbs \<and>
      UTF8_MbToUcs4 (Some x) (Some m) n =
        (if wc = 0 then Some (Some 0, 0)
         else if wc \<ge> 0x4000000 \<or> 0xD800 \<le> wc \<and> wc \<le> 0xDFFF then Some (Some x, -1)
         else if n \<le> 0 \<or> k \<le> n then Some (Some wc, k) else Some (Some x, -1)))"
proof (cases "wc < 0x80000000")
  case False
  then have "wc_count wc = None" by (auto simp: wc_count_def word_less_nat_alt)
  then show ?thesis using False by (simp add: UTF8_Ucs4ToMb_def)
next
  case True
  then have "wc_count wc \<noteq> None" "wc_count wc \<noteq> Some 0" by (simp_all add: wc_count_def)
  then obtain j where c: "wc_count wc = Some (Suc j)" by (metis not0_implies_Suc option.exhaust)
  note b = enc_count [OF c]
  define m :: "u8 list" where "m = map word_of_nat (enc_bytes j (unat wc)) @ drop (Suc j) mbs"
  have e: "UTF8_Ucs4ToMb mbs wc = Some (m, int (Suc j))" using Ucs4ToMb_bytes [OF c] b(1) assms by (simp add: m_def)
  have l: "length m = length mbs" "drop (nat (int (Suc j))) m = drop (nat (int (Suc j))) mbs" using b(1) assms unfolding nat_int by (simp_all add: m_def enc_bytes_def)
  have five: "wc \<ge> 0x4000000 \<longleftrightarrow> j = 5" using c by (auto simp: wc_count_def word_less_nat_alt word_le_nat_alt split: if_splits)
  have sur: "0xD800 \<le> wc \<and> wc \<le> 0xDFFF \<longleftrightarrow> surrogate (unat wc)" by (simp add: surrogate_def word_le_nat_alt)
  have "UTF8_MbToUcs4 (Some x) (Some m) n =
        (if wc = 0 then Some (Some 0, 0)
         else if wc \<ge> 0x4000000 \<or> 0xD800 \<le> wc \<and> wc \<le> 0xDFFF then Some (Some x, -1)
         else if n \<le> 0 \<or> int (Suc j) \<le> n then Some (Some wc, int (Suc j)) else Some (Some x, -1))"
  proof (cases "wc = 0")
    case True
    then have "m ! 0 = 0" "m \<noteq> []" using c by (auto simp: wc_count_def m_def enc_bytes_def)
    then show ?thesis using True by (auto simp: UTF8_MbToUcs4_def UTF8_IsLegal_def byte_at_def utf8_len_def)
  next
    case wc0: False
    show ?thesis
    proof (cases "j = 5 \<or> surrogate (unat wc)")
      case True
      then show ?thesis using decode_bad [OF c m_def True] five sur wc0 by simp
    next
      case False
      then have "j \<le> 4" using b(1) by simp
      then show ?thesis using decode_enc [OF c wc0 m_def] False five sur wc0 by simp
    qed
  qed
  then show ?thesis using True e l b(1) by (intro exI [of _ m] exI [of _ "int (Suc j)"]) auto
qed

text \<open>C40. Every character has one encoding only: what \<open>UTF8_MbToUcs4\<close> reads from a legal sequence \<open>UTF8_Ucs4ToMb\<close> writes as the same bytes.\<close>

theorem UTF8_canonical:
  assumes "legal_seq (map unat bs)" "length bs \<le> 5" "bs ! 0 \<noteq> 0" "length bs \<le> length mbs"
  shows "\<exists>wc. UTF8_MbToUcs4 (Some x) (Some (bs @ t)) 0 = Some (Some wc, int (length bs)) \<and>
    UTF8_Ucs4ToMb mbs wc = Some (bs @ drop (length bs) mbs, int (length bs))"
proof -
  have "bs \<noteq> []" using assms(1) by (auto simp: legal_seq_def utf8_table_def Let_def)
  then obtain c cs where bs: "bs = c # cs" by (cases bs) auto
  define w where "w = (if length cs = 0 then unat c else trail_val (unat c mod 2 ^ (6 - length cs)) cs)"
  have l: "legal_seq (unat c # map unat cs)" "length cs \<le> 4" "c \<noteq> 0" using assms bs by simp_all
  note v = legal_value [OF l(1) refl l(2), folded w_def]
  have u: "Suc (length cs) = utf8_len ((bs @ t) ! 0)" using legal_seq_len [OF l(1,3)] bs by simp
  have a: "accepted (map unat (take (Suc (length cs)) (bs @ t)))" using assms(1) l(2) bs by (simp add: accepted_def)
  have "UTF8_MbToUcs4 (Some x) (Some (bs @ t)) 0 = Some (Some (word_of_nat w), int (length bs))"
    using MbToUcs4_val [OF _ u _ _ a, of 0 x] bs by (simp add: w_def)
  moreover have "map word_of_nat (enc_bytes (length cs) w) = bs" unfolding v(3) bs by (simp add: comp_def)
  then have "UTF8_Ucs4ToMb mbs (word_of_nat w) = Some (bs @ drop (length bs) mbs, int (length bs))"
    using Ucs4ToMb_bytes [OF v(1), of mbs] assms(4) bs v(2) by simp
  ultimately show ?thesis by blast
qed

theorem UTF8_IsLegal_table_witness: "UTF8_IsLegal [0xE4, 0xB8, 0xAD, 0] 4 = Some 3 \<and> UTF8_IsLegal [0xED, 0x41, 0x80] 0 = Some 3"
proof -
  have "legal_seq (map unat (take (nat 3) [0xE4, 0xB8, 0xAD, 0 :: u8]))" by (simp add: legal_seq_simps)
  moreover have "ed_hole (map unat (take (nat 3) [0xED, 0x41, 0x80 :: u8]))" by (simp add: ed_hole_def)
  ultimately show ?thesis
    using UTF8_IsLegal_table [of "[0xE4, 0xB8, 0xAD, 0]" 3 4] UTF8_IsLegal_table [of "[0xED, 0x41, 0x80]" 3 0] by (simp add: utf8_len_def)
qed

theorem UTF8_roundtrip_witness:
  "\<exists>m k. UTF8_Ucs4ToMb [0, 0, 0, 0, 0, 0] 0x4E2D = Some (m, k) \<and> UTF8_MbToUcs4 (Some 0) (Some m) 6 = Some (Some 0x4E2D, k)"
  using UTF8_roundtrip [of "[0, 0, 0, 0, 0, 0]" "0x4E2D" 0 6] by auto

theorem UTF8_canonical_witness:
  "\<exists>wc. UTF8_MbToUcs4 (Some 0) (Some [0xE4, 0xB8, 0xAD, 0]) 0 = Some (Some wc, 3) \<and> UTF8_Ucs4ToMb [7, 7, 7, 7] wc = Some ([0xE4, 0xB8, 0xAD, 7], 3)"
  using UTF8_canonical [of "[0xE4, 0xB8, 0xAD]" "[7, 7, 7, 7]" 0 "[0]"] by (simp add: legal_seq_simps)

end
