(* ===== verification/Djy_Timer.thy ===== *)
theory Djy_Timer
  imports Djy_Pool
begin

text \<open>
  Software timers (\<open>src/component/timer/timer.c\<close>, with a hardware timer as the source of time, the default configuration, and
  \<open>src/component/timer/timer_hard.c\<close>).  The state extends that of the memory pools, from which \<open>Timer_Create\<close> takes the timers; a timer is
  addressed by a \<open>u32\<close> and 0 is the null pointer, the use of which is the outcome \<^const>\<open>None\<close>.

  The environment supplies the readings of the system time (the \<open>i\<close>-th reading is \<open>te_time i\<close>; the state counts them), the handlers of
  the alarms, the driver of the hardware timer, and the product \<open>x * (f / 1E6)\<close>, which the source computes in floating point.  The commands
  given to the hardware and the calls of handlers are recorded in \<open>hard_ops\<close> and \<open>alarms\<close>.  The loops over the queue are partial functions: not returning is \<^const>\<open>None\<close>, too.
\<close>

section \<open>State\<close>

record tagTimer =
  t_pre :: u32
  t_nxt :: u32
  t_name :: string
  t_cycle :: u32
  t_isr :: u32
  t_stat :: u32
  TimerTag :: u32
  t_deadline :: int

datatype hard_cmd = EN_TIMER_STARTCOUNT | EN_TIMER_PAUSECOUNT | EN_TIMER_SETCYCLE u32 | EN_TIMER_SETRELOAD bool | EN_TIMER_ENINT

record tkernel = pkernel +
  timers :: "u32 \<Rightarrow> tagTimer"
  ptTimerHead :: u32
  ptTimerTail :: u32
  s_u32TimerPrecision :: u32
  s_u32Precision2Tclk :: u32
  s_u32TimerFreq :: u32
  ptTimerMemPool :: u32
  ptTimerQSync :: "nat option"
  sgHardTimerDefault :: u32
  s_tHardTimerChip :: bool
  readings :: nat
  hard_ops :: "(u32 \<times> hard_cmd) list"
  alarms :: "u32 list"

record 'k timer_env =
  te_time :: "nat \<Rightarrow> int"
  te_isr :: "u32 \<Rightarrow> u32 \<Rightarrow> 'k \<Rightarrow> 'k"
  te_scale :: "u32 \<Rightarrow> u32 \<Rightarrow> u32"
  te_alloc :: u32
  te_freq :: "u32 \<Rightarrow> u32"

definition CN_TIMER_ENCOUNT :: u32 where "CN_TIMER_ENCOUNT = 2"
definition CN_TIMER_RELOAD :: u32 where "CN_TIMER_RELOAD = 16"
definition CN_TIMER_ALARMNEVER :: int where "CN_TIMER_ALARMNEVER = 0x7fffffffffffffff"

definition upd_timer :: "u32 \<Rightarrow> (tagTimer \<Rightarrow> tagTimer) \<Rightarrow> 'a tkernel_scheme \<Rightarrow> 'a tkernel_scheme" where
  "upd_timer t f k = k\<lparr>timers := (timers k)(t := f (timers k t))\<rparr>"

abbreviation t_running :: "tagTimer \<Rightarrow> bool" where "t_running t \<equiv> t_stat t AND CN_TIMER_ENCOUNT \<noteq> 0"
abbreviation t_reload :: "tagTimer \<Rightarrow> bool" where "t_reload t \<equiv> t_stat t AND CN_TIMER_RELOAD \<noteq> 0"

section \<open>The hardware timer\<close>

definition HardTimer_RegisterChip :: "bool \<Rightarrow> 'a tkernel_scheme \<Rightarrow> 'a tkernel_scheme \<times> bool" where
  "HardTimer_RegisterChip timerchip k = (if timerchip then (k\<lparr>s_tHardTimerChip := True\<rparr>, True) else (k, False))"

definition HardTimer_UnRegisterChip :: "'a tkernel_scheme \<Rightarrow> 'a tkernel_scheme \<times> bool" where
  "HardTimer_UnRegisterChip k = (k\<lparr>s_tHardTimerChip := False\<rparr>, True)"

definition HardTimer_Alloc :: "'k timer_env \<Rightarrow> 'a tkernel_scheme \<Rightarrow> u32" where
  "HardTimer_Alloc H k = (if \<not> s_tHardTimerChip k then -1 else te_alloc H)"

definition HardTimer_GetFreq :: "'k timer_env \<Rightarrow> u32 \<Rightarrow> 'a tkernel_scheme \<Rightarrow> u32" where
  "HardTimer_GetFreq H handle k = (if \<not> s_tHardTimerChip k then 0 else te_freq H handle)"

definition HardTimer_Ctrl :: "u32 \<Rightarrow> hard_cmd \<Rightarrow> 'a tkernel_scheme \<Rightarrow> 'a tkernel_scheme" where
  "HardTimer_Ctrl handle cmd k = (if \<not> s_tHardTimerChip k then k else k\<lparr>hard_ops := hard_ops k @ [(handle, cmd)]\<rparr>)"

section \<open>The queue\<close>

definition Timer_Get64Time :: "'k timer_env \<Rightarrow> 'a tkernel_scheme \<Rightarrow> 'a tkernel_scheme \<times> int" where
  "Timer_Get64Time H k = (k\<lparr>readings := Suc (readings k)\<rparr>, te_time H (readings k))"

definition Timer_ExeAlarmHandler :: "'a tkernel_scheme timer_env \<Rightarrow> u32 \<Rightarrow> 'a tkernel_scheme \<Rightarrow> 'a tkernel_scheme" where
  "Timer_ExeAlarmHandler H timer k =
     (if t_isr (timers k timer) \<noteq> 0 then te_isr H (t_isr (timers k timer)) timer (k\<lparr>alarms := alarms k @ [timer]\<rparr>) else k)"

definition Timer_Remove :: "u32 \<Rightarrow> 'a tkernel_scheme \<Rightarrow> 'a tkernel_scheme option" where
  "Timer_Remove timer k =
     (if timer = ptTimerHead k \<and> timer = ptTimerTail k then Some (k\<lparr>ptTimerHead := 0, ptTimerTail := 0\<rparr>)
      else if timer = ptTimerHead k then
        (let k = k\<lparr>ptTimerHead := t_nxt (timers k (ptTimerHead k))\<rparr>
         in if ptTimerHead k = 0 then None else Some (upd_timer (ptTimerHead k) (\<lambda>t. t\<lparr>t_pre := 0\<rparr>) k))
      else if timer = ptTimerTail k then
        (let k = k\<lparr>ptTimerTail := t_pre (timers k (ptTimerTail k))\<rparr>
         in if ptTimerTail k = 0 then None else Some (upd_timer (ptTimerTail k) (\<lambda>t. t\<lparr>t_nxt := 0\<rparr>) k))
      else if t_pre (timers k timer) = 0 \<or> t_nxt (timers k timer) = 0 then None
      else let k = upd_timer (t_pre (timers k timer)) (\<lambda>t. t\<lparr>t_nxt := t_nxt (timers k timer)\<rparr>) k
           in Some (upd_timer (t_nxt (timers k timer)) (\<lambda>t. t\<lparr>t_pre := t_pre (timers k timer)\<rparr>) k))"

text \<open>The search of \<open>__Timer_Add\<close> for the first timer that is not due earlier.\<close>

partial_function (option) add_walk :: "'a tkernel_scheme \<Rightarrow> int \<Rightarrow> u32 \<Rightarrow> u32 option" where
  "add_walk k deadline tmp =
     (if tmp \<noteq> 0 \<and> t_deadline (timers k tmp) < deadline then add_walk k deadline (t_nxt (timers k tmp)) else Some tmp)"

definition Timer_AddLast :: "u32 \<Rightarrow> 'a tkernel_scheme \<Rightarrow> 'a tkernel_scheme option" where
  "Timer_AddLast timer k =
     (if ptTimerHead k = 0 then
        Some (upd_timer timer (\<lambda>t. t\<lparr>t_pre := 0, t_nxt := 0\<rparr>) (k\<lparr>ptTimerHead := timer, ptTimerTail := timer\<rparr>))
      else
        let k = upd_timer timer (\<lambda>t. t\<lparr>t_pre := ptTimerTail k, t_nxt := 0\<rparr>) k
        in if ptTimerTail k = 0 then None
           else Some ((upd_timer (ptTimerTail k) (\<lambda>t. t\<lparr>t_nxt := timer\<rparr>) k)\<lparr>ptTimerTail := timer\<rparr>))"

definition Timer_Add :: "u32 \<Rightarrow> 'a tkernel_scheme \<Rightarrow> 'a tkernel_scheme option" where
  "Timer_Add timer k =
     (if ptTimerHead k = 0 then
        Some (upd_timer timer (\<lambda>t. t\<lparr>t_pre := 0, t_nxt := 0\<rparr>) (k\<lparr>ptTimerHead := timer, ptTimerTail := timer\<rparr>))
      else do {
        tmp \<leftarrow> add_walk k (t_deadline (timers k timer)) (ptTimerHead k);
        if tmp = 0 then
          (let k = upd_timer timer (\<lambda>t. t\<lparr>t_pre := ptTimerTail k, t_nxt := 0\<rparr>) k
           in if ptTimerTail k = 0 then None
              else Some ((upd_timer (ptTimerTail k) (\<lambda>t. t\<lparr>t_nxt := timer\<rparr>) k)\<lparr>ptTimerTail := timer\<rparr>))
        else
          let k = upd_timer timer (\<lambda>t. t\<lparr>t_pre := t_pre (timers k tmp), t_nxt := tmp\<rparr>) k;
              k = (if t_pre (timers k tmp) \<noteq> 0 then upd_timer (t_pre (timers k tmp)) (\<lambda>t. t\<lparr>t_nxt := timer\<rparr>) k
                   else k\<lparr>ptTimerHead := timer\<rparr>)
          in Some (upd_timer tmp (\<lambda>t. t\<lparr>t_pre := timer\<rparr>) k) })"

definition Timer_ChkTimeout :: "u32 \<Rightarrow> int \<Rightarrow> 'a tkernel_scheme \<Rightarrow> bool" where
  "Timer_ChkTimeout timer timenow k \<longleftrightarrow> t_deadline (timers k timer) - uint (s_u32TimerPrecision k) < timenow"

text \<open>The end of a period: what \<open>__Timer_DealTimeout\<close> does with a timer that is due.\<close>

definition timer_fire :: "'a tkernel_scheme timer_env \<Rightarrow> u32 \<Rightarrow> int \<Rightarrow> 'a tkernel_scheme \<Rightarrow> 'a tkernel_scheme option" where
  "timer_fire H timer timenow k = do {
     k \<leftarrow> Timer_Remove timer k;
     k \<leftarrow> (if t_reload (timers k timer)
           then Timer_Add timer (upd_timer timer (\<lambda>t. t\<lparr>t_deadline := timenow + uint (t_cycle t)\<rparr>) k)
           else Timer_AddLast timer (upd_timer timer (\<lambda>t. t\<lparr>t_stat := t_stat t AND NOT CN_TIMER_ENCOUNT, t_deadline := CN_TIMER_ALARMNEVER\<rparr>) k));
     Some (Timer_ExeAlarmHandler H timer k) }"

partial_function (option) deal_loop :: "'a tkernel_scheme timer_env \<Rightarrow> u32 \<Rightarrow> 'a tkernel_scheme \<Rightarrow> ('a tkernel_scheme \<times> u32) option" where
  "deal_loop H timer k =
     (if timer = 0 then Some (k, CN_TIMEOUT_FOREVER)
      else if t_running (timers k timer) then
        (let (k, timenow) = Timer_Get64Time H k
         in if Timer_ChkTimeout timer timenow k then do {
              k \<leftarrow> timer_fire H timer timenow k;
              deal_loop H (ptTimerHead k) k }
            else Some (k, word_of_int (t_deadline (timers k timer) - timenow)))
      else Some (k, CN_TIMEOUT_FOREVER))"

definition Timer_DealTimeout :: "'a tkernel_scheme timer_env \<Rightarrow> 'a tkernel_scheme \<Rightarrow> ('a tkernel_scheme \<times> u32) option" where
  "Timer_DealTimeout H k = deal_loop H (ptTimerHead k) k"

definition GetTclkCycle :: "'k timer_env \<Rightarrow> u32 \<Rightarrow> 'a tkernel_scheme \<Rightarrow> u32" where
  "GetTclkCycle H waittime k =
     (let result = te_scale H waittime (s_u32TimerFreq k) in if result < s_u32Precision2Tclk k then s_u32Precision2Tclk k else result)"

definition Timer_ISR :: "'a tkernel_scheme timer_env \<Rightarrow> 'a tkernel_scheme \<Rightarrow> 'a tkernel_scheme option" where
  "Timer_ISR H k = do {
     let k = HardTimer_Ctrl (sgHardTimerDefault k) EN_TIMER_PAUSECOUNT k;
     (k, waittime) \<leftarrow> Timer_DealTimeout H k;
     if waittime \<noteq> CN_TIMEOUT_FOREVER then
       (let waittime = GetTclkCycle H waittime k;
            k = HardTimer_Ctrl (sgHardTimerDefault k) (EN_TIMER_SETCYCLE waittime) k
        in Some (HardTimer_Ctrl (sgHardTimerDefault k) EN_TIMER_STARTCOUNT k))
     else Some k }"

section \<open>The interface\<close>

definition EN_TIMER_SOFT_START :: u32 where "EN_TIMER_SOFT_START = 0"
definition EN_TIMER_SOFT_STOP :: u32 where "EN_TIMER_SOFT_STOP = 1"
definition EN_TIMER_SOFT_SETCYCLE :: u32 where "EN_TIMER_SOFT_SETCYCLE = 2"
definition EN_TIMER_SOFT_SETRELOAD :: u32 where "EN_TIMER_SOFT_SETRELOAD = 3"

text \<open>The statements with which every operation ends under the mutex.  The source calls \<open>__GetTclkCycle\<close> here, too, but drops its result.\<close>

definition deal_and_post ::
    "'a tkernel_scheme stack_env \<Rightarrow> 'a tkernel_scheme timer_env \<Rightarrow> 'a tkernel_scheme \<Rightarrow> 'a tkernel_scheme option" where
  "deal_and_post E H k = do {
     (k, waittime) \<leftarrow> Timer_DealTimeout H k;
     let k = (if waittime \<noteq> CN_TIMEOUT_FOREVER
              then let k = HardTimer_Ctrl (sgHardTimerDefault k) (EN_TIMER_SETCYCLE waittime) k
                   in HardTimer_Ctrl (sgHardTimerDefault k) EN_TIMER_STARTCOUNT k
              else k);
     Lock_MutexPost E (ptTimerQSync k) k }"

text \<open>The mutex around an operation \<open>f\<close>: \<open>no\<close> is the result when it is refused.  When the call waits, \<open>f\<close> follows once the caller owns the mutex.\<close>

definition timer_locked ::
    "'a tkernel_scheme stack_env \<Rightarrow> 'r \<Rightarrow> ('a tkernel_scheme \<Rightarrow> ('a tkernel_scheme \<times> 'r) option) \<Rightarrow> 'a tkernel_scheme \<Rightarrow>
     ('a tkernel_scheme \<times> 'r call) option" where
  "timer_locked E no f k = do {
     (k, r) \<leftarrow> Lock_MutexPend E (ptTimerQSync k) CN_TIMEOUT_FOREVER k;
     case r of
       Blocked \<Rightarrow> Some (k, Blocked)
     | Ret False \<Rightarrow> Some (k, Ret no)
     | Ret True \<Rightarrow> do {
         (k, result) \<leftarrow> f (HardTimer_Ctrl (sgHardTimerDefault k) EN_TIMER_PAUSECOUNT k);
         Some (k, Ret result) } }"

definition create_owned ::
    "'a tkernel_scheme stack_env \<Rightarrow> 'a tkernel_scheme timer_env \<Rightarrow> u32 \<Rightarrow> string \<Rightarrow> u32 \<Rightarrow> u32 \<Rightarrow> 'a tkernel_scheme \<Rightarrow> ('a tkernel_scheme \<times> u32) option" where
  "create_owned E H timer name cycle isr k = do {
     let k = upd_timer timer (\<lambda>t. t\<lparr>t_name := name, t_cycle := cycle, t_isr := isr, t_deadline := CN_TIMER_ALARMNEVER, t_stat := CN_TIMER_RELOAD\<rparr>) k;
     k \<leftarrow> Timer_AddLast timer k;
     k \<leftarrow> deal_and_post E H k;
     Some (k, timer) }"

definition Timer_Create_s ::
    "'a tkernel_scheme stack_env \<Rightarrow> 'a tkernel_scheme timer_env \<Rightarrow> u32 \<Rightarrow> string \<Rightarrow> u32 \<Rightarrow> u32 \<Rightarrow> 'a tkernel_scheme \<Rightarrow> ('a tkernel_scheme \<times> u32 call) option" where
  "Timer_Create_s E H timer name cycle isr k =
     (if timer = 0 then Some (k, Ret 0) else timer_locked E 0 (create_owned E H timer name cycle isr) k)"

definition delete_owned ::
    "'a tkernel_scheme stack_env \<Rightarrow> 'a tkernel_scheme timer_env \<Rightarrow> u32 \<Rightarrow> 'a tkernel_scheme \<Rightarrow> ('a tkernel_scheme \<times> u32) option" where
  "delete_owned E H timer k = do {
     k \<leftarrow> Timer_Remove timer k;
     k \<leftarrow> deal_and_post E H k;
     Some (k, timer) }"

definition Timer_Delete_s ::
    "'a tkernel_scheme stack_env \<Rightarrow> 'a tkernel_scheme timer_env \<Rightarrow> u32 \<Rightarrow> 'a tkernel_scheme \<Rightarrow> ('a tkernel_scheme \<times> u32 call) option" where
  "Timer_Delete_s E H timer k = (if timer = 0 then Some (k, Ret 0) else timer_locked E 0 (delete_owned E H timer) k)"

definition Timer_Create ::
    "'a tkernel_scheme stack_env \<Rightarrow> 'a tkernel_scheme heap_env \<Rightarrow> 'a tkernel_scheme timer_env \<Rightarrow> string \<Rightarrow> u32 \<Rightarrow> u32 \<Rightarrow> 'a tkernel_scheme \<Rightarrow>
     ('a tkernel_scheme \<times> u32 call) option" where
  "Timer_Create E M H name cycle isr k = do {
     (k, r) \<leftarrow> Mb_Malloc E M (ptTimerMemPool k) CN_TIMEOUT_FOREVER k;
     case r of
       Blocked \<Rightarrow> Some (k, Blocked)
     | Ret timer \<Rightarrow>
         if timer = 0 then Some (k, Ret 0)
         else do {
           (k, r) \<leftarrow> Timer_Create_s E H timer name cycle isr k;
           if r = Ret 0 then do {
             k \<leftarrow> Mb_Free E (ptTimerMemPool k) timer k;
             Some (k, r) }
           else Some (k, r) } }"

definition Timer_IsRunning :: "u32 \<Rightarrow> 'a tkernel_scheme \<Rightarrow> bool" where
  "Timer_IsRunning timer k = (if timer = 0 then False else if t_running (timers k timer) then True else False)"

definition Timer_Delete ::
    "'a tkernel_scheme stack_env \<Rightarrow> 'a tkernel_scheme timer_env \<Rightarrow> u32 \<Rightarrow> 'a tkernel_scheme \<Rightarrow> ('a tkernel_scheme \<times> bool call) option" where
  "Timer_Delete E H timer k = do {
     (k', r) \<leftarrow> Timer_Delete_s E H timer k;
     case r of
       Blocked \<Rightarrow> Some (k', Blocked)
     | Ret result \<Rightarrow>
         if result \<noteq> 0 then
           still k (\<lambda>k. do {
             k \<leftarrow> Mb_Free E (ptTimerMemPool k) timer k;
             Some (k, Ret True) }) k'
         else Some (k', Ret False) }"

definition ctrl_switch ::
    "'a tkernel_scheme timer_env \<Rightarrow> u32 \<Rightarrow> u32 \<Rightarrow> u32 \<Rightarrow> 'a tkernel_scheme \<Rightarrow> ('a tkernel_scheme \<times> bool) option" where
  "ctrl_switch H timer opcode para k =
     (if opcode = EN_TIMER_SOFT_START then
        if \<not> t_running (timers k timer) then do {
          let k = upd_timer timer (\<lambda>t. t\<lparr>t_stat := t_stat t OR CN_TIMER_ENCOUNT\<rparr>) k;
          let (k, timenow) = Timer_Get64Time H k;
          let k = upd_timer timer (\<lambda>t. t\<lparr>t_deadline := timenow + uint (t_cycle t)\<rparr>) k;
          k \<leftarrow> Timer_Remove timer k;
          k \<leftarrow> Timer_Add timer k;
          Some (k, True) }
        else Some (k, True)
      else if opcode = EN_TIMER_SOFT_STOP then
        if t_running (timers k timer) then do {
          let k = upd_timer timer (\<lambda>t. t\<lparr>t_stat := t_stat t AND NOT CN_TIMER_ENCOUNT, t_deadline := CN_TIMER_ALARMNEVER\<rparr>) k;
          k \<leftarrow> Timer_Remove timer k;
          k \<leftarrow> Timer_AddLast timer k;
          Some (k, True) }
        else Some (k, True)
      else if opcode = EN_TIMER_SOFT_SETCYCLE then do {
        let k = upd_timer timer (\<lambda>t. t\<lparr>t_cycle := para\<rparr>) k;
        if t_running (timers k timer) then do {
          let (k, timenow) = Timer_Get64Time H k;
          let k = upd_timer timer (\<lambda>t. t\<lparr>t_deadline := timenow + uint (t_cycle t)\<rparr>) k;
          k \<leftarrow> Timer_Remove timer k;
          k \<leftarrow> Timer_Add timer k;
          Some (k, True) }
        else Some (k, True) }
      else if opcode = EN_TIMER_SOFT_SETRELOAD then
        Some (if para \<noteq> 0 then upd_timer timer (\<lambda>t. t\<lparr>t_stat := t_stat t OR CN_TIMER_RELOAD\<rparr>) k
              else upd_timer timer (\<lambda>t. t\<lparr>t_stat := t_stat t AND NOT CN_TIMER_RELOAD\<rparr>) k, True)
      else Some (k, False))"

definition ctrl_owned ::
    "'a tkernel_scheme stack_env \<Rightarrow> 'a tkernel_scheme timer_env \<Rightarrow> u32 \<Rightarrow> u32 \<Rightarrow> u32 \<Rightarrow> 'a tkernel_scheme \<Rightarrow> ('a tkernel_scheme \<times> bool) option" where
  "ctrl_owned E H timer opcode para k = do {
     (k, result) \<leftarrow> ctrl_switch H timer opcode para k;
     k \<leftarrow> deal_and_post E H k;
     Some (k, result) }"

definition Timer_Ctrl ::
    "'a tkernel_scheme stack_env \<Rightarrow> 'a tkernel_scheme timer_env \<Rightarrow> u32 \<Rightarrow> u32 \<Rightarrow> u32 \<Rightarrow> 'a tkernel_scheme \<Rightarrow> ('a tkernel_scheme \<times> bool call) option" where
  "Timer_Ctrl E H timer opcode para k =
     (if timer \<noteq> 0 then timer_locked E False (ctrl_owned E H timer opcode para) k else Some (k, Ret False))"

definition Timer_SetTag :: "u32 \<Rightarrow> u32 \<Rightarrow> 'a tkernel_scheme \<Rightarrow> 'a tkernel_scheme \<times> bool" where
  "Timer_SetTag timer Tag k = (if timer \<noteq> 0 then (upd_timer timer (\<lambda>t. t\<lparr>TimerTag := Tag\<rparr>) k, True) else (k, False))"

definition Timer_GetTag :: "u32 \<Rightarrow> 'a tkernel_scheme \<Rightarrow> u32" where
  "Timer_GetTag timer k = (if timer \<noteq> 0 then TimerTag (timers k timer) else 0)"

definition Timer_GetName :: "u32 \<Rightarrow> 'a tkernel_scheme \<Rightarrow> string option" where
  "Timer_GetName timer k = (if timer \<noteq> 0 then Some (t_name (timers k timer)) else None)"

text \<open>The start: \<open>mem\<close> is the static array of timers of size \<open>sz\<close>, \<open>blk\<close> the block of \<open>Lock_MutexCreate\<close> from the pool \<open>lockpool\<close>, \<open>mclk\<close> the clock of the
  processor and \<open>prec\<close> the quotient \<open>1E9/CN_CFG_MCLK\<close>, computed in floating point.  The configured limit is 5 timers.\<close>

definition CFG_TIMERS_LIMIT :: u32 where "CFG_TIMERS_LIMIT = 5"

definition install_hard :: "'a tkernel_scheme timer_env \<Rightarrow> u32 \<Rightarrow> u32 \<Rightarrow> 'a tkernel_scheme \<Rightarrow> 'a tkernel_scheme" where
  "install_hard H mclk prec k =
     (let k = k\<lparr>s_u32TimerPrecision := prec\<rparr>;
          k = (if s_u32TimerPrecision k = 0 then k\<lparr>s_u32TimerPrecision := 1\<rparr> else k);
          k = k\<lparr>s_u32TimerFreq := s_u32TimerPrecision k * mclk div 1000000\<rparr>;
          k = k\<lparr>s_u32Precision2Tclk := HardTimer_GetFreq H (sgHardTimerDefault k) k\<rparr>;
          k = k\<lparr>s_u32Precision2Tclk := te_scale H (s_u32Precision2Tclk k) (s_u32TimerFreq k)\<rparr>;
          k = HardTimer_Ctrl (sgHardTimerDefault k) EN_TIMER_ENINT k
      in HardTimer_Ctrl (sgHardTimerDefault k) (EN_TIMER_SETRELOAD False) k)"

definition ModuleInstall_Timer ::
    "'a tkernel_scheme stack_env \<Rightarrow> 'a tkernel_scheme heap_env \<Rightarrow> 'a tkernel_scheme timer_env \<Rightarrow> u32 \<Rightarrow> u32 \<Rightarrow> nat option \<Rightarrow> u32 \<Rightarrow> u32 \<Rightarrow>
     u32 \<Rightarrow> 'a tkernel_scheme \<Rightarrow> ('a tkernel_scheme \<times> bool call) option" where
  "ModuleInstall_Timer E M H mem sz blk mclk prec lockpool k = do {
     (k, r) \<leftarrow> Mb_CreatePool E M mem CFG_TIMERS_LIMIT sz 0 0 ''Timer'' k;
     case r of
       Blocked \<Rightarrow> Some (k, Blocked)
     | Ret pool \<Rightarrow> do {
         let k = k\<lparr>ptTimerMemPool := pool\<rparr>;
         if pool = 0 then do {
           k \<leftarrow> he_free M mem k;
           Some (k, Ret False) }
         else do {
           let (k, m) = Lock_MutexCreate blk ''Timer'' k;
           let k = k\<lparr>ptTimerQSync := m\<rparr>;
           (k, ok) \<leftarrow>
             (if m = None then Some (k, False)
              else do {
                let k = k\<lparr>sgHardTimerDefault := HardTimer_Alloc H k\<rparr>;
                if sgHardTimerDefault k = 0 \<or> sgHardTimerDefault k = -1 then do {
                  (k, _) \<leftarrow> Lock_MutexDelete E lockpool (ptTimerQSync k) k;
                  Some (k, False) }
                else Some (install_hard H mclk prec k, True) });
           if ok then Some (k, Ret True)
           else do {
             (k, _) \<leftarrow> Mb_DeletePool E M (ptTimerMemPool k) k;
             k \<leftarrow> he_free M mem k;
             Some (k, Ret False) } } } }"

section \<open>The queue as a list\<close>

fun hd0 :: "u32 list \<Rightarrow> u32 \<Rightarrow> u32" where
  "hd0 [] y = y"
| "hd0 (t # ts) y = t"

definition last0 :: "u32 \<Rightarrow> u32 list \<Rightarrow> u32" where "last0 x ts = (if ts = [] then x else last ts)"

text \<open>\<open>tseg n p x ts y\<close>: the pointers lead through \<open>ts\<close>; before it is \<open>x\<close>, behind it \<open>y\<close>.\<close>

fun tseg :: "(u32 \<Rightarrow> u32) \<Rightarrow> (u32 \<Rightarrow> u32) \<Rightarrow> u32 \<Rightarrow> u32 list \<Rightarrow> u32 \<Rightarrow> bool" where
  "tseg n p x [] y \<longleftrightarrow> True"
| "tseg n p x (t # ts) y \<longleftrightarrow> p t = x \<and> n t = hd0 ts y \<and> tseg n p t ts y"

lemma hd0_append: "hd0 (as @ bs) y = hd0 as (hd0 bs y)"
  by (cases as) simp_all

lemma tseg_append: "tseg n p x (as @ bs) y \<longleftrightarrow> tseg n p x as (hd0 bs y) \<and> tseg n p (last0 x as) bs y"
  by (induction as arbitrary: x) (auto simp: last0_def hd0_append)

lemma tseg_cong: "(\<And>t. t \<in> set ts \<Longrightarrow> n t = n' t \<and> p t = p' t) \<Longrightarrow> tseg n p x ts y = tseg n' p' x ts y"
  by (induction ts arbitrary: x) auto

lemma tseg_end:
  assumes "tseg n p x as y" "distinct as" "\<And>z. z \<in> set as \<Longrightarrow> p' z = p z \<and> (z \<noteq> last as \<longrightarrow> n' z = n z)" "as \<noteq> [] \<Longrightarrow> n' (last as) = y'"
  shows "tseg n' p' x as y'"
  using assms
proof (induction as arbitrary: x)
  case (Cons a as)
  show ?case
  proof (cases "as = []")
    case False
    have "last as \<in> set as" using False by simp
    then have "a \<noteq> last as" using Cons.prems(2) by auto
    then have "n' a = n a" using Cons.prems(3) [of a] False by simp
    moreover have "hd0 as y = hd0 as y'" using False by (cases as) simp_all
    moreover have "tseg n' p' a as y'" by (rule Cons.IH) (use Cons.prems False in auto)
    ultimately show ?thesis using Cons.prems(1,3) by auto
  qed (use Cons.prems in auto)
qed simp

lemma tseg_start:
  assumes "tseg n p x bs y" "distinct bs" "\<And>z. z \<in> set bs \<Longrightarrow> n' z = n z \<and> (z \<noteq> hd bs \<longrightarrow> p' z = p z)" "bs \<noteq> [] \<Longrightarrow> p' (hd bs) = x'"
  shows "tseg n' p' x' bs y"
proof (cases bs)
  case (Cons b bs')
  have "tseg n' p' b bs' y = tseg n p b bs' y" by (rule tseg_cong) (use assms(2,3) Cons in auto)
  then show ?thesis using assms Cons by simp
qed simp

definition tn :: "'a tkernel_scheme \<Rightarrow> u32 \<Rightarrow> u32" where "tn k t = t_nxt (timers k t)"
definition tp :: "'a tkernel_scheme \<Rightarrow> u32 \<Rightarrow> u32" where "tp k t = t_pre (timers k t)"
definition td :: "'a tkernel_scheme \<Rightarrow> u32 \<Rightarrow> int" where "td k t = t_deadline (timers k t)"

definition tq :: "'a tkernel_scheme \<Rightarrow> u32 list \<Rightarrow> bool" where
  "tq k ts \<longleftrightarrow> distinct ts \<and> 0 \<notin> set ts \<and> tseg (tn k) (tp k) 0 ts 0 \<and> ptTimerHead k = hd0 ts 0 \<and> ptTimerTail k = last0 0 ts"

text \<open>The operations on the queue change links only.\<close>

definition t_data :: "tagTimer \<Rightarrow> tagTimer" where "t_data t = t\<lparr>t_pre := 0, t_nxt := 0\<rparr>"

definition links :: "'a tkernel_scheme \<Rightarrow> 'a tkernel_scheme \<Rightarrow> bool" where
  "links k k' \<longleftrightarrow> (\<exists>ts h l. k' = k\<lparr>timers := ts, ptTimerHead := h, ptTimerTail := l\<rparr> \<and> (\<forall>t. t_data (ts t) = t_data (timers k t)))"

lemma t_data_eq:
  "t_data a = t_data b \<longleftrightarrow> t_name a = t_name b \<and> t_cycle a = t_cycle b \<and> t_isr a = t_isr b \<and> t_stat a = t_stat b \<and> TimerTag a = TimerTag b \<and>
     t_deadline a = t_deadline b"
  by (cases a, cases b) (simp add: t_data_def)

lemma linksI: "\<lbrakk>k' = k\<lparr>timers := timers k', ptTimerHead := ptTimerHead k', ptTimerTail := ptTimerTail k'\<rparr>; \<And>t. t_data (timers k' t) = t_data (timers k t)\<rbrakk> \<Longrightarrow> links k k'"
  unfolding links_def by blast

lemma links_trans: "links k k1 \<Longrightarrow> links k1 k2 \<Longrightarrow> links k k2"
  unfolding links_def by fastforce

lemma linksD:
  assumes "links k k'"
  shows "t_data (timers k' t) = t_data (timers k t)" "t_stat (timers k' t) = t_stat (timers k t)" "td k' t = td k t"
    "t_cycle (timers k' t) = t_cycle (timers k t)" "t_isr (timers k' t) = t_isr (timers k t)" "s_u32TimerPrecision k' = s_u32TimerPrecision k"
    "readings k' = readings k" "hard_ops k' = hard_ops k" "s_tHardTimerChip k' = s_tHardTimerChip k" "sgHardTimerDefault k' = sgHardTimerDefault k"
    "ptTimerQSync k' = ptTimerQSync k"
  using assms by (auto simp: links_def td_def t_data_eq)

lemma upd_timer_sel:
  "timers (upd_timer t f k) = (timers k)(t := f (timers k t))" "ptTimerHead (upd_timer t f k) = ptTimerHead k" "ptTimerTail (upd_timer t f k) = ptTimerTail k"
  by (simp_all add: upd_timer_def)

lemma links_timer: "(\<And>t. t_data (f t) = t_data t) \<Longrightarrow> links k (upd_timer x f k)"
  by (rule linksI) (simp_all add: upd_timer_def)

lemma links_ends [simp]: "links k (k\<lparr>ptTimerHead := h\<rparr>)" "links k (k\<lparr>ptTimerTail := h\<rparr>)" "links k (k\<lparr>ptTimerHead := h, ptTimerTail := l\<rparr>)"
  by (rule linksI; simp)+

lemma links_set [simp]:
  "links k (upd_timer t (\<lambda>x. x\<lparr>t_pre := v\<rparr>) k)" "links k (upd_timer t (\<lambda>x. x\<lparr>t_nxt := v\<rparr>) k)" "links k (upd_timer t (\<lambda>x. x\<lparr>t_pre := v, t_nxt := w\<rparr>) k)"
  by (rule links_timer; simp add: t_data_def)+

lemma links_set_ends [simp]:
  "links k (upd_timer t (\<lambda>x. x\<lparr>t_pre := v\<rparr>) (k\<lparr>ptTimerHead := h\<rparr>))" "links k (upd_timer t (\<lambda>x. x\<lparr>t_nxt := v\<rparr>) (k\<lparr>ptTimerTail := h\<rparr>))"
  "links k (upd_timer t (\<lambda>x. x\<lparr>t_pre := v, t_nxt := w\<rparr>) (k\<lparr>ptTimerHead := h, ptTimerTail := l\<rparr>))"
proof -
  show "links k (upd_timer t (\<lambda>x. x\<lparr>t_pre := v\<rparr>) (k\<lparr>ptTimerHead := h\<rparr>))" by (rule links_trans [OF links_ends(1) links_set(1)])
  show "links k (upd_timer t (\<lambda>x. x\<lparr>t_nxt := v\<rparr>) (k\<lparr>ptTimerTail := h\<rparr>))" by (rule links_trans [OF links_ends(2) links_set(2)])
  show "links k (upd_timer t (\<lambda>x. x\<lparr>t_pre := v, t_nxt := w\<rparr>) (k\<lparr>ptTimerHead := h, ptTimerTail := l\<rparr>))"
    by (rule links_trans [OF links_ends(3) links_set(3)])
qed

lemma set_sel [simp]:
  "tn (upd_timer t (\<lambda>x. x\<lparr>t_pre := v\<rparr>) k) = tn k" "tp (upd_timer t (\<lambda>x. x\<lparr>t_pre := v\<rparr>) k) = (tp k)(t := v)"
  "tn (upd_timer t (\<lambda>x. x\<lparr>t_nxt := v\<rparr>) k) = (tn k)(t := v)" "tp (upd_timer t (\<lambda>x. x\<lparr>t_nxt := v\<rparr>) k) = tp k"
  "tn (upd_timer t (\<lambda>x. x\<lparr>t_pre := v, t_nxt := w\<rparr>) k) = (tn k)(t := w)" "tp (upd_timer t (\<lambda>x. x\<lparr>t_pre := v, t_nxt := w\<rparr>) k) = (tp k)(t := v)"
  "tn (k\<lparr>ptTimerHead := h\<rparr>) = tn k" "tp (k\<lparr>ptTimerHead := h\<rparr>) = tp k" "tn (k\<lparr>ptTimerTail := h\<rparr>) = tn k" "tp (k\<lparr>ptTimerTail := h\<rparr>) = tp k"
  by (auto simp: tn_def tp_def upd_timer_def)

lemma hd0_ne [simp]: "ts \<noteq> [] \<Longrightarrow> hd0 ts y = hd ts"
  by (cases ts) simp_all

lemma tq_remove:
  assumes "tq k (as @ t # bs)"
  shows "\<exists>k'. Timer_Remove t k = Some k' \<and> tq k' (as @ bs) \<and> links k k'"
proof -
  have d: "distinct (as @ t # bs)" "0 \<notin> set (as @ t # bs)" and h: "ptTimerHead k = hd0 (as @ t # bs) 0" "ptTimerTail k = last0 0 (as @ t # bs)"
    using assms by (auto simp: tq_def)
  have s: "tseg (tn k) (tp k) 0 as t" "tp k t = last0 0 as" "tn k t = hd0 bs 0" "tseg (tn k) (tp k) t bs 0"
    using assms by (auto simp: tq_def tseg_append)
  have tl: "ptTimerTail k = last0 t bs" using h(2) by (simp add: last0_def)
  have la: "last as \<in> set as" if "as \<noteq> []" using that by simp
  have hb: "hd0 bs 0 = hd bs" "hd bs \<in> set bs" if "bs \<noteq> []" using that by (cases bs; simp)+
  have lb: "last bs \<in> set bs" if "bs \<noteq> []" using that by simp
  have ha: "hd0 (as @ ts) y = hd as" "hd as \<in> set as" if "as \<noteq> []" for ts y using that by (cases as; simp)+
  have nz: "last as \<noteq> 0" "last as \<noteq> t" "hd as \<noteq> t" if "as \<noteq> []" using la [OF that] hd_in_set [OF that] d by (force, force, force)
  have nb: "hd bs \<noteq> 0" "last bs \<noteq> t" "hd bs \<noteq> t" if "bs \<noteq> []" using lb [OF that] hd_in_set [OF that] d by (force, force, force)
  consider "as = []" "bs = []" | "as = []" "bs \<noteq> []" | "as \<noteq> []" "bs = []" | "as \<noteq> []" "bs \<noteq> []" by blast
  then show ?thesis
  proof cases
    case 1
    then show ?thesis using h by (simp add: Timer_Remove_def tq_def last0_def)
  next
    case 2
    have ne: "ptTimerTail k \<noteq> t" using 2 tl nb by (simp add: last0_def)
    have "tseg (tn k) ((tp k)(hd bs := 0)) 0 bs 0" by (rule tseg_start [OF s(4)]) (use d(1) in auto)
    then show ?thesis using 2 h(1) ne nb hb d s(3) tl
      by (auto simp: Timer_Remove_def tq_def tn_def [symmetric] Let_def last0_def upd_timer_sel)
  next
    case 3
    have ne: "ptTimerHead k \<noteq> t" using 3 h(1) ha nz by simp
    have "tseg ((tn k)(last as := 0)) (tp k) 0 as 0" by (rule tseg_end [OF s(1)]) (use d(1) in auto)
    then show ?thesis using 3 h ne ha nz d s(2) tl
      by (auto simp: Timer_Remove_def tq_def tp_def [symmetric] Let_def last0_def upd_timer_sel hd0_append)
  next
    case 4
    have ne: "ptTimerHead k \<noteq> t" "ptTimerTail k \<noteq> t" using 4 h(1) ha tl nz nb by (simp_all add: last0_def)
    have pn: "tp k t = last as" "tn k t = hd bs" "last as \<noteq> 0" "hd bs \<noteq> 0" "last as \<noteq> t" "hd bs \<noteq> last as"
      using 4 s(2,3) nz nb by (simp_all add: last0_def) (use 4 d(1) la hd_in_set [of bs] in force)
    have lab: "last as \<notin> set bs" using la [OF 4(1)] d(1) by force
    let ?k1 = "upd_timer (last as) (\<lambda>x. x\<lparr>t_nxt := hd bs\<rparr>) k"
    let ?k2 = "upd_timer (hd bs) (\<lambda>x. x\<lparr>t_pre := last as\<rparr>) ?k1"
    have "tp ?k1 t = last as" "tn ?k1 t = hd bs" using pn by simp_all
    then have "Timer_Remove t k = Some ?k2" using ne pn by (simp add: Timer_Remove_def Let_def tp_def tn_def upd_timer_sel)
    moreover have "tseg (tn ?k2) (tp ?k2) 0 as (hd0 bs 0)" by (rule tseg_end [OF s(1)]) (use d(1) hb 4 in auto)
    moreover have "tseg (tn ?k2) (tp ?k2) (last as) bs 0" by (rule tseg_start [OF s(4)]) (use d(1) lab 4 in auto)
    moreover have "links k ?k2" by (rule links_trans [of _ ?k1]) simp_all
    ultimately show ?thesis using 4 d h tl by (auto simp: tq_def tseg_append upd_timer_sel last0_def hd0_append)
  qed
qed

lemma tq_add_last:
  assumes "tq k ts" "t \<noteq> 0" "t \<notin> set ts"
  shows "\<exists>k'. Timer_AddLast t k = Some k' \<and> tq k' (ts @ [t]) \<and> links k k'"
proof (cases "ts = []")
  case True
  then show ?thesis using assms
    by (auto simp: Timer_AddLast_def tq_def last0_def upd_timer_sel)
next
  case False
  have h: "ptTimerHead k = hd ts" "hd ts \<in> set ts" "ptTimerTail k = last ts" "last ts \<in> set ts" "0 \<notin> set ts" "distinct ts" "tseg (tn k) (tp k) 0 ts 0"
    using assms(1) False by (cases ts; auto simp: tq_def last0_def)+
  let ?k1 = "upd_timer t (\<lambda>x. x\<lparr>t_pre := last ts, t_nxt := 0\<rparr>) k"
  let ?k2 = "upd_timer (last ts) (\<lambda>x. x\<lparr>t_nxt := t\<rparr>) ?k1"
  let ?k3 = "?k2\<lparr>ptTimerTail := t\<rparr>"
  have ne: "last ts \<noteq> 0" "last ts \<noteq> t" "hd ts \<noteq> 0" using h assms(3) by auto
  then have "Timer_AddLast t k = Some ?k3" using h by (simp add: Timer_AddLast_def Let_def upd_timer_sel)
  moreover have "tseg (tn ?k3) (tp ?k3) 0 ts t" by (rule tseg_end [OF h(7,6)]) (use assms(3) in auto)
  moreover have "links k ?k3" by (rule links_trans [of _ ?k1], simp, rule links_trans [of _ ?k2]) simp_all
  ultimately show ?thesis using False h ne assms(2,3)
    by (auto simp: tq_def tseg_append upd_timer_sel last0_def hd0_append)
qed

lemma add_walk_rep:
  "tseg (tn k) p x ts 0 \<Longrightarrow> 0 \<notin> set ts \<Longrightarrow> add_walk k d (hd0 ts 0) = Some (hd0 (dropWhile (\<lambda>t. td k t < d) ts) 0)"
proof (induction ts arbitrary: x)
  case Nil
  then show ?case by (simp add: add_walk.simps)
next
  case (Cons t ts)
  then show ?case by (auto simp: add_walk.simps [of k d t] td_def tn_def)
qed

lemma tq_insert:
  assumes q: "tq k (as @ b # bs)" and t: "t \<noteq> 0" "t \<notin> set (as @ b # bs)"
  defines "k1 \<equiv> upd_timer t (\<lambda>x. x\<lparr>t_pre := tp k b, t_nxt := b\<rparr>) k"
  defines "k2 \<equiv> if tp k b \<noteq> 0 then upd_timer (tp k b) (\<lambda>x. x\<lparr>t_nxt := t\<rparr>) k1 else k1\<lparr>ptTimerHead := t\<rparr>"
  defines "k3 \<equiv> upd_timer b (\<lambda>x. x\<lparr>t_pre := t\<rparr>) k2"
  shows "tq k3 (as @ t # b # bs)" "links k k3"
proof -
  have d: "distinct (as @ b # bs)" "0 \<notin> set (as @ b # bs)" and h: "ptTimerHead k = hd0 (as @ b # bs) 0" "ptTimerTail k = last0 0 (as @ b # bs)"
    using q by (auto simp: tq_def)
  have s: "tseg (tn k) (tp k) 0 as b" "tseg (tn k) (tp k) (last0 0 as) (b # bs) 0" "tp k b = last0 0 as"
    using q by (auto simp: tq_def tseg_append)
  show "links k k3"
  proof -
    have "links k k1" "links k1 k2" "links k2 k3" by (simp_all add: k1_def k2_def k3_def)
    then show ?thesis by (blast intro: links_trans)
  qed
  have b: "t \<noteq> b" "b \<noteq> 0" using t d by auto
  show "tq k3 (as @ t # b # bs)"
  proof (cases "as = []")
    case True
    have "tseg (tn k3) (tp k3) t (b # bs) 0"
      by (rule tseg_start [OF s(2)]) (use True d t s(3) in \<open>auto simp: k3_def k2_def k1_def last0_def\<close>)
    then show ?thesis using True d t b s(3) h by (auto simp: tq_def k3_def k2_def k1_def last0_def upd_timer_sel)
  next
    case False
    have l: "last as \<in> set as" using False by simp
    then have ne: "last as \<noteq> 0" "last as \<noteq> t" "last as \<noteq> b" using d t by force+
    have p: "tp k b = last as" using s(3) False by (simp add: last0_def)
    have "tseg (tn k3) (tp k3) 0 as t"
      by (rule tseg_end [OF s(1)]) (use d t ne p in \<open>auto simp: k3_def k2_def k1_def\<close>)
    moreover have "tseg (tn k3) (tp k3) t (b # bs) 0"
      by (rule tseg_start [OF s(2)]) (use d t ne p l in \<open>auto simp: k3_def k2_def k1_def\<close>)
    moreover have "tp k3 t = last as" "tn k3 t = b" using b ne p by (simp_all add: k3_def k2_def k1_def)
    ultimately show ?thesis using False d t b h p ne by (auto simp: tq_def tseg_append k3_def k2_def k1_def last0_def upd_timer_sel)
  qed
qed

lemma tq_add:
  assumes q: "tq k ts" and t: "t \<noteq> 0" "t \<notin> set ts"
  shows "\<exists>k'. Timer_Add t k = Some k' \<and> tq k' (walk_insert (\<lambda>x. td k x < td k t) t ts) \<and> links k k'"
proof (cases "ts = []")
  case True
  then show ?thesis using assms
    by (auto simp: Timer_Add_def tq_def last0_def upd_timer_sel walk_insert_def)
next
  case False
  let ?P = "\<lambda>x. td k x < td k t" and ?as = "takeWhile (\<lambda>x. td k x < td k t) ts" and ?bs = "dropWhile (\<lambda>x. td k x < td k t) ts"
  have h: "ptTimerHead k = hd ts" "hd ts \<in> set ts" "0 \<notin> set ts" using q False by (auto simp: tq_def)
  then have nz: "ptTimerHead k \<noteq> 0" by auto
  have w: "add_walk k (td k t) (ptTimerHead k) = Some (hd0 ?bs 0)"
    using add_walk_rep [of k "tp k" 0 ts "td k t"] q by (simp add: tq_def)
  show ?thesis
  proof (cases ?bs)
    case Nil
    then have "\<forall>x\<in>set ts. ?P x" by (simp add: dropWhile_eq_Nil_conv)
    then have "walk_insert ?P t ts = ts @ [t]" by (simp add: walk_insert_def takeWhile_eq_all_conv)
    moreover have "add_walk k (t_deadline (timers k t)) (ptTimerHead k) = Some 0" using w [unfolded Nil] by (simp add: td_def)
    then have "Timer_Add t k = Timer_AddLast t k" using nz by (simp add: Timer_Add_def Timer_AddLast_def)
    ultimately show ?thesis using tq_add_last [OF q t] by simp
  next
    case (Cons b bs)
    have sp: "ts = ?as @ b # bs" by (metis Cons takeWhile_dropWhile_id)
    have b: "b \<noteq> 0" "b \<noteq> t" using sp h(3) t(2) by (metis in_set_conv_decomp)+
    let ?k1 = "upd_timer t (\<lambda>x. x\<lparr>t_pre := tp k b, t_nxt := b\<rparr>) k"
    let ?k2 = "if tp k b \<noteq> 0 then upd_timer (tp k b) (\<lambda>x. x\<lparr>t_nxt := t\<rparr>) ?k1 else ?k1\<lparr>ptTimerHead := t\<rparr>"
    have "t_pre (timers ?k1 b) = tp k b" using b by (simp add: tp_def upd_timer_sel)
    moreover have "add_walk k (t_deadline (timers k t)) (ptTimerHead k) = Some b" using w [unfolded Cons] by (simp add: td_def)
    ultimately have "Timer_Add t k = Some (upd_timer b (\<lambda>x. x\<lparr>t_pre := t\<rparr>) ?k2)"
      using nz b unfolding Timer_Add_def by (simp add: Let_def tp_def)
    moreover have "walk_insert ?P t ts = ?as @ t # b # bs" by (simp add: walk_insert_def Cons)
    moreover have "tq k (?as @ b # bs)" "t \<notin> set (?as @ b # bs)" using q t(2) sp by simp_all
    ultimately show ?thesis using tq_insert [of k ?as b bs t] t(1) by simp
  qed
qed

section \<open>Alarms\<close>

text \<open>The invariant of the queue: running timers come first, in the order of their deadlines, then the stopped ones.\<close>

definition timer_inv :: "'a tkernel_scheme \<Rightarrow> u32 list \<Rightarrow> bool" where
  "timer_inv k ts \<longleftrightarrow> tq k ts \<and> sorted (map (td k) ts) \<and>
     (\<forall>t\<in>set ts. td k t \<le> CN_TIMER_ALARMNEVER \<and> (t_running (timers k t) \<longleftrightarrow> td k t \<noteq> CN_TIMER_ALARMNEVER))"

text \<open>Handlers that keep to the state of the application.\<close>

definition quiet_handlers :: "'a tkernel_scheme timer_env \<Rightarrow> bool" where
  "quiet_handlers H \<longleftrightarrow> (\<forall>i t k. \<exists>m. te_isr H i t k = tkernel.more_update (\<lambda>_. m) k)"

definition fired_timer :: "int \<Rightarrow> tagTimer \<Rightarrow> tagTimer" where
  "fired_timer now t = (if t_reload t then t\<lparr>t_deadline := now + uint (t_cycle t)\<rparr>
     else t\<lparr>t_stat := t_stat t AND NOT CN_TIMER_ENCOUNT, t_deadline := CN_TIMER_ALARMNEVER\<rparr>)"

definition tframe :: "'a tkernel_scheme \<Rightarrow> 'a tkernel_scheme \<Rightarrow> bool" where
  "tframe k k' \<longleftrightarrow> (\<exists>ts h l r a m. k' = tkernel.more_update (\<lambda>_. m) (k\<lparr>timers := ts, ptTimerHead := h, ptTimerTail := l, readings := r, alarms := a\<rparr>))"

lemma tframe_trans: "tframe k k1 \<Longrightarrow> tframe k1 k2 \<Longrightarrow> tframe k k2"
proof -
  assume "tframe k k1" "tframe k1 k2"
  then obtain ts h l r a m ts' h' l' r' a' m' where
    "k1 = tkernel.more_update (\<lambda>_. m) (k\<lparr>timers := ts, ptTimerHead := h, ptTimerTail := l, readings := r, alarms := a\<rparr>)"
    "k2 = tkernel.more_update (\<lambda>_. m') (k1\<lparr>timers := ts', ptTimerHead := h', ptTimerTail := l', readings := r', alarms := a'\<rparr>)"
    unfolding tframe_def by (elim exE)
  then have "k2 = tkernel.more_update (\<lambda>_. m') (k\<lparr>timers := ts', ptTimerHead := h', ptTimerTail := l', readings := r', alarms := a'\<rparr>)" by simp
  then show ?thesis unfolding tframe_def by blast
qed

lemma tframe_intros:
  "tframe k k" "links k k' \<Longrightarrow> tframe k k'" "tframe k (upd_timer t f k)" "tframe k (k\<lparr>readings := r\<rparr>)" "tframe k (k\<lparr>alarms := a\<rparr>)"
  "tframe k (tkernel.more_update (\<lambda>_. m) k)"
  by (cases k, auto simp: tframe_def links_def upd_timer_def)+

lemma tframeD:
  assumes "tframe k k'"
  shows "s_u32TimerPrecision k' = s_u32TimerPrecision k" "hard_ops k' = hard_ops k" "s_tHardTimerChip k' = s_tHardTimerChip k"
    "sgHardTimerDefault k' = sgHardTimerDefault k" "ptTimerQSync k' = ptTimerQSync k" "ptTimerMemPool k' = ptTimerMemPool k"
    "s_u32TimerFreq k' = s_u32TimerFreq k" "s_u32Precision2Tclk k' = s_u32Precision2Tclk k"
  using assms by (auto simp: tframe_def)

lemma sorted_walk_insert_strict:
  assumes "sorted (map f xs)"
  shows "sorted (map f (walk_insert (\<lambda>x. f x < f e) e xs))"
  using assms
proof (induction xs)
  case (Cons x xs)
  then show ?case by (auto simp: walk_insert_def dest: set_takeWhileD set_dropWhileD)
qed (simp add: walk_insert_def)

lemma filter_walk_insert: "\<not> Q e \<Longrightarrow> filter Q (walk_insert P e xs) = filter Q xs"
  unfolding walk_insert_def by (metis filter.simps(2) filter_append takeWhile_dropWhile_id)

lemma t_data_sel:
  assumes "t_data a = t_data b"
  shows "t_stat a = t_stat b" "t_deadline a = t_deadline b" "t_cycle a = t_cycle b" "t_isr a = t_isr b"
  using assms by (simp_all add: t_data_eq)

lemma stopped [simp]: "\<not> t_running (t\<lparr>t_stat := s AND NOT CN_TIMER_ENCOUNT\<rparr>)" "(s AND NOT CN_TIMER_ENCOUNT) AND CN_TIMER_ENCOUNT = 0"
  by (simp_all add: and.assoc)

lemma timer_inv_cong:
  assumes "tq k' ts'" "set ts' \<subseteq> set ts" "sorted (map (td k') ts')" "\<And>t. t \<in> set ts \<Longrightarrow> t \<noteq> x \<Longrightarrow> t_data (timers k' t) = t_data (timers k t)"
    "timer_inv k ts" "td k' x \<le> CN_TIMER_ALARMNEVER" "t_running (timers k' x) \<longleftrightarrow> td k' x \<noteq> CN_TIMER_ALARMNEVER"
  shows "timer_inv k' ts'"
proof -
  have "td k' t \<le> CN_TIMER_ALARMNEVER \<and> (t_running (timers k' t) \<longleftrightarrow> td k' t \<noteq> CN_TIMER_ALARMNEVER)" if "t \<in> set ts'" for t
  proof (cases "t = x")
    case False
    then have "t_stat (timers k' t) = t_stat (timers k t)" "td k' t = td k t" using t_data_sel [OF assms(4)] that assms(2) by (auto simp: td_def)
    then show ?thesis using assms(2,5) that by (auto simp: timer_inv_def)
  qed (use assms(6,7) in simp)
  then show ?thesis using assms(1,3) by (simp add: timer_inv_def)
qed

lemma tq_data:
  assumes "\<And>t. t_pre (f t) = t_pre t \<and> t_nxt (f t) = t_nxt t" "tq k ts"
  shows "tq (upd_timer x f k) ts"
proof -
  have "tn (upd_timer x f k) = tn k" "tp (upd_timer x f k) = tp k" using assms(1) by (auto simp: tn_def tp_def upd_timer_def)
  then show ?thesis using assms(2) by (simp add: tq_def upd_timer_sel)
qed

lemma tq_other [simp]:
  "tq (k\<lparr>readings := r\<rparr>) ts = tq k ts" "tq (k\<lparr>alarms := a\<rparr>) ts = tq k ts" "tq (tkernel.more_update (\<lambda>_. m) k) ts = tq k ts" "tq (k\<lparr>hard_ops := o'\<rparr>) ts = tq k ts"
  by (simp_all add: tq_def tn_def [abs_def] tp_def [abs_def])

lemma handler_rep:
  assumes "quiet_handlers H"
  shows "\<exists>m. Timer_ExeAlarmHandler H t k = tkernel.more_update (\<lambda>_. m) (k\<lparr>alarms := alarms k @ (if t_isr (timers k t) \<noteq> 0 then [t] else [])\<rparr>)"
proof (cases "t_isr (timers k t) = 0")
  case True
  then show ?thesis by (intro exI [of _ "tkernel.more k"]) (simp add: Timer_ExeAlarmHandler_def)
next
  case False
  then show ?thesis using assms unfolding quiet_handlers_def Timer_ExeAlarmHandler_def by simp
qed

lemma fire_move:
  assumes q: "tq k (t # qs)" and f: "\<And>x. t_pre (f x) = t_pre x \<and> t_nxt (f x) = t_nxt x"
    and m: "\<And>k'. tq k' qs \<Longrightarrow> \<exists>k2. m k' = Some k2 \<and> tq k2 (Q k') \<and> links k' k2"
    and r: "Timer_Remove t k = Some k1"
  shows "\<exists>k2. m (upd_timer t f k1) = Some k2 \<and> tq k2 (Q (upd_timer t f k1)) \<and> tframe k k2 \<and> readings k2 = readings k \<and> alarms k2 = alarms k \<and>
    (\<forall>x. t_data (timers k2 x) = t_data (if x = t then f (timers k1 t) else timers k x)) \<and> t_data (timers k1 t) = t_data (timers k t) \<and>
    (\<forall>x. td (upd_timer t f k1) x = (if x = t then t_deadline (f (timers k1 t)) else td k x))"
proof -
  have k1: "tq k1 qs" "links k k1" using tq_remove [of k "[]" t qs] q r by auto
  let ?k = "upd_timer t f k1"
  obtain k2 where k2: "m ?k = Some k2" "tq k2 (Q ?k)" "links ?k k2" using m [OF tq_data [OF f k1(1), of t]] by blast
  have "t_data (timers k2 x) = t_data (if x = t then f (timers k1 t) else timers k x)" for x
    using linksD(1) [OF k2(3), of x] linksD(1) [OF k1(2), of x] by (simp add: upd_timer_sel)
  moreover have "tframe k k2" by (rule tframe_trans [OF tframe_intros(2) [OF k1(2)] tframe_trans [OF tframe_intros(3) tframe_intros(2) [OF k2(3)]]])
  moreover have "readings k2 = readings k" using linksD(7) [OF k2(3)] linksD(7) [OF k1(2)] by (simp add: upd_timer_def)
  moreover have "alarms k2 = alarms k" using k2(3) k1(2) by (auto simp: links_def upd_timer_def)
  moreover have "td ?k x = (if x = t then t_deadline (f (timers k1 t)) else td k x)" for x
    using linksD(3) [OF k1(2), of x] by (simp add: td_def upd_timer_sel)
  ultimately show ?thesis using k2 linksD(1) [OF k1(2), of t] by blast
qed

lemma fire_queue:
  assumes inv: "timer_inv k (t # qs)" "t_running (timers k t)" and now: "now + uint (t_cycle (timers k t)) < CN_TIMER_ALARMNEVER"
  defines "qs' \<equiv> if t_reload (timers k t) then walk_insert (\<lambda>x. td k x < now + uint (t_cycle (timers k t))) t qs else qs @ [t]"
  shows "\<exists>k1 k2. Timer_Remove t k = Some k1 \<and>
     (if t_reload (timers k1 t)
      then Timer_Add t (upd_timer t (\<lambda>t. t\<lparr>t_deadline := now + uint (t_cycle t)\<rparr>) k1)
      else Timer_AddLast t (upd_timer t (\<lambda>t. t\<lparr>t_stat := t_stat t AND NOT CN_TIMER_ENCOUNT, t_deadline := CN_TIMER_ALARMNEVER\<rparr>) k1)) = Some k2 \<and>
     timer_inv k2 qs' \<and> tframe k k2 \<and> readings k2 = readings k \<and> alarms k2 = alarms k \<and>
     (\<forall>x. t_data (timers k2 x) = t_data (if x = t then fired_timer now (timers k t) else timers k x))"
proof -
  have q: "tq k (t # qs)" "sorted (map (td k) qs)" "\<forall>x\<in>set qs. td k x \<le> CN_TIMER_ALARMNEVER" using inv(1) by (auto simp: timer_inv_def)
  have t: "t \<noteq> 0" "t \<notin> set qs" using q(1) by (auto simp: tq_def)
  obtain k1 where k1: "Timer_Remove t k = Some k1" "links k k1" using tq_remove [of k "[]" t qs] q(1) by auto
  have L: "t_reload (timers k1 t) \<longleftrightarrow> t_reload (timers k t)" "t_cycle (timers k1 t) = t_cycle (timers k t)" using linksD(2,4) [OF k1(2)] by simp_all
  have inv2: "timer_inv k2 qs'" if k2: "tq k2 qs'" "\<forall>x. t_data (timers k2 x) = t_data (if x = t then fired_timer now (timers k t) else timers k x)" for k2
  proof (rule timer_inv_cong [OF k2(1) _ _ _ inv(1), of t])
    have d: "td k2 x = (if x = t then t_deadline (fired_timer now (timers k t)) else td k x)" for x
      using t_data_sel(2) [OF k2(2) [rule_format, of x]] by (simp add: td_def)
    have "map (td k2) qs = map (td k) qs" using t(2) by (auto simp: d)
    then have "sorted (map (td k2) qs)" using q(2) by (simp only:)
    then show "sorted (map (td k2) qs')"
    proof (cases "t_reload (timers k t)")
      case True
      have "qs' = walk_insert (\<lambda>x. td k2 x < td k2 t) t qs"
        using True t(2) unfolding qs'_def by (auto simp: d fired_timer_def intro!: walk_insert_cong)
      then show ?thesis using sorted_walk_insert_strict [OF \<open>sorted (map (td k2) qs)\<close>, of t] by simp
    next
      case False
      then show ?thesis using q(3) t(2) \<open>sorted (map (td k2) qs)\<close> by (auto simp: qs'_def sorted_append d fired_timer_def)
    qed
    show "td k2 t \<le> CN_TIMER_ALARMNEVER" using now by (simp add: d fired_timer_def)
    have "t_stat (timers k2 t) = t_stat (fired_timer now (timers k t))" using t_data_sel(1) [OF k2(2) [rule_format, of t]] by simp
    then show "t_running (timers k2 t) \<longleftrightarrow> td k2 t \<noteq> CN_TIMER_ALARMNEVER"
      using now inv unfolding d by (auto simp: fired_timer_def timer_inv_def td_def)
    show "set qs' \<subseteq> set (t # qs)" by (auto simp: qs'_def)
    show "\<And>x. x \<in> set (t # qs) \<Longrightarrow> x \<noteq> t \<Longrightarrow> t_data (timers k2 x) = t_data (timers k x)" using k2(2) by simp
  qed
  have fd: "t_data (f a) = t_data (f b)" if "t_data a = t_data b"
    "f = (\<lambda>t. t\<lparr>t_deadline := now + uint (t_cycle t)\<rparr>) \<or> f = (\<lambda>t. t\<lparr>t_stat := t_stat t AND NOT CN_TIMER_ENCOUNT, t_deadline := CN_TIMER_ALARMNEVER\<rparr>)" for a b f
    using that by (auto simp: t_data_eq)
  show ?thesis
  proof (cases "t_reload (timers k t)")
    case True
    let ?f = "\<lambda>t. t\<lparr>t_deadline := now + uint (t_cycle t)\<rparr>"
    have m: "\<exists>k2. Timer_Add t k' = Some k2 \<and> tq k2 (walk_insert (\<lambda>x. td k' x < td k' t) t qs) \<and> links k' k2" if "tq k' qs" for k'
      using tq_add [OF that t] .
    obtain k2 where k2: "Timer_Add t (upd_timer t ?f k1) = Some k2" "tq k2 (walk_insert (\<lambda>x. td (upd_timer t ?f k1) x < td (upd_timer t ?f k1) t) t qs)"
        "tframe k k2" "readings k2 = readings k" "alarms k2 = alarms k" "\<forall>x. t_data (timers k2 x) = t_data (if x = t then ?f (timers k1 t) else timers k x)"
        "t_data (timers k1 t) = t_data (timers k t)" "\<forall>x. td (upd_timer t ?f k1) x = (if x = t then t_deadline (?f (timers k1 t)) else td k x)"
      using fire_move [OF q(1) _ m k1(1), of ?f] by auto
    have d: "\<forall>x. t_data (timers k2 x) = t_data (if x = t then fired_timer now (timers k t) else timers k x)"
      using k2(6) fd [OF k2(7), of ?f] True by (simp add: fired_timer_def)
    have "walk_insert (\<lambda>x. td (upd_timer t ?f k1) x < td (upd_timer t ?f k1) t) t qs = qs'"
      using True t(2) L(2) k2(8) unfolding qs'_def by (auto intro: walk_insert_cong)
    then have "timer_inv k2 qs'" using inv2 k2(2) d by simp
    then show ?thesis using k1(1) k2(1,3-5) d True L(1) by (intro exI [of _ k1] exI [of _ k2]) simp
  next
    case False
    let ?f = "\<lambda>t. t\<lparr>t_stat := t_stat t AND NOT CN_TIMER_ENCOUNT, t_deadline := CN_TIMER_ALARMNEVER\<rparr>"
    have m: "\<exists>k2. Timer_AddLast t k' = Some k2 \<and> tq k2 (qs @ [t]) \<and> links k' k2" if "tq k' qs" for k'
      using tq_add_last [OF that t] .
    obtain k2 where k2: "Timer_AddLast t (upd_timer t ?f k1) = Some k2" "tq k2 (qs @ [t])"
        "tframe k k2" "readings k2 = readings k" "alarms k2 = alarms k" "\<forall>x. t_data (timers k2 x) = t_data (if x = t then ?f (timers k1 t) else timers k x)"
        "t_data (timers k1 t) = t_data (timers k t)"
      using fire_move [OF q(1) _ m k1(1), of ?f] by auto
    have d: "\<forall>x. t_data (timers k2 x) = t_data (if x = t then fired_timer now (timers k t) else timers k x)"
      using k2(6) fd [OF k2(7), of ?f] False by (simp add: fired_timer_def)
    then have "timer_inv k2 qs'" using inv2 k2(2) False by (simp add: qs'_def)
    then show ?thesis using k1(1) k2(1,3-5) d False L(1) by (intro exI [of _ k1] exI [of _ k2]) simp
  qed
qed

lemma timer_inv_other [simp]:
  "timer_inv (k\<lparr>readings := r\<rparr>) ts = timer_inv k ts" "timer_inv (tkernel.more_update (\<lambda>_. m) (k\<lparr>alarms := a\<rparr>)) ts = timer_inv k ts"
  "timer_inv (k\<lparr>hard_ops := b\<rparr>) ts = timer_inv k ts"
  by (simp_all add: timer_inv_def td_def [abs_def])

lemma timer_fire_rep:
  assumes "timer_inv k (t # qs)" "t_running (timers k t)" "now + uint (t_cycle (timers k t)) < CN_TIMER_ALARMNEVER" "quiet_handlers H"
  defines "qs' \<equiv> if t_reload (timers k t) then walk_insert (\<lambda>x. td k x < now + uint (t_cycle (timers k t))) t qs else qs @ [t]"
  shows "\<exists>k'. timer_fire H t now k = Some k' \<and> timer_inv k' qs' \<and> tframe k k' \<and> readings k' = readings k \<and>
     alarms k' = alarms k @ (if t_isr (timers k t) \<noteq> 0 then [t] else []) \<and>
     (\<forall>x. t_data (timers k' x) = t_data (if x = t then fired_timer now (timers k t) else timers k x))"
proof -
  obtain k1 k2 where k2: "Timer_Remove t k = Some k1"
     "(if t_reload (timers k1 t)
      then Timer_Add t (upd_timer t (\<lambda>t. t\<lparr>t_deadline := now + uint (t_cycle t)\<rparr>) k1)
      else Timer_AddLast t (upd_timer t (\<lambda>t. t\<lparr>t_stat := t_stat t AND NOT CN_TIMER_ENCOUNT, t_deadline := CN_TIMER_ALARMNEVER\<rparr>) k1)) = Some k2"
     "timer_inv k2 qs'" "tframe k k2" "readings k2 = readings k" "alarms k2 = alarms k"
     "\<forall>x. t_data (timers k2 x) = t_data (if x = t then fired_timer now (timers k t) else timers k x)"
    using fire_queue [OF assms(1-3), folded qs'_def] by blast
  obtain m where m: "Timer_ExeAlarmHandler H t k2 = tkernel.more_update (\<lambda>_. m) (k2\<lparr>alarms := alarms k2 @ (if t_isr (timers k2 t) \<noteq> 0 then [t] else [])\<rparr>)"
    using handler_rep [OF assms(4)] by blast
  have "t_isr (timers k2 t) = t_isr (timers k t)" using t_data_sel(4) [OF k2(7) [rule_format, of t]] by (simp add: fired_timer_def)
  moreover have "timer_fire H t now k = Some (Timer_ExeAlarmHandler H t k2)" using k2(1,2) by (simp add: timer_fire_def)
  ultimately show ?thesis using k2 m tframe_trans [OF k2(4) tframe_trans [OF tframe_intros(5) tframe_intros(6)]] by simp
qed

text \<open>The timers that may still fire during a call: \<open>F\<close> are those that fired already.\<close>

definition cand :: "'a tkernel_scheme \<Rightarrow> u32 set \<Rightarrow> u32 list \<Rightarrow> u32 list" where
  "cand k F qs = filter (\<lambda>t. t \<notin> F \<and> t_running (timers k t)) qs"

text \<open>The readings of the clock during a call lie between \<open>T\<close> and \<open>T + d\<close>, and no period is shorter than the precision and the time of the call.\<close>

definition deal_pre :: "'a tkernel_scheme timer_env \<Rightarrow> int \<Rightarrow> int \<Rightarrow> nat \<Rightarrow> 'a tkernel_scheme \<Rightarrow> u32 list \<Rightarrow> bool" where
  "deal_pre H T d n k qs \<longleftrightarrow> quiet_handlers H \<and> 0 \<le> d \<and> T + d < 2 ^ 62 \<and>
     (\<forall>i. readings k \<le> i \<and> i \<le> readings k + n \<longrightarrow> T \<le> te_time H i \<and> te_time H i \<le> T + d) \<and>
     (\<forall>t\<in>set qs. t_reload (timers k t) \<longrightarrow> uint (s_u32TimerPrecision k) + d \<le> uint (t_cycle (timers k t)))"

definition dealt :: "int \<Rightarrow> int \<Rightarrow> u32 set \<Rightarrow> 'a tkernel_scheme \<Rightarrow> u32 list \<Rightarrow> 'a tkernel_scheme \<Rightarrow> u32 list \<Rightarrow> u32 list \<Rightarrow> bool" where
  "dealt T d F k qs k' qs' W \<longleftrightarrow> timer_inv k' qs' \<and> set qs' = set qs \<and> tframe k k' \<and>
     alarms k' = alarms k @ filter (\<lambda>t. t_isr (timers k t) \<noteq> 0) W \<and> (\<exists>n. W = take n (filter (\<lambda>t. t \<notin> F) qs)) \<and>
     (\<forall>t\<in>set W. t_running (timers k t) \<and> td k t - uint (s_u32TimerPrecision k) < T + d \<and>
        (\<exists>now. T \<le> now \<and> now \<le> T + d \<and> t_data (timers k' t) = t_data (fired_timer now (timers k t)))) \<and>
     (\<forall>t. t \<notin> set W \<longrightarrow> t_data (timers k' t) = t_data (timers k t)) \<and>
     (\<forall>t\<in>set qs. t \<notin> set W \<and> t \<notin> F \<and> t_running (timers k t) \<longrightarrow> T \<le> td k t - uint (s_u32TimerPrecision k))"

text \<open>The time until the next alarm.\<close>

definition wait_ok :: "int \<Rightarrow> int \<Rightarrow> 'a tkernel_scheme \<Rightarrow> u32 list \<Rightarrow> u32 \<Rightarrow> bool" where
  "wait_ok T d k qs w \<longleftrightarrow>
     (if qs \<noteq> [] \<and> t_running (timers k (hd qs))
      then \<exists>now. T \<le> now \<and> now \<le> T + d \<and> uint (s_u32TimerPrecision k) \<le> td k (hd qs) - now \<and> w = word_of_int (td k (hd qs) - now)
      else w = CN_TIMEOUT_FOREVER)"

lemma fired_cong: "t_data a = t_data b \<Longrightarrow> t_data (fired_timer now a) = t_data (fired_timer now b)"
  by (auto simp: fired_timer_def t_data_eq)

lemma t_data_reload [simp]: "t_stat (fired_timer now t) AND CN_TIMER_RELOAD = 0 \<longleftrightarrow> t_stat t AND CN_TIMER_RELOAD = 0" "t_cycle (fired_timer now t) = t_cycle t"
proof -
  have "NOT CN_TIMER_ENCOUNT AND CN_TIMER_RELOAD = CN_TIMER_RELOAD" by (simp add: CN_TIMER_ENCOUNT_def CN_TIMER_RELOAD_def)
  then show "t_stat (fired_timer now t) AND CN_TIMER_RELOAD = 0 \<longleftrightarrow> t_stat t AND CN_TIMER_RELOAD = 0" "t_cycle (fired_timer now t) = t_cycle t" by (simp_all add: fired_timer_def and.assoc)
qed

lemma deal_stop:
  assumes inv: "timer_inv k qs" and pre: "deal_pre H T d n k qs"
    and no: "\<not> (qs \<noteq> [] \<and> t_running (timers k (hd qs)) \<and> Timer_ChkTimeout (hd qs) (te_time H (readings k)) k)"
  shows "\<exists>k' w. deal_loop H (hd0 qs 0) k = Some (k', w) \<and> dealt T d F k qs k' qs [] \<and> wait_ok T d k' qs w"
proof (cases "qs \<noteq> [] \<and> t_running (timers k (hd qs))")
  case False
  have "hd0 qs 0 = 0 \<or> \<not> t_running (timers k (hd0 qs 0))" using False by (cases qs) auto
  then have "deal_loop H (hd0 qs 0) k = Some (k, CN_TIMEOUT_FOREVER)" by (auto simp: deal_loop.simps)
  moreover have "\<not> t_running (timers k t)" if tq: "t \<in> set qs" for t
  proof -
    obtain h hs where qs: "qs = h # hs" using tq by (cases qs) auto
    then have "td k h = CN_TIMER_ALARMNEVER" using False inv by (auto simp: timer_inv_def)
    then have "td k t = CN_TIMER_ALARMNEVER" using inv tq qs by (fastforce simp: timer_inv_def)
    then show ?thesis using inv tq by (auto simp: timer_inv_def)
  qed
  then have "dealt T d F k qs k qs []" using inv by (auto simp: dealt_def tframe_intros)
  ultimately show ?thesis using False by (auto simp: wait_ok_def)
next
  case True
  then obtain h hs where qs: "qs = h # hs" and r: "t_running (timers k h)" by (cases qs) auto
  let ?k = "k\<lparr>readings := Suc (readings k)\<rparr>" and ?now = "te_time H (readings k)"
  have h0: "h \<noteq> 0" using inv qs by (auto simp: timer_inv_def tq_def)
  have now: "T \<le> ?now" "?now \<le> T + d" using pre by (auto simp: deal_pre_def)
  have nt: "?now \<le> td k h - uint (s_u32TimerPrecision k)" using no qs r by (simp add: Timer_ChkTimeout_def td_def)
  have "deal_loop H h k = Some (?k, word_of_int (td k h - ?now))"
    using h0 r nt by (simp add: deal_loop.simps Timer_Get64Time_def Timer_ChkTimeout_def td_def)
  moreover have "T \<le> td k t - uint (s_u32TimerPrecision k)" if "t \<in> set qs" for t
  proof -
    have "td k h \<le> td k t" using that inv qs by (auto simp: timer_inv_def)
    then show ?thesis using nt now(1) by linarith
  qed
  then have "dealt T d F k qs ?k qs []" using inv by (auto simp: dealt_def tframe_intros)
  moreover have "wait_ok T d ?k qs (word_of_int (td k h - ?now))"
    using qs r now nt by (auto simp: wait_ok_def td_def intro!: exI [of _ ?now])
  ultimately show ?thesis using qs by auto
qed

lemma dealt_Cons:
  assumes t: "t \<notin> F" "t \<notin> set qs" "t_running (timers k t)" and now: "td k t - uint (s_u32TimerPrecision k) < now" "T \<le> now" "now \<le> T + d"
    and k1: "tframe k k1" "alarms k1 = alarms k @ (if t_isr (timers k t) \<noteq> 0 then [t] else [])" "set qs1 = insert t (set qs)"
      "filter (\<lambda>x. x \<notin> insert t F) qs1 = filter (\<lambda>x. x \<notin> F) qs"
      "\<forall>x. t_data (timers k1 x) = t_data (if x = t then fired_timer now (timers k t) else timers k x)"
    and IH: "dealt T d (insert t F) k1 qs1 k' qs' W"
  shows "dealt T d F k (t # qs) k' qs' (t # W)"
proof -
  note I = IH [unfolded dealt_def]
  have W: "\<exists>n. W = take n (filter (\<lambda>x. x \<notin> F) qs)" using I k1(4) by simp
  then have tW: "t \<notin> set W" using t(2) by (auto dest: in_set_takeD)
  have same: "t_stat (timers k1 x) = t_stat (timers k x)" "td k1 x = td k x" "t_isr (timers k1 x) = t_isr (timers k x)"
      "t_data (timers k1 x) = t_data (timers k x)" if "x \<noteq> t" for x
    using t_data_sel [OF k1(5) [rule_format, of x]] k1(5) that by (simp_all add: td_def)
  have p: "s_u32TimerPrecision k1 = s_u32TimerPrecision k" using tframeD(1) [OF k1(1)] .
  have "filter (\<lambda>x. t_isr (timers k1 x) \<noteq> 0) W = filter (\<lambda>x. t_isr (timers k x) \<noteq> 0) W" 
    by (rule filter_cong [OF refl]) (use same(3) tW in metis)
  then have "alarms k' = alarms k @ filter (\<lambda>x. t_isr (timers k x) \<noteq> 0) (t # W)" using I k1(2) by auto
  moreover have "\<exists>n. t # W = take n (filter (\<lambda>x. x \<notin> F) (t # qs))" using W t(1) by (metis filter.simps(2) take_Suc_Cons)
  moreover have "tframe k k'" using tframe_trans [OF k1(1)] I by blast
  moreover have "t_running (timers k x) \<and> td k x - uint (s_u32TimerPrecision k) < T + d \<and>
      (\<exists>now. T \<le> now \<and> now \<le> T + d \<and> t_data (timers k' x) = t_data (fired_timer now (timers k x)))" if "x \<in> set (t # W)" for x
  proof (cases "x = t")
    case True
    have "t_data (timers k' t) = t_data (fired_timer now (timers k t))" using I tW k1(5) by simp
    then show ?thesis using True t(3) now by auto
  next
    case False
    then have "t_running (timers k1 x) \<and> td k1 x - uint (s_u32TimerPrecision k1) < T + d \<and>
      (\<exists>now. T \<le> now \<and> now \<le> T + d \<and> t_data (timers k' x) = t_data (fired_timer now (timers k1 x)))" using I that by simp
    then show ?thesis using same [OF False] p fired_cong [OF same(4) [OF False]] by simp
  qed
  moreover have "t_data (timers k' x) = t_data (timers k x)" if "x \<notin> set (t # W)" for x using I same(4) [of x] that by simp
  moreover have "T \<le> td k x - uint (s_u32TimerPrecision k)" if "x \<in> set (t # qs)" "x \<notin> set (t # W)" "x \<notin> F" "t_running (timers k x)" for x
  proof -
    have x: "x \<noteq> t" "x \<in> set qs1" "x \<notin> insert t F" "x \<notin> set W" "t_running (timers k1 x)" using that k1(3) same(1) [of x] by auto
    then have "T \<le> td k1 x - uint (s_u32TimerPrecision k1)" using I by blast
    then show ?thesis using same(2) [OF x(1)] p by simp
  qed
  ultimately show ?thesis using I k1(3) unfolding dealt_def by simp
qed

lemma deal_loop_rep:
  assumes "timer_inv k qs" "deal_pre H T d n k qs" "length (cand k F qs) \<le> n"
    "\<forall>t\<in>F. t_running (timers k t) \<longrightarrow> T + d \<le> td k t - uint (s_u32TimerPrecision k)"
  shows "\<exists>k' w qs' W. deal_loop H (hd0 qs 0) k = Some (k', w) \<and> dealt T d F k qs k' qs' W \<and> wait_ok T d k' qs' w"
  using assms
proof (induction n arbitrary: k qs F)
  case 0
  have "\<not> (qs \<noteq> [] \<and> t_running (timers k (hd qs)) \<and> Timer_ChkTimeout (hd qs) (te_time H (readings k)) k)"
  proof
    assume *: "qs \<noteq> [] \<and> t_running (timers k (hd qs)) \<and> Timer_ChkTimeout (hd qs) (te_time H (readings k)) k"
    then have "hd qs \<in> F" using 0(3) by (cases qs) (auto simp: cand_def split: if_splits)
    then have "T + d \<le> td k (hd qs) - uint (s_u32TimerPrecision k)" using 0(4) * by blast
    moreover have "te_time H (readings k) \<le> T + d" using 0(2) by (simp add: deal_pre_def)
    ultimately show False using * by (simp add: Timer_ChkTimeout_def td_def)
  qed
  then show ?case using deal_stop [OF 0(1,2)] by blast
next
  case (Suc n)
  show ?case
  proof (cases "qs \<noteq> [] \<and> t_running (timers k (hd qs)) \<and> Timer_ChkTimeout (hd qs) (te_time H (readings k)) k")
    case False
    then show ?thesis using deal_stop [OF Suc.prems(1,2)] by blast
  next
    case True
    then obtain t hs where qs: "qs = t # hs" and r: "t_running (timers k t)" by (cases qs) auto
    let ?k = "k\<lparr>readings := Suc (readings k)\<rparr>" and ?now = "te_time H (readings k)"
    have P: "quiet_handlers H" "0 \<le> d" "T + d < 2 ^ 62" "T \<le> ?now" "?now \<le> T + d"
        "t_reload (timers k t) \<longrightarrow> uint (s_u32TimerPrecision k) + d \<le> uint (t_cycle (timers k t))"
      using Suc.prems(2) qs by (simp_all add: deal_pre_def)
    have t0: "t \<noteq> 0" "t \<notin> set hs" using Suc.prems(1) qs by (auto simp: timer_inv_def tq_def)
    have ex: "td k t - uint (s_u32TimerPrecision k) < ?now" using True qs by (simp add: Timer_ChkTimeout_def td_def)
    then have tF: "t \<notin> F" using Suc.prems(4) r P(5) by fastforce
    have "uint (t_cycle (timers k t)) < 2 ^ 32" using uint_lt2p [of "t_cycle (timers k t)"] by simp
    then have c: "?now + uint (t_cycle (timers k t)) < CN_TIMER_ALARMNEVER" using P(3,5) by (simp add: CN_TIMER_ALARMNEVER_def)
    define qs1 where "qs1 = (if t_reload (timers ?k t) then walk_insert (\<lambda>x. td ?k x < ?now + uint (t_cycle (timers ?k t))) t hs else hs @ [t])"
    have tk: "timers ?k = timers k" "alarms ?k = alarms k" "readings ?k = Suc (readings k)" by simp_all
    have "timer_inv ?k (t # hs)" using Suc.prems(1) qs by simp
    then obtain k1 where k1: "timer_fire H t ?now ?k = Some k1" "timer_inv k1 qs1" "tframe ?k k1" "readings k1 = Suc (readings k)"
        "alarms k1 = alarms k @ (if t_isr (timers k t) \<noteq> 0 then [t] else [])"
        "\<forall>x. t_data (timers k1 x) = t_data (if x = t then fired_timer ?now (timers k t) else timers k x)"
      using timer_fire_rep [of ?k t hs ?now H, folded qs1_def] r c P(1) unfolding tk by blast
    have loop: "deal_loop H (hd0 qs 0) k = deal_loop H (hd0 qs1 0) k1"
    proof -
      have "ptTimerHead k1 = hd0 qs1 0" using k1(2) by (simp add: timer_inv_def tq_def)
      then show ?thesis using t0(1) r ex k1(1) qs by (simp add: deal_loop.simps [of H t k] Timer_Get64Time_def Timer_ChkTimeout_def td_def)
    qed
    have fr: "tframe k k1" using tframe_trans [OF tframe_intros(4) k1(3)] .
    have s1: "set qs1 = insert t (set hs)" by (auto simp: qs1_def)
    have f1: "filter Q qs1 = filter Q hs" if "\<not> Q t" for Q using that by (simp add: qs1_def filter_walk_insert)
    have sel: "t_stat (timers k1 x) = t_stat (if x = t then fired_timer ?now (timers k t) else timers k x)"
        "td k1 x = t_deadline (if x = t then fired_timer ?now (timers k t) else timers k x)"
        "t_cycle (timers k1 x) = t_cycle (timers k x)" "t_reload (timers k1 x) \<longleftrightarrow> t_reload (timers k x)" for x
      using t_data_sel [OF k1(6) [rule_format, of x]] by (simp_all add: td_def)
    have p: "s_u32TimerPrecision k1 = s_u32TimerPrecision k" using tframeD(1) [OF fr] .
    have "deal_pre H T d n k1 qs1" using Suc.prems(2) k1(4) s1 sel(3,4) p qs by (simp add: deal_pre_def)
    moreover have "length (cand k1 (insert t F) qs1) \<le> n"
    proof -
      have "cand k1 (insert t F) qs1 = filter (\<lambda>x. x \<notin> insert t F \<and> t_running (timers k1 x)) hs" unfolding cand_def by (rule f1) simp
      also have "\<dots> = filter (\<lambda>x. x \<notin> F \<and> t_running (timers k x)) hs" by (rule filter_cong [OF refl]) (use t0(2) sel(1) in auto)
      finally show ?thesis using Suc.prems(3) r tF qs by (simp add: cand_def)
    qed
    moreover have "\<forall>x\<in>insert t F. t_running (timers k1 x) \<longrightarrow> T + d \<le> td k1 x - uint (s_u32TimerPrecision k1)"
    proof -
      have "T + d \<le> td k1 t - uint (s_u32TimerPrecision k)" if "t_running (timers k1 t)"
        using that sel(1,2) [of t] P(4,6) by (auto simp: fired_timer_def split: if_splits)
      then show ?thesis using Suc.prems(4) sel(1,2) p by (auto simp: td_def)
    qed
    ultimately obtain k' w qs' W where IH: "deal_loop H (hd0 qs1 0) k1 = Some (k', w)" "dealt T d (insert t F) k1 qs1 k' qs' W" "wait_ok T d k' qs' w"
      using Suc.IH [OF k1(2)] by blast
    have "filter (\<lambda>x. x \<notin> insert t F) qs1 = filter (\<lambda>x. x \<notin> F) hs"
      using f1 [of "\<lambda>x. x \<notin> insert t F"] t0(2) by (auto intro: filter_cong)
    then have "dealt T d F k (t # hs) k' qs' (t # W)" using dealt_Cons [OF tF t0(2) r ex P(4,5) fr k1(5) s1 _ k1(6) IH(2)] by blast
    then show ?thesis using loop IH(1,3) qs by auto
  qed
qed

section \<open>Operations under the mutex\<close>

text \<open>The caller may run and the mutex of the timers is free.\<close>

definition timer_ctx :: "'a tkernel_scheme \<Rightarrow> nat list \<Rightarrow> nat list \<Rightarrow> (qhead \<Rightarrow> nat list) \<Rightarrow> nat \<Rightarrow> nat \<Rightarrow> bool" where
  "timer_ctx k R D S idle m \<longleftrightarrow> calling k R D S idle \<and> ptTimerQSync k = Some m \<and> enable (mutexes k m) = 0 \<and> owner (mutexes k m) = None \<and>
     DJY_IsMultiEventStarted k \<and> S (MutexSync m) = []"

lemma calling_tframe:
  assumes "calling k R D S idle" "tframe k k'"
  shows "calling k' R D S idle" "mutexes k' = mutexes k" "DJY_IsMultiEventStarted k' = DJY_IsMultiEventStarted k"
proof -
  obtain ts h l r a m where k': "k' = tkernel.more_update (\<lambda>_. m) (k\<lparr>timers := ts, ptTimerHead := h, ptTimerTail := l, readings := r, alarms := a\<rparr>)"
    using assms(2) unfolding tframe_def by blast
  have "kinv k' R D S" by (rule kinv_cong [OF callingD(1) [OF assms(1)]]) (simp_all add: k' fld_def)
  then show "calling k' R D S idle" using assms(1) by (auto simp: k' calling_def fld_def DJY_QuerySch_def)
  show "mutexes k' = mutexes k" "DJY_IsMultiEventStarted k' = DJY_IsMultiEventStarted k" by (simp_all add: k' DJY_IsMultiEventStarted_def)
qed

lemma hard_ctrl [simp]:
  "timers (HardTimer_Ctrl h c k) = timers k" "readings (HardTimer_Ctrl h c k) = readings k" "mutexes (HardTimer_Ctrl h c k) = mutexes k"
  "ptTimerQSync (HardTimer_Ctrl h c k) = ptTimerQSync k" "sgHardTimerDefault (HardTimer_Ctrl h c k) = sgHardTimerDefault k"
  "s_u32TimerPrecision (HardTimer_Ctrl h c k) = s_u32TimerPrecision k" "s_tHardTimerChip (HardTimer_Ctrl h c k) = s_tHardTimerChip k"
  "DJY_IsMultiEventStarted (HardTimer_Ctrl h c k) = DJY_IsMultiEventStarted k" "alarms (HardTimer_Ctrl h c k) = alarms k"
  "timer_inv (HardTimer_Ctrl h c k) ts = timer_inv k ts" "upd_mutex m f (HardTimer_Ctrl h c k) = HardTimer_Ctrl h c (upd_mutex m f k)"
  by (simp_all add: HardTimer_Ctrl_def DJY_IsMultiEventStarted_def upd_mutex_def)

lemma hard_calling [simp]: "calling k R D S idle \<Longrightarrow> calling (HardTimer_Ctrl h c k) R D S idle"
proof -
  assume c: "calling k R D S idle"
  have "kinv (k\<lparr>hard_ops := x\<rparr>) R D S" for x by (rule kinv_cong [OF callingD(1) [OF c]]) (simp_all add: fld_def)
  then have "calling (k\<lparr>hard_ops := x\<rparr>) R D S idle" for x using c by (auto simp: calling_def fld_def DJY_QuerySch_def)
  then show ?thesis using c by (simp add: HardTimer_Ctrl_def)
qed

lemma mutex_upd_timers [simp]:
  "timers (upd_mutex m f k) = timers k" "ptTimerHead (upd_mutex m f k) = ptTimerHead k" "ptTimerTail (upd_mutex m f k) = ptTimerTail k"
  "readings (upd_mutex m f k) = readings k" "alarms (upd_mutex m f k) = alarms k" "hard_ops (upd_mutex m f k) = hard_ops k"
  "ptTimerQSync (upd_mutex m f k) = ptTimerQSync k" "sgHardTimerDefault (upd_mutex m f k) = sgHardTimerDefault k"
  "s_u32TimerPrecision (upd_mutex m f k) = s_u32TimerPrecision k" "s_tHardTimerChip (upd_mutex m f k) = s_tHardTimerChip k"
  "timer_inv (upd_mutex m f k) ts = timer_inv k ts" "tq (upd_mutex m f k) ts = tq k ts"
  by (simp_all add: upd_mutex_def timer_inv_def td_def [abs_def] tq_def tn_def [abs_def] tp_def [abs_def])

text \<open>The commands with which an operation starts the hardware again.\<close>

definition restart_cmds :: "u32 \<Rightarrow> u32 \<Rightarrow> (u32 \<times> hard_cmd) list" where
  "restart_cmds h w = (if w \<noteq> CN_TIMEOUT_FOREVER then [(h, EN_TIMER_SETCYCLE w), (h, EN_TIMER_STARTCOUNT)] else [])"

lemma timer_locked_rep:
  assumes ctx: "timer_ctx k R D S idle m"
  defines "k1 \<equiv> HardTimer_Ctrl (sgHardTimerDefault k) EN_TIMER_PAUSECOUNT (upd_mutex m (\<lambda>x. x\<lparr>enable := 1, owner := Some (hd R)\<rparr>) k)"
  assumes g: "tframe k1 k2" "timer_inv k2 qs" "deal_pre H T d (length qs) k2 qs" "f k1 = do { k \<leftarrow> deal_and_post E H k2; Some (k, r) }"
  shows "\<exists>k' k3 qs' W w. timer_locked E no f k = Some (k', Ret r) \<and> timer_ctx k' R D S idle m \<and>
    dealt T d {} k2 qs k3 qs' W \<and> wait_ok T d k3 qs' w \<and> timer_inv k' qs' \<and> timers k' = timers k3 \<and> alarms k' = alarms k3 \<and>
    hard_ops k' = hard_ops k @ (if s_tHardTimerChip k then (sgHardTimerDefault k, EN_TIMER_PAUSECOUNT) # restart_cmds (sgHardTimerDefault k) w else [])"
proof -
  have C: "calling k R D S idle" "ptTimerQSync k = Some m" "enable (mutexes k m) = 0" "owner (mutexes k m) = None" "DJY_IsMultiEventStarted k" "S (MutexSync m) = []"
    using ctx by (simp_all add: timer_ctx_def)
  have h: "ptTimerHead k2 = hd0 qs 0" using g(2) by (simp add: timer_inv_def tq_def)
  have "length (cand k2 {} qs) \<le> length qs" by (simp add: cand_def)
  then obtain k3 w qs' W where k3: "Timer_DealTimeout H k2 = Some (k3, w)" "dealt T d {} k2 qs k3 qs' W" "wait_ok T d k3 qs' w"
    using deal_loop_rep [OF g(2,3), of "{}"] h by (auto simp: Timer_DealTimeout_def)
  have fr: "tframe k1 k3" using tframe_trans [OF g(1)] k3(2) by (simp add: dealt_def)
  note F = tframeD [OF fr] calling_tframe [OF _ fr]
  have c1: "calling k1 R D S idle" using C(1) by (simp add: k1_def)
  let ?k4 = "if w \<noteq> CN_TIMEOUT_FOREVER then HardTimer_Ctrl (sgHardTimerDefault k) EN_TIMER_STARTCOUNT (HardTimer_Ctrl (sgHardTimerDefault k) (EN_TIMER_SETCYCLE w) k3) else k3"
  let ?k5 = "upd_mutex m (\<lambda>x. x\<lparr>enable := 0, owner := None\<rparr>) ?k4"
  have m1: "mutexes k1 m = (mutexes k m)\<lparr>enable := 1, owner := Some (hd R)\<rparr>" by (simp add: k1_def upd_mutex_def)
  have c4: "calling ?k4 R D S idle" "mutexes ?k4 = mutexes k1" "DJY_IsMultiEventStarted ?k4" "ptTimerQSync ?k4 = Some m"
    using F(5,9-11) c1 C(2,5) by (auto simp: k1_def)
  have post: "Lock_MutexPost E (Some m) ?k4 = Some ?k5" by (rule MutexPost_now [OF c4(1)]) (use c4 m1 C(6) in simp_all)
  have "timer_locked E no f k = Some (?k5, Ret r)"
  proof -
    have "deal_and_post E H k2 = Some ?k5" using k3(1) post c4(4) F(4) by (auto simp: deal_and_post_def Let_def k1_def split: if_splits)
    then have "f k1 = Some (?k5, r)" using g(4) by simp
    then show ?thesis using MutexPend_now [OF C(1,3-5), of E CN_TIMEOUT_FOREVER] C(2) by (simp add: timer_locked_def k1_def)
  qed
  moreover have "timer_ctx ?k5 R D S idle m"
    using c4 C(6) by (simp add: timer_ctx_def)
  moreover have "hard_ops ?k5 = hard_ops k @ (if s_tHardTimerChip k then (sgHardTimerDefault k, EN_TIMER_PAUSECOUNT) # restart_cmds (sgHardTimerDefault k) w else [])"
    using F(2,3) by (auto simp: HardTimer_Ctrl_def restart_cmds_def k1_def)
  moreover have "timer_inv ?k5 qs'" "timers ?k5 = timers k3" "alarms ?k5 = alarms k3" using k3(2) by (simp_all add: dealt_def)
  ultimately show ?thesis using k3(2,3) by blast
qed

text \<open>The effect of \<open>Timer_Ctrl\<close> on the timer, at the time \<open>now\<close>.\<close>

definition ctrl_timer :: "u32 \<Rightarrow> u32 \<Rightarrow> int \<Rightarrow> tagTimer \<Rightarrow> tagTimer" where
  "ctrl_timer opcode para now t =
     (if opcode = EN_TIMER_SOFT_START then
        if t_running t then t else t\<lparr>t_stat := t_stat t OR CN_TIMER_ENCOUNT, t_deadline := now + uint (t_cycle t)\<rparr>
      else if opcode = EN_TIMER_SOFT_STOP then
        if t_running t then t\<lparr>t_stat := t_stat t AND NOT CN_TIMER_ENCOUNT, t_deadline := CN_TIMER_ALARMNEVER\<rparr> else t
      else if opcode = EN_TIMER_SOFT_SETCYCLE then
        if t_running t then t\<lparr>t_cycle := para, t_deadline := now + uint para\<rparr> else t\<lparr>t_cycle := para\<rparr>
      else if opcode = EN_TIMER_SOFT_SETRELOAD then
        t\<lparr>t_stat := if para \<noteq> 0 then t_stat t OR CN_TIMER_RELOAD else t_stat t AND NOT CN_TIMER_RELOAD\<rparr>
      else t)"

lemma stat_bits [simp]:
  "(s OR CN_TIMER_ENCOUNT) AND CN_TIMER_ENCOUNT \<noteq> 0" "(s OR CN_TIMER_RELOAD) AND CN_TIMER_ENCOUNT = s AND CN_TIMER_ENCOUNT"
  "(s AND NOT CN_TIMER_RELOAD) AND CN_TIMER_ENCOUNT = s AND CN_TIMER_ENCOUNT"
proof -
  have "CN_TIMER_RELOAD AND CN_TIMER_ENCOUNT = 0" "NOT CN_TIMER_RELOAD AND CN_TIMER_ENCOUNT = CN_TIMER_ENCOUNT" "CN_TIMER_ENCOUNT \<noteq> 0"
    by (simp_all add: CN_TIMER_RELOAD_def CN_TIMER_ENCOUNT_def)
  then show "(s OR CN_TIMER_ENCOUNT) AND CN_TIMER_ENCOUNT \<noteq> 0" "(s OR CN_TIMER_RELOAD) AND CN_TIMER_ENCOUNT = s AND CN_TIMER_ENCOUNT"
    "(s AND NOT CN_TIMER_RELOAD) AND CN_TIMER_ENCOUNT = s AND CN_TIMER_ENCOUNT"
    by (simp_all add: and.assoc bit.conj_disj_distrib2)
qed

lemma sorted_map_remove: "sorted (map f (as @ t # bs)) \<Longrightarrow> sorted (map f (as @ bs))"
  by (auto simp: sorted_append)

text \<open>A timer gets new data and a new place.\<close>

lemma move_timer:
  assumes inv: "timer_inv k qs" and t: "t \<in> set qs" and f: "\<And>x. t_pre (f x) = t_pre x \<and> t_nxt (f x) = t_nxt x"
    and d: "t_deadline (f (timers k t)) \<le> CN_TIMER_ALARMNEVER"
      "t_running (f (timers k t)) \<longleftrightarrow> t_deadline (f (timers k t)) \<noteq> CN_TIMER_ALARMNEVER"
    and m: "\<And>k' ts. tq k' ts \<Longrightarrow> sorted (map (td k') ts) \<Longrightarrow> t \<notin> set ts \<Longrightarrow> (\<And>x. x \<in> set ts \<Longrightarrow> td k' x \<le> CN_TIMER_ALARMNEVER) \<Longrightarrow>
        td k' t = t_deadline (f (timers k t)) \<Longrightarrow>
        \<exists>k2 ts2. m k' = Some k2 \<and> tq k2 ts2 \<and> sorted (map (td k') ts2) \<and> set ts2 = insert t (set ts) \<and> links k' k2"
  shows "\<exists>k1 k2 qs2. Timer_Remove t (upd_timer t f k) = Some k1 \<and> m k1 = Some k2 \<and> timer_inv k2 qs2 \<and> set qs2 = set qs \<and> tframe k k2 \<and>
     alarms k2 = alarms k \<and> readings k2 = readings k \<and>
     (\<forall>x. t_data (timers k2 x) = t_data (if x = t then f (timers k t) else timers k x))"
proof -
  obtain as bs where qs: "qs = as @ t # bs" using t by (auto simp: in_set_conv_decomp)
  have q: "tq k (as @ t # bs)" "sorted (map (td k) (as @ t # bs))" using inv qs by (simp_all add: timer_inv_def)
  let ?k = "upd_timer t f k"
  obtain k1 where k1: "Timer_Remove t ?k = Some k1" "tq k1 (as @ bs)" "links ?k k1" using tq_remove [OF tq_data [OF f q(1)]] by blast
  have td: "td k1 x = (if x = t then t_deadline (f (timers k t)) else td k x)" for x using linksD(3) [OF k1(3), of x] by (simp add: td_def upd_timer_sel)
  have tn: "t \<notin> set (as @ bs)" using q(1) by (simp add: tq_def)
  then have "map (td k1) (as @ bs) = map (td k) (as @ bs)" by (intro map_cong [OF refl]) (auto simp: td)
  then have "sorted (map (td k1) (as @ bs))" using sorted_map_remove [OF q(2)] by (simp only:)
  moreover have "td k1 x \<le> CN_TIMER_ALARMNEVER" if "x \<in> set (as @ bs)" for x using that tn inv qs by (auto simp: td timer_inv_def)
  ultimately obtain k2 ts2 where k2: "m k1 = Some k2" "tq k2 ts2" "sorted (map (td k1) ts2)" "set ts2 = insert t (set (as @ bs))" "links k1 k2"
    using m [OF k1(2) _ tn] td [of t] by auto
  have dat: "t_data (timers k2 x) = t_data (if x = t then f (timers k t) else timers k x)" for x
    using linksD(1) [OF k2(5), of x] linksD(1) [OF k1(3), of x] by (simp add: upd_timer_sel)
  have td2: "td k2 = td k1" using linksD(3) [OF k2(5)] by auto
  have s2: "set ts2 = set qs" using k2(4) qs by auto
  have "t_stat (timers k2 t) = t_stat (f (timers k t))" using t_data_sel(1) [OF dat [of t]] by simp
  then have "timer_inv k2 ts2" using d td [of t] td2 k2(2,3) s2 dat
    by (intro timer_inv_cong [OF _ _ _ _ inv, of _ _ t]) simp_all
  moreover have "tframe k k2"
    by (rule tframe_trans [OF tframe_intros(3) tframe_trans [OF tframe_intros(2) [OF k1(3)] tframe_intros(2) [OF k2(5)]]])
  moreover have "alarms k2 = alarms k" "readings k2 = readings k" using k1(3) k2(5) by (auto simp: links_def upd_timer_def)
  ultimately show ?thesis using k1(1) k2(1) s2 dat by blast
qed

lemma move_sorted:
  assumes "timer_inv k qs" "t \<in> set qs" "\<And>x. t_pre (f x) = t_pre x \<and> t_nxt (f x) = t_nxt x"
    "t_deadline (f (timers k t)) < CN_TIMER_ALARMNEVER" "t_running (f (timers k t))"
  shows "\<exists>k1 k2 qs2. Timer_Remove t (upd_timer t f k) = Some k1 \<and> Timer_Add t k1 = Some k2 \<and> timer_inv k2 qs2 \<and> set qs2 = set qs \<and> tframe k k2 \<and>
     alarms k2 = alarms k \<and> readings k2 = readings k \<and>
     (\<forall>x. t_data (timers k2 x) = t_data (if x = t then f (timers k t) else timers k x))"
proof (rule move_timer [OF assms(1-3)])
  show "\<exists>k2 ts2. Timer_Add t k' = Some k2 \<and> tq k2 ts2 \<and> sorted (map (td k') ts2) \<and> set ts2 = insert t (set ts) \<and> links k' k2"
    if th: "tq k' ts" "sorted (map (td k') ts)" "t \<notin> set ts" for k' ts
  proof -
    have "t \<noteq> 0" using assms(1,2) by (auto simp: timer_inv_def tq_def)
    then obtain k2 where "Timer_Add t k' = Some k2" "tq k2 (walk_insert (\<lambda>x. td k' x < td k' t) t ts)" "links k' k2"
      using tq_add [OF th(1) _ th(3)] by blast
    then show ?thesis using sorted_walk_insert_strict [OF th(2), of t] by (intro exI conjI) (assumption | simp)+
  qed
qed (use assms(4,5) in auto)

lemma move_last:
  assumes "timer_inv k qs" "t \<in> set qs" "\<And>x. t_pre (f x) = t_pre x \<and> t_nxt (f x) = t_nxt x"
    "t_deadline (f (timers k t)) = CN_TIMER_ALARMNEVER" "\<not> t_running (f (timers k t))"
  shows "\<exists>k1 k2 qs2. Timer_Remove t (upd_timer t f k) = Some k1 \<and> Timer_AddLast t k1 = Some k2 \<and> timer_inv k2 qs2 \<and> set qs2 = set qs \<and> tframe k k2 \<and>
     alarms k2 = alarms k \<and> readings k2 = readings k \<and>
     (\<forall>x. t_data (timers k2 x) = t_data (if x = t then f (timers k t) else timers k x))"
proof (rule move_timer [OF assms(1-3)])
  show "\<exists>k2 ts2. Timer_AddLast t k' = Some k2 \<and> tq k2 ts2 \<and> sorted (map (td k') ts2) \<and> set ts2 = insert t (set ts) \<and> links k' k2"
    if th: "tq k' ts" "sorted (map (td k') ts)" "t \<notin> set ts" "\<And>x. x \<in> set ts \<Longrightarrow> td k' x \<le> CN_TIMER_ALARMNEVER"
      "td k' t = t_deadline (f (timers k t))" for k' ts
  proof -
    have "t \<noteq> 0" using assms(1,2) by (auto simp: timer_inv_def tq_def)
    moreover have "sorted (map (td k') (ts @ [t]))" using th assms(4) by (simp add: sorted_append)
    moreover obtain k2 where "Timer_AddLast t k' = Some k2" "tq k2 (ts @ [t])" "links k' k2"
      using tq_add_last [OF th(1) \<open>t \<noteq> 0\<close> th(3)] by blast
    ultimately show ?thesis by (intro exI conjI) (assumption | simp)+
  qed
qed (use assms(4,5) in auto)

lemma stay_timer:
  assumes inv: "timer_inv k qs" and f: "\<And>x. t_pre (f x) = t_pre x \<and> t_nxt (f x) = t_nxt x" "t_deadline (f (timers k t)) = td k t"
    "t_stat (f (timers k t)) AND CN_TIMER_ENCOUNT = t_stat (timers k t) AND CN_TIMER_ENCOUNT"
  shows "timer_inv (upd_timer t f k) qs"
proof -
  have "td (upd_timer t f k) = td k" using f(2) by (auto simp: td_def upd_timer_sel)
  then show ?thesis using inv f tq_data [OF f(1)] by (auto simp: timer_inv_def upd_timer_sel)
qed

lemma upd_timer_twice: "upd_timer t g ((upd_timer t f k)\<lparr>readings := r\<rparr>) = upd_timer t (\<lambda>x. g (f x)) (k\<lparr>readings := r\<rparr>)"
  by (simp add: upd_timer_def)

lemma upd_timer_readings [simp]: "readings (upd_timer t f k) = readings k" "CN_TIMER_ENCOUNT \<noteq> 0"
  by (simp_all add: upd_timer_def CN_TIMER_ENCOUNT_def)

lemma ctrl_switch_rep:
  assumes inv: "timer_inv k qs" and t: "t \<in> set qs" and now: "te_time H (readings k) < 2 ^ 62"
  shows "\<exists>k2 qs2. ctrl_switch H t opcode para k = Some (k2, opcode < 4) \<and> timer_inv k2 qs2 \<and> set qs2 = set qs \<and> tframe k k2 \<and>
     alarms k2 = alarms k \<and> (readings k2 = readings k \<or> readings k2 = Suc (readings k)) \<and>
     (\<forall>x. t_data (timers k2 x) = t_data (if x = t then ctrl_timer opcode para (te_time H (readings k)) (timers k t) else timers k x))"
proof -
  let ?now = "te_time H (readings k)" and ?k = "k\<lparr>readings := Suc (readings k)\<rparr>"
  note ops = EN_TIMER_SOFT_START_def EN_TIMER_SOFT_STOP_def EN_TIMER_SOFT_SETCYCLE_def EN_TIMER_SOFT_SETRELOAD_def
  have inv': "timer_inv ?k qs" using inv by simp
  have early: "?now + uint c < CN_TIMER_ALARMNEVER" for c :: u32
    using now uint_lt2p [of c] by (simp add: CN_TIMER_ALARMNEVER_def)
  have quiet: "\<exists>k2 qs2. ctrl_switch H t opcode para k = Some (k2, opcode < 4) \<and> timer_inv k2 qs2 \<and> set qs2 = set qs \<and> tframe k k2 \<and>
     alarms k2 = alarms k \<and> (readings k2 = readings k \<or> readings k2 = Suc (readings k)) \<and>
     (\<forall>x. t_data (timers k2 x) = t_data (if x = t then ctrl_timer opcode para ?now (timers k t) else timers k x))"
    if th: "ctrl_switch H t opcode para k = Some (upd_timer t f k, opcode < 4)" "timer_inv (upd_timer t f k) qs" "f (timers k t) = ctrl_timer opcode para ?now (timers k t)" for f
    using th tframe_intros(3) [of k t f] by (intro exI [of _ "upd_timer t f k"] exI [of _ qs]) (simp add: upd_timer_sel, simp add: upd_timer_def)
  have same: "upd_timer t (\<lambda>x. x) k = k" by (simp add: upd_timer_def)
  have move: "\<exists>k2 qs2. ctrl_switch H t opcode para k = Some (k2, opcode < 4) \<and> timer_inv k2 qs2 \<and> set qs2 = set qs \<and> tframe k k2 \<and>
     alarms k2 = alarms k \<and> (readings k2 = readings k \<or> readings k2 = Suc (readings k)) \<and>
     (\<forall>x. t_data (timers k2 x) = t_data (if x = t then ctrl_timer opcode para ?now (timers k t) else timers k x))"
    if th: "ctrl_switch H t opcode para k = do { k1 \<leftarrow> Timer_Remove t (upd_timer t f ?k); k2 \<leftarrow> Timer_Add t k1; Some (k2, True) }" "opcode < 4"
      "\<And>x. t_pre (f x) = t_pre x \<and> t_nxt (f x) = t_nxt x" "t_deadline (f (timers k t)) < CN_TIMER_ALARMNEVER" "t_running (f (timers k t))"
      "f (timers k t) = ctrl_timer opcode para ?now (timers k t)" for f
  proof -
    obtain k1 k2 qs2 where "Timer_Remove t (upd_timer t f ?k) = Some k1" "Timer_Add t k1 = Some k2" "timer_inv k2 qs2" "set qs2 = set qs" "tframe ?k k2"
        "alarms k2 = alarms k" "readings k2 = Suc (readings k)" "\<forall>x. t_data (timers k2 x) = t_data (if x = t then f (timers k t) else timers k x)"
      using move_sorted [OF inv' t th(3)] th(4,5) by auto
    then show ?thesis using th(1,2,6) tframe_trans [OF tframe_intros(4), of _ _ k2] by (intro exI [of _ k2] exI [of _ qs2]) simp
  qed
  consider "opcode = 0" | "opcode = 1" | "opcode = 2" | "opcode = 3" | "\<not> opcode < 4"
  proof -
    have "unat opcode = 0 \<or> unat opcode = 1 \<or> unat opcode = 2 \<or> unat opcode = 3 \<or> \<not> unat opcode < 4" by linarith
    then show ?thesis using that by (auto simp: word_unat_eq_iff word_less_nat_alt)
  qed
  then show ?thesis
  proof cases
    case 1
    let ?f = "\<lambda>x. x\<lparr>t_stat := t_stat x OR CN_TIMER_ENCOUNT, t_deadline := ?now + uint (t_cycle x)\<rparr>"
    show ?thesis
    proof (cases "t_running (timers k t)")
      case True
      then show ?thesis by (intro quiet [of "\<lambda>x. x"]) (use 1 inv same in \<open>simp_all add: ctrl_switch_def ctrl_timer_def ops\<close>)
    next
      case False
      show ?thesis
        by (rule move [of ?f]) (use 1 False early in \<open>simp_all add: ctrl_switch_def ctrl_timer_def ops Timer_Get64Time_def Let_def upd_timer_twice\<close>)
    qed
  next
    case 2
    let ?f = "\<lambda>x. x\<lparr>t_stat := t_stat x AND NOT CN_TIMER_ENCOUNT, t_deadline := CN_TIMER_ALARMNEVER\<rparr>"
    show ?thesis
    proof (cases "t_running (timers k t)")
      case True
      obtain k1 k2 qs2 where k2: "Timer_Remove t (upd_timer t ?f k) = Some k1" "Timer_AddLast t k1 = Some k2" "timer_inv k2 qs2" "set qs2 = set qs" "tframe k k2"
          "alarms k2 = alarms k" "readings k2 = readings k" "\<forall>x. t_data (timers k2 x) = t_data (if x = t then ?f (timers k t) else timers k x)"
        using move_last [OF inv t, of ?f] by auto
      have "ctrl_timer opcode para ?now (timers k t) = ?f (timers k t)" using 2 True by (simp add: ctrl_timer_def ops)
      then show ?thesis using k2 2 True by (intro exI [of _ k2] exI [of _ qs2]) (simp add: ctrl_switch_def ops)
    next
      case False
      then show ?thesis by (intro quiet [of "\<lambda>x. x"]) (use 2 inv same in \<open>simp_all add: ctrl_switch_def ctrl_timer_def ops\<close>)
    qed
  next
    case 3
    show ?thesis
    proof (cases "t_running (timers k t)")
      case True
      let ?f = "\<lambda>x. x\<lparr>t_cycle := para, t_deadline := ?now + uint para\<rparr>"
      show ?thesis
        by (rule move [of ?f]) (use 3 True early in \<open>simp_all add: ctrl_switch_def ctrl_timer_def ops Timer_Get64Time_def Let_def upd_timer_twice upd_timer_sel\<close>)
    next
      case False
      show ?thesis
        by (rule quiet [of "\<lambda>x. x\<lparr>t_cycle := para\<rparr>"])
          (use 3 False stay_timer [OF inv, of "\<lambda>x. x\<lparr>t_cycle := para\<rparr>" t] in \<open>simp_all add: ctrl_switch_def ctrl_timer_def ops upd_timer_sel td_def\<close>)
    qed
  next
    case 4
    let ?f = "\<lambda>x. x\<lparr>t_stat := if para \<noteq> 0 then t_stat x OR CN_TIMER_RELOAD else t_stat x AND NOT CN_TIMER_RELOAD\<rparr>"
    have "timer_inv (upd_timer t ?f k) qs" by (rule stay_timer [OF inv]) (simp_all add: td_def)
    then show ?thesis by (intro quiet [of ?f]) (use 4 in \<open>auto simp: ctrl_switch_def ctrl_timer_def ops\<close>)
  next
    case 5
    then have "opcode \<noteq> 0" "opcode \<noteq> 1" "opcode \<noteq> 2" "opcode \<noteq> 3" by auto
    then show ?thesis using 5 by (intro quiet [of "\<lambda>x. x"]) (use inv same in \<open>simp_all add: ctrl_switch_def ctrl_timer_def ops\<close>)
  qed
qed

lemma wait_ok_cong:
  assumes "timers k' = timers k" "s_u32TimerPrecision k' = s_u32TimerPrecision k"
  shows "wait_ok T d k' qs w = wait_ok T d k qs w"
proof -
  have "td k' = td k" using assms(1) by (simp add: td_def [abs_def])
  then show ?thesis using assms by (simp only: wait_ok_def)
qed

text \<open>The environment of the operations.\<close>

definition timer_clock :: "'a tkernel_scheme timer_env \<Rightarrow> int \<Rightarrow> int \<Rightarrow> 'a tkernel_scheme \<Rightarrow> u32 list \<Rightarrow> bool" where
  "timer_clock H T d k qs \<longleftrightarrow> quiet_handlers H \<and> 0 \<le> d \<and> T + d < 2 ^ 62 \<and>
     (\<forall>i. readings k \<le> i \<and> i \<le> readings k + length qs + 1 \<longrightarrow> T \<le> te_time H i \<and> te_time H i \<le> T + d) \<and>
     (\<forall>x\<in>set qs. uint (s_u32TimerPrecision k) + d \<le> uint (t_cycle (timers k x)))"

section \<open>The properties\<close>

text \<open>C35. The interrupt of the hardware timer.  All readings of the clock during the interrupt lie between \<open>T\<close> and \<open>T + d\<close> and every period is at least the precision plus \<open>d\<close>.  Then
  the interrupt returns; exactly the first timers of the queue fire, each once and in the order of their deadlines: those whose deadline is reached at \<open>T\<close>, and none
  whose deadline is not reached at \<open>T + d\<close>.  A timer with reload starts its next period, any other stops; the queue stays consistent; the handlers are called in this order; and the hardware is set to the time
  until the next deadline.\<close>

theorem Timer_ISR_fires:
  assumes inv: "timer_inv k qs" and pre: "deal_pre H T d (length qs) k qs" and chip: "s_tHardTimerChip k"
  shows "\<exists>k' qs' n w. Timer_ISR H k = Some k' \<and> timer_inv k' qs' \<and> set qs' = set qs \<and>
    (\<forall>t\<in>set (take n qs). t_running (timers k t) \<and> td k t - uint (s_u32TimerPrecision k) < T + d \<and>
       (\<exists>now. T \<le> now \<and> now \<le> T + d \<and> t_data (timers k' t) = t_data (fired_timer now (timers k t)))) \<and>
    (\<forall>t\<in>set (drop n qs). t_data (timers k' t) = t_data (timers k t) \<and> (t_running (timers k t) \<longrightarrow> T \<le> td k t - uint (s_u32TimerPrecision k))) \<and>
    alarms k' = alarms k @ filter (\<lambda>t. t_isr (timers k t) \<noteq> 0) (take n qs) \<and> wait_ok T d k' qs' w \<and>
    hard_ops k' = hard_ops k @ (let h = sgHardTimerDefault k in (h, EN_TIMER_PAUSECOUNT) #
      (if w = CN_TIMEOUT_FOREVER then [] else [(h, EN_TIMER_SETCYCLE (GetTclkCycle H w k)), (h, EN_TIMER_STARTCOUNT)]))"
proof -
  let ?h = "sgHardTimerDefault k"
  let ?k = "HardTimer_Ctrl ?h EN_TIMER_PAUSECOUNT k"
  have inv1: "timer_inv ?k qs" "deal_pre H T d (length qs) ?k qs" using inv pre by (simp_all add: deal_pre_def)
  have "ptTimerHead ?k = hd0 qs 0" using inv1(1) by (simp add: timer_inv_def tq_def)
  moreover have "length (cand ?k {} qs) \<le> length qs" by (simp add: cand_def)
  ultimately obtain k3 w qs' W where k3: "Timer_DealTimeout H ?k = Some (k3, w)" "dealt T d {} ?k qs k3 qs' W" "wait_ok T d k3 qs' w"
    using deal_loop_rep [OF inv1, of "{}"] by (auto simp: Timer_DealTimeout_def)
  note D = k3(2) [unfolded dealt_def]
  have fr: "tframe ?k k3" using D by blast
  note F = tframeD [OF fr]
  obtain n where n: "W = take n qs" using D by auto
  have dis: "distinct qs" using inv by (simp add: timer_inv_def tq_def)
  have drop: "t \<notin> set W \<and> t \<in> set qs" if "t \<in> set (drop n qs)" for t
    using that dis set_take_disj_set_drop_if_distinct [OF dis, of n n] in_set_dropD [OF that] n by auto
  let ?k' = "if w = CN_TIMEOUT_FOREVER then k3 else HardTimer_Ctrl ?h EN_TIMER_STARTCOUNT (HardTimer_Ctrl ?h (EN_TIMER_SETCYCLE (GetTclkCycle H w k)) k3)"
  have isr: "Timer_ISR H k = Some ?k'" using k3(1) F(4,7,8) by (simp add: Timer_ISR_def Let_def GetTclkCycle_def HardTimer_Ctrl_def)
  have td: "td ?k = td k" by (simp add: td_def [abs_def])
  have k': "timers ?k' = timers k3" "alarms ?k' = alarms k3" "timer_inv ?k' qs'" "s_u32TimerPrecision ?k' = s_u32TimerPrecision k3" using D by simp_all
  have "wait_ok T d ?k' qs' w" using k3(3) wait_ok_cong [OF k'(1,4)] by blast
  moreover have "hard_ops ?k' = hard_ops k @ (let h = ?h in (h, EN_TIMER_PAUSECOUNT) #
      (if w = CN_TIMEOUT_FOREVER then [] else [(h, EN_TIMER_SETCYCLE (GetTclkCycle H w k)), (h, EN_TIMER_STARTCOUNT)]))"
    using F(2,3) chip by (simp add: HardTimer_Ctrl_def Let_def)
  moreover have "t_data (timers k3 t) = t_data (timers k t) \<and> (t_running (timers k t) \<longrightarrow> T \<le> td k t - uint (s_u32TimerPrecision k))" if "t \<in> set (drop n qs)" for t
    using drop [OF that] D by (simp add: td)
  moreover have "t_running (timers k t) \<and> td k t - uint (s_u32TimerPrecision k) < T + d \<and>
       (\<exists>now. T \<le> now \<and> now \<le> T + d \<and> t_data (timers k3 t) = t_data (fired_timer now (timers k t)))" if "t \<in> set (take n qs)" for t
    using that n D by (simp add: td)
  moreover have "alarms k3 = alarms k @ filter (\<lambda>t. t_isr (timers k t) \<noteq> 0) (take n qs)" "set qs' = set qs" using D n by simp_all
  ultimately show ?thesis using isr k' by (intro exI [of _ ?k'] exI [of _ qs'] exI [of _ n] exI [of _ w]) simp
qed

text \<open>C36. \<open>Timer_Ctrl\<close> on a timer of the queue, called while the mutex is free: the operation returns whether it knows the command, changes this timer only, as the
  command says (\<open>ctrl_timer\<close>), moves it to the place of its new deadline, and then lets the due timers fire.  The queue stays consistent and the mutex is free again.  The hardware
  is set to the time until the next deadline in microseconds, without the conversion to its own clock.\<close>

theorem Timer_Ctrl_moves:
  fixes k :: "'a tkernel_scheme"
  assumes ctx: "timer_ctx k R D S idle m" and inv: "timer_inv k qs" and t: "t \<in> set qs" and chip: "s_tHardTimerChip k"
    and clk: "timer_clock H T d k qs" and new: "uint (s_u32TimerPrecision k) + d \<le> uint para \<or> opcode \<noteq> EN_TIMER_SOFT_SETCYCLE"
  shows "\<exists>k' (k2 :: 'a tkernel_scheme) k3 qs2 qs' W w now. Timer_Ctrl E H t opcode para k = Some (k', Ret (opcode < 4)) \<and> timer_ctx k' R D S idle m \<and> timer_inv k' qs' \<and> set qs' = set qs \<and>
    T \<le> now \<and> now \<le> T + d \<and> timer_inv k2 qs2 \<and> (\<forall>x. t_data (timers k2 x) = t_data (if x = t then ctrl_timer opcode para now (timers k t) else timers k x)) \<and>
    dealt T d {} k2 qs2 k3 qs' W \<and> timers k' = timers k3 \<and> wait_ok T d k3 qs' w \<and>
    hard_ops k' = hard_ops k @ (sgHardTimerDefault k, EN_TIMER_PAUSECOUNT) # restart_cmds (sgHardTimerDefault k) w"
proof -
  let ?k1 = "HardTimer_Ctrl (sgHardTimerDefault k) EN_TIMER_PAUSECOUNT (upd_mutex m (\<lambda>x. x\<lparr>enable := 1, owner := Some (hd R)\<rparr>) k)"
  let ?now = "te_time H (readings k)"
  have env: "quiet_handlers H" "0 \<le> d" "T + d < 2 ^ 62"
      "\<forall>i. readings k \<le> i \<and> i \<le> readings k + length qs + 1 \<longrightarrow> T \<le> te_time H i \<and> te_time H i \<le> T + d"
      "\<forall>x\<in>set qs. uint (s_u32TimerPrecision k) + d \<le> uint (t_cycle (timers k x))" using clk by (auto simp: timer_clock_def)
  have now: "T \<le> ?now" "?now \<le> T + d" "?now < 2 ^ 62" using env(3,4) by fastforce+
  obtain k2 qs2 where k2: "ctrl_switch H t opcode para ?k1 = Some (k2, opcode < 4)" "timer_inv k2 qs2" "set qs2 = set qs" "tframe ?k1 k2"
      "readings k2 = readings k \<or> readings k2 = Suc (readings k)"
      "\<forall>x. t_data (timers k2 x) = t_data (if x = t then ctrl_timer opcode para ?now (timers k t) else timers k x)"
    using ctrl_switch_rep [of ?k1 qs t H opcode para] inv t now(3) by auto
  have p: "s_u32TimerPrecision k2 = s_u32TimerPrecision k" using tframeD(1) [OF k2(4)] by simp
  have "distinct qs" "distinct qs2" using inv k2(2) by (simp_all add: timer_inv_def tq_def)
  then have len: "length qs2 = length qs" using k2(3) by (metis distinct_card)
  have cy: "uint (s_u32TimerPrecision k) + d \<le> uint (t_cycle (timers k2 x))" if "x \<in> set qs2" for x
  proof -
    have "t_cycle (timers k2 x) = t_cycle (if x = t then ctrl_timer opcode para ?now (timers k t) else timers k x)" using t_data_sel(3) [OF k2(6) [rule_format, of x]] .
    then show ?thesis using that k2(3) env(5) new by (auto simp: ctrl_timer_def)
  qed
  have dp: "deal_pre H T d (length qs2) k2 qs2" using env k2(5) len cy p by (auto simp: deal_pre_def)
  have co: "ctrl_owned E H t opcode para ?k1 = do { k \<leftarrow> deal_and_post E H k2; Some (k, opcode < 4) }" using k2(1) by (simp add: ctrl_owned_def)
  obtain k' k3 qs' W w where k': "timer_locked E False (ctrl_owned E H t opcode para) k = Some (k', Ret (opcode < 4))" "timer_ctx k' R D S idle m"
      "dealt T d {} k2 qs2 k3 qs' W" "wait_ok T d k3 qs' w" "timer_inv k' qs'" "timers k' = timers k3"
      "hard_ops k' = hard_ops k @ (if s_tHardTimerChip k then (sgHardTimerDefault k, EN_TIMER_PAUSECOUNT) # restart_cmds (sgHardTimerDefault k) w else [])"
    using timer_locked_rep [where f = "ctrl_owned E H t opcode para" and no = False, OF ctx k2(4,2) dp co] by blast
  have "t \<noteq> 0" using inv t by (auto simp: timer_inv_def tq_def)
  then have "Timer_Ctrl E H t opcode para k = Some (k', Ret (opcode < 4))" using k'(1) by (simp add: Timer_Ctrl_def)
  moreover have "set qs' = set qs" using k'(3) k2(3) by (simp add: dealt_def)
  moreover have "hard_ops k' = hard_ops k @ (sgHardTimerDefault k, EN_TIMER_PAUSECOUNT) # restart_cmds (sgHardTimerDefault k) w" using k'(7) chip by simp
  ultimately have "Timer_Ctrl E H t opcode para k = Some (k', Ret (opcode < 4)) \<and> set qs' = set qs \<and>
    hard_ops k' = hard_ops k @ (sgHardTimerDefault k, EN_TIMER_PAUSECOUNT) # restart_cmds (sgHardTimerDefault k) w" by blast
  note res = this k'(2-6) k2(2,6) now(1,2)
  show ?thesis using res by blast
qed

abbreviation owned :: "nat list \<Rightarrow> nat \<Rightarrow> 'a tkernel_scheme \<Rightarrow> 'a tkernel_scheme" where
  "owned R m k \<equiv> HardTimer_Ctrl (sgHardTimerDefault k) EN_TIMER_PAUSECOUNT (upd_mutex m (\<lambda>x. x\<lparr>enable := 1, owner := Some (hd R)\<rparr>) k)"

lemma owned_queue: "timer_inv k qs \<Longrightarrow> tq (owned R m k) qs" "td (owned R m k) = td k"
proof -
  show "td (owned R m k) = td k" by (simp add: td_def [abs_def])
  show "timer_inv k qs \<Longrightarrow> tq (owned R m k) qs" by (simp add: timer_inv_def HardTimer_Ctrl_def)
qed

lemma Timer_Create_s_rep:
  fixes k :: "'a tkernel_scheme" and name :: string and isr cycle :: u32
  assumes ctx: "timer_ctx k R D S idle m" and inv: "timer_inv k qs" and env: "timer_clock H T d k qs" "uint (s_u32TimerPrecision k) + d \<le> uint cycle"
    and t: "t \<noteq> 0" "t \<notin> set qs"
  defines "new \<equiv> (timers k t)\<lparr>t_name := name, t_cycle := cycle, t_isr := isr, t_deadline := CN_TIMER_ALARMNEVER, t_stat := CN_TIMER_RELOAD\<rparr>"
  shows "\<exists>k' (k2 :: 'a tkernel_scheme) k3 qs' W. Timer_Create_s E H t name cycle isr k = Some (k', Ret t) \<and> timer_ctx k' R D S idle m \<and> timer_inv k' qs' \<and>
    dealt T d {} k2 (qs @ [t]) k3 qs' W \<and> timers k' = timers k3 \<and> s_u32TimerPrecision k2 = s_u32TimerPrecision k \<and> (\<forall>x. t_data (timers k2 x) = t_data (if x = t then new else timers k x))"
proof -
  let ?f = "\<lambda>x. x\<lparr>t_name := name, t_cycle := cycle, t_isr := isr, t_deadline := CN_TIMER_ALARMNEVER, t_stat := CN_TIMER_RELOAD\<rparr>"
  let ?k1 = "owned R m k"
  have "tq (upd_timer t ?f ?k1) qs" by (rule tq_data [OF _ owned_queue(1) [OF inv]]) simp
  then obtain k2 where k2: "Timer_AddLast t (upd_timer t ?f ?k1) = Some k2" "tq k2 (qs @ [t])" "links (upd_timer t ?f ?k1) k2" using tq_add_last [OF _ t] by blast
  have dat: "t_data (timers k2 x) = t_data (if x = t then new else timers k x)" for x
    using linksD(1) [OF k2(3), of x] by (simp add: upd_timer_sel new_def)
  have fr: "tframe ?k1 k2" by (rule tframe_trans [OF tframe_intros(3) tframe_intros(2) [OF k2(3)]])
  have sel: "td k2 x = (if x = t then CN_TIMER_ALARMNEVER else td k x)" "t_stat (timers k2 x) = (if x = t then CN_TIMER_RELOAD else t_stat (timers k x))"
      "t_cycle (timers k2 x) = (if x = t then cycle else t_cycle (timers k x))" for x
    using t_data_sel [OF dat [of x]] by (auto simp: td_def new_def)
  have z: "CN_TIMER_RELOAD AND CN_TIMER_ENCOUNT = 0" by (simp add: CN_TIMER_RELOAD_def CN_TIMER_ENCOUNT_def)
  have "map (td k2) qs = map (td k) qs" using t(2) by (auto simp: sel(1))
  then have "sorted (map (td k2) qs)" using inv by (simp only: timer_inv_def)
  then have inv2: "timer_inv k2 (qs @ [t])" using inv k2(2) t(2) z by (auto simp: timer_inv_def sorted_append sel)
  have p: "s_u32TimerPrecision k2 = s_u32TimerPrecision k" "readings k2 = readings k"
    using tframeD(1) [OF fr] linksD(7) [OF k2(3)] by (simp_all add: upd_timer_def)
  have dp: "deal_pre H T d (length (qs @ [t])) k2 (qs @ [t])" using env p t(2) by (auto simp: deal_pre_def timer_clock_def sel(3))
  have co: "create_owned E H t name cycle isr ?k1 = do { k \<leftarrow> deal_and_post E H k2; Some (k, t) }" using k2(1) by (simp add: create_owned_def)
  obtain k' k3 qs' W where "timer_locked E 0 (create_owned E H t name cycle isr) k = Some (k', Ret t)" "timer_ctx k' R D S idle m"
      "dealt T d {} k2 (qs @ [t]) k3 qs' W" "timer_inv k' qs'" "timers k' = timers k3"
    using timer_locked_rep [where f = "create_owned E H t name cycle isr" and no = 0, OF ctx fr inv2 dp co] by blast
  then show ?thesis
    by - (rule exI [of _ k'], rule exI [of _ k2], rule exI [of _ k3], rule exI [of _ qs'], rule exI [of _ W], use t(1) dat p(1) in \<open>simp add: Timer_Create_s_def\<close>)
qed

lemma Timer_Delete_s_rep:
  fixes k :: "'a tkernel_scheme"
  assumes ctx: "timer_ctx k R D S idle m" and inv: "timer_inv k qs" and env: "timer_clock H T d k qs" and t: "t \<in> set qs"
  shows "\<exists>k' (k2 :: 'a tkernel_scheme) k3 qs' W. Timer_Delete_s E H t k = Some (k', Ret t) \<and> timer_ctx k' R D S idle m \<and> timer_inv k' qs' \<and>
    dealt T d {} k2 (remove1 t qs) k3 qs' W \<and> timers k' = timers k3 \<and> s_u32TimerPrecision k2 = s_u32TimerPrecision k \<and> (\<forall>x. t_data (timers k2 x) = t_data (timers k x))"
proof -
  let ?k1 = "owned R m k"
  obtain as bs where qs: "qs = as @ t # bs" using t by (auto simp: in_set_conv_decomp)
  have q: "tq ?k1 (as @ t # bs)" using owned_queue(1) [OF inv] qs by simp
  obtain k2 where k2: "Timer_Remove t ?k1 = Some k2" "tq k2 (as @ bs)" "links ?k1 k2" using tq_remove [OF q] by blast
  have t0: "t \<noteq> 0" "t \<notin> set as" using q by (auto simp: tq_def)
  then have r: "remove1 t qs = as @ bs" using qs by (simp add: remove1_append)
  have dat: "t_data (timers k2 x) = t_data (timers k x)" for x using linksD(1) [OF k2(3), of x] by simp
  have fr: "tframe ?k1 k2" by (rule tframe_intros(2) [OF k2(3)])
  have td: "td k2 = td k" using linksD(3) [OF k2(3)] by (auto simp: owned_queue(2))
  have st: "t_stat (timers k2 x) = t_stat (timers k x)" "t_cycle (timers k2 x) = t_cycle (timers k x)" for x using t_data_sel [OF dat [of x]] by auto
  have inv2: "timer_inv k2 (as @ bs)" using inv k2(2) qs by (auto simp: timer_inv_def sorted_append td st)
  have p: "s_u32TimerPrecision k2 = s_u32TimerPrecision k" "readings k2 = readings k" using linksD(6,7) [OF k2(3)] by simp_all
  have dp: "deal_pre H T d (length (as @ bs)) k2 (as @ bs)" using env p qs by (auto simp: deal_pre_def timer_clock_def st(2))
  have co: "delete_owned E H t ?k1 = do { k \<leftarrow> deal_and_post E H k2; Some (k, t) }" using k2(1) by (simp add: delete_owned_def)
  obtain k' k3 qs' W where "timer_locked E 0 (delete_owned E H t) k = Some (k', Ret t)" "timer_ctx k' R D S idle m"
      "dealt T d {} k2 (as @ bs) k3 qs' W" "timer_inv k' qs'" "timers k' = timers k3"
    using timer_locked_rep [where f = "delete_owned E H t" and no = 0, OF ctx fr inv2 dp co] by blast
  then show ?thesis
    by - (rule exI [of _ k'], rule exI [of _ k2], rule exI [of _ k3], rule exI [of _ qs'], rule exI [of _ W], use t0(1) dat r p(1) in \<open>simp add: Timer_Delete_s_def\<close>)
qed

text \<open>C37. Creation and deletion.  A new timer is stopped, reloads, and joins the queue; a deleted one leaves it.  In both cases the due timers fire, the queue
  stays consistent and the mutex is free again.  A null pointer is refused without effect.\<close>

theorem Timer_Create_Delete:
  fixes k :: "'a tkernel_scheme"
  assumes ctx: "timer_ctx k R D S idle m" and inv: "timer_inv k qs" and clk: "timer_clock H T d k qs" and c: "uint (s_u32TimerPrecision k) + d \<le> uint cycle"
  shows "(t \<noteq> 0 \<and> t \<notin> set qs \<longrightarrow> (\<exists>k' qs'. Timer_Create_s E H t name cycle isr k = Some (k', Ret t) \<and> timer_ctx k' R D S idle m \<and>
      timer_inv k' qs' \<and> set qs' = insert t (set qs) \<and> \<not> Timer_IsRunning t k' \<and> t_reload (timers k' t) \<and> t_cycle (timers k' t) = cycle \<and> t_isr (timers k' t) = isr \<and>
      Timer_GetName t k' = Some name \<and> (\<forall>x. x \<noteq> t \<and> t_data (timers k' x) \<noteq> t_data (timers k x) \<longrightarrow>
        t_running (timers k x) \<and> td k x - uint (s_u32TimerPrecision k) < T + d))) \<and>
    (t \<in> set qs \<longrightarrow> (\<exists>k' qs'. Timer_Delete_s E H t k = Some (k', Ret t) \<and> timer_ctx k' R D S idle m \<and> timer_inv k' qs' \<and>
      set qs' = set qs - {t} \<and> (\<forall>x. t_data (timers k' x) \<noteq> t_data (timers k x) \<longrightarrow> x \<noteq> t \<and> t_running (timers k x) \<and> td k x - uint (s_u32TimerPrecision k) < T + d))) \<and>
    Timer_Create_s E H 0 name cycle isr k = Some (k, Ret 0) \<and> Timer_Delete_s E H 0 k = Some (k, Ret 0)"
proof -
  have due: "t_running (timers k x) \<and> td k x - uint (s_u32TimerPrecision k) < T + d"
    if D: "dealt T d {} k2 ts k3 qs' W" and x: "t_data (timers k3 x) \<noteq> t_data (timers k x)" and s: "t_data (timers k2 x) = t_data (timers k x)" "s_u32TimerPrecision k2 = s_u32TimerPrecision k"
    for k2 k3 :: "'a tkernel_scheme" and ts qs' W x
  proof -
    have "x \<in> set W" using D x s unfolding dealt_def by metis
    then have "t_running (timers k2 x) \<and> td k2 x - uint (s_u32TimerPrecision k2) < T + d" using D by (simp add: dealt_def)
    then show ?thesis using t_data_sel [OF s(1)] s(2) by (simp add: td_def)
  qed
  have create: "\<exists>k' qs'. Timer_Create_s E H t name cycle isr k = Some (k', Ret t) \<and> timer_ctx k' R D S idle m \<and>
      timer_inv k' qs' \<and> set qs' = insert t (set qs) \<and> \<not> Timer_IsRunning t k' \<and> t_reload (timers k' t) \<and> t_cycle (timers k' t) = cycle \<and> t_isr (timers k' t) = isr \<and>
      Timer_GetName t k' = Some name \<and> (\<forall>x. x \<noteq> t \<and> t_data (timers k' x) \<noteq> t_data (timers k x) \<longrightarrow>
        t_running (timers k x) \<and> td k x - uint (s_u32TimerPrecision k) < T + d)" if t: "t \<noteq> 0" "t \<notin> set qs"
  proof -
    let ?new = "(timers k t)\<lparr>t_name := name, t_cycle := cycle, t_isr := isr, t_deadline := CN_TIMER_ALARMNEVER, t_stat := CN_TIMER_RELOAD\<rparr>"
    obtain k' k3 qs' W and k2 :: "'a tkernel_scheme" where k: "Timer_Create_s E H t name cycle isr k = Some (k', Ret t)" "timer_ctx k' R D S idle m" "timer_inv k' qs'"
        "dealt T d {} k2 (qs @ [t]) k3 qs' W" "timers k' = timers k3" "s_u32TimerPrecision k2 = s_u32TimerPrecision k"
        "\<forall>x. t_data (timers k2 x) = t_data (if x = t then ?new else timers k x)"
      using Timer_Create_s_rep [OF ctx inv clk c t] by blast
    have z: "CN_TIMER_RELOAD AND CN_TIMER_ENCOUNT = 0" "CN_TIMER_RELOAD \<noteq> 0" by (simp_all add: CN_TIMER_RELOAD_def CN_TIMER_ENCOUNT_def)
    have "t_stat (timers k2 t) = CN_TIMER_RELOAD" using t_data_sel(1) [OF k(7) [rule_format, of t]] by simp
    then have "t \<notin> set W" using k(4) z(1) by (auto simp: dealt_def)
    then have "t_data (timers k' t) = t_data ?new" using k(4,5,7) by (simp add: dealt_def)
    then have "\<not> Timer_IsRunning t k'" "t_reload (timers k' t)" "t_cycle (timers k' t) = cycle" "t_isr (timers k' t) = isr" "Timer_GetName t k' = Some name"
      using z t(1) by (auto simp: t_data_eq Timer_IsRunning_def Timer_GetName_def)
    moreover have "set qs' = insert t (set qs)" using k(4) by (simp add: dealt_def)
    moreover have "t_running (timers k x) \<and> td k x - uint (s_u32TimerPrecision k) < T + d" if "x \<noteq> t" "t_data (timers k' x) \<noteq> t_data (timers k x)" for x
      using due [OF k(4) _ _ k(6), of x] that k(5,7) by simp
    ultimately show ?thesis using k(1-3) by blast
  qed
  have delete: "\<exists>k' qs'. Timer_Delete_s E H t k = Some (k', Ret t) \<and> timer_ctx k' R D S idle m \<and> timer_inv k' qs' \<and>
      set qs' = set qs - {t} \<and> (\<forall>x. t_data (timers k' x) \<noteq> t_data (timers k x) \<longrightarrow> x \<noteq> t \<and> t_running (timers k x) \<and> td k x - uint (s_u32TimerPrecision k) < T + d)" if t: "t \<in> set qs"
  proof -
    obtain k' k3 qs' W and k2 :: "'a tkernel_scheme" where k: "Timer_Delete_s E H t k = Some (k', Ret t)" "timer_ctx k' R D S idle m" "timer_inv k' qs'"
        "dealt T d {} k2 (remove1 t qs) k3 qs' W" "timers k' = timers k3" "s_u32TimerPrecision k2 = s_u32TimerPrecision k"
        "\<forall>x. t_data (timers k2 x) = t_data (timers k x)"
      using Timer_Delete_s_rep [OF ctx inv clk t] by blast
    have "distinct qs" using inv by (simp add: timer_inv_def tq_def)
    then have "set qs' = set qs - {t}" "t \<notin> set W" using k(4) by (auto simp: dealt_def dest: in_set_takeD)
    moreover have "x \<noteq> t \<and> t_running (timers k x) \<and> td k x - uint (s_u32TimerPrecision k) < T + d" if "t_data (timers k' x) \<noteq> t_data (timers k x)" for x
      using due [OF k(4) _ _ k(6), of x] that k(4,5,7) \<open>t \<notin> set W\<close> by (auto simp: dealt_def)
    ultimately show ?thesis using k(1-3) by blast
  qed
  show ?thesis using create delete by (auto simp: Timer_Create_s_def Timer_Delete_s_def)
qed

text \<open>A timer whose period is shorter than the precision fires again as soon as it is queued: \<open>__Timer_DealTimeout\<close> does not return.\<close>

definition too_fast :: "'a tkernel_scheme timer_env \<Rightarrow> u32 \<Rightarrow> 'a tkernel_scheme \<Rightarrow> bool" where
  "too_fast H t k \<longleftrightarrow> timer_inv k [t] \<and> t_running (timers k t) \<and> t_reload (timers k t) \<and> uint (t_cycle (timers k t)) < uint (s_u32TimerPrecision k) \<and>
     td k t - uint (s_u32TimerPrecision k) < te_time H (readings k)"

lemma too_fast_step:
  assumes "too_fast H t k" "quiet_handlers H" "\<And>i. te_time H i \<le> te_time H (Suc i)" "\<And>i. te_time H i < 2 ^ 62"
  shows "\<exists>k'. timer_fire H t (te_time H (readings k)) (k\<lparr>readings := Suc (readings k)\<rparr>) = Some k' \<and> ptTimerHead k' = t \<and> too_fast H t k'"
proof -
  let ?k = "k\<lparr>readings := Suc (readings k)\<rparr>" and ?now = "te_time H (readings k)"
  have t: "timer_inv ?k [t]" "t_running (timers ?k t)" "t_reload (timers k t)" "uint (t_cycle (timers k t)) < uint (s_u32TimerPrecision k)" using assms(1) by (simp_all add: too_fast_def)
  have "uint (t_cycle (timers k t)) < 2 ^ 32" using uint_lt2p [of "t_cycle (timers k t)"] by simp
  then have c: "?now + uint (t_cycle (timers ?k t)) < CN_TIMER_ALARMNEVER" using assms(4) [of "readings k"] by (simp add: CN_TIMER_ALARMNEVER_def)
  obtain k' where k': "timer_fire H t ?now ?k = Some k'" "timer_inv k' [t]" "tframe ?k k'" "readings k' = Suc (readings k)"
      "t_data (timers k' t) = t_data (fired_timer ?now (timers k t))"
    using timer_fire_rep [OF t(1,2) c assms(2)] t(3) by (auto simp: walk_insert_def)
  have "ptTimerHead k' = t" using k'(2) by (simp add: timer_inv_def tq_def)
  moreover have "too_fast H t k'"
    using k'(2,4) t t_data_sel [OF k'(5)] tframeD(1) [OF k'(3)] assms(3) [of "readings k"] by (simp add: too_fast_def td_def fired_timer_def)
  ultimately show ?thesis using k'(1) by blast
qed

theorem Timer_DealTimeout_hangs:
  fixes k :: "'a tkernel_scheme"
  assumes "too_fast H t k" "quiet_handlers H" "\<And>i. te_time H i \<le> te_time H (Suc i)" "\<And>i. te_time H i < 2 ^ 62"
  shows "Timer_DealTimeout H k = None"
proof -
  let ?clock = "\<lambda>H. quiet_handlers H \<and> (\<forall>i. te_time H i \<le> te_time H (Suc i) \<and> te_time H i < 2 ^ 62)"
  have "?clock H' \<longrightarrow> \<not> too_fast H' t' k'" if "deal_loop H' t' k' = Some y" for H' :: "'a tkernel_scheme timer_env" and t' k' y
  proof (rule deal_loop.raw_induct [OF _ that, of "\<lambda>H t k y. ?clock H \<longrightarrow> \<not> too_fast H t k"], intro impI notI)
    fix dl :: "'a tkernel_scheme timer_env \<Rightarrow> u32 \<Rightarrow> 'a tkernel_scheme \<Rightarrow> ('a tkernel_scheme \<times> u32) option" and H' t' k' y
    assume IH: "\<And>H t k y. dl H t k = Some y \<Longrightarrow> ?clock H \<longrightarrow> \<not> too_fast H t k" and c: "?clock H'" and f: "too_fast H' t' k'"
      and body: "(if t' = 0 then Some (k', CN_TIMEOUT_FOREVER)
        else if t_running (timers k' t') then
          (let (k, timenow) = Timer_Get64Time H' k'
           in if Timer_ChkTimeout t' timenow k then do { k \<leftarrow> timer_fire H' t' timenow k; dl H' (ptTimerHead k) k }
              else Some (k, word_of_int (t_deadline (timers k t') - timenow)))
        else Some (k', CN_TIMEOUT_FOREVER)) = Some y"
    obtain k1 where k1: "timer_fire H' t' (te_time H' (readings k')) (k'\<lparr>readings := Suc (readings k')\<rparr>) = Some k1" "ptTimerHead k1 = t'" "too_fast H' t' k1"
      using too_fast_step [OF f] c by blast
    have "t' \<noteq> 0" "t_running (timers k' t')" "td k' t' - uint (s_u32TimerPrecision k') < te_time H' (readings k')"
      using f by (auto simp: too_fast_def timer_inv_def tq_def)
    then have "dl H' t' k1 = Some y" using body k1 by (simp add: Timer_Get64Time_def Timer_ChkTimeout_def td_def)
    then show False using IH c k1(3) by blast
  qed
  moreover have "ptTimerHead k = t" using assms(1) by (simp add: too_fast_def timer_inv_def tq_def)
  ultimately show ?thesis using assms by (cases "deal_loop H t k") (auto simp: Timer_DealTimeout_def)
qed

text \<open>A running timer 100 with the period \<open>c\<close>, due at time 1000, and, if \<open>two\<close>, a stopped timer 200, beside the sample state of the kernel; the clock stands at 2000.\<close>

definition sample_timer :: "u32 \<Rightarrow> tagTimer" where
  "sample_timer c = \<lparr>t_pre = 0, t_nxt = 0, t_name = [], t_cycle = c, t_isr = 7, t_stat = 18, TimerTag = 0, t_deadline = 1000\<rparr>"

definition sample_timers :: "bool \<Rightarrow> u32 \<Rightarrow> tkernel" where
  "sample_timers two c = busy_kernel \<lparr>semps = (\<lambda>_. \<lparr>sync_order = False, lamps_limit = 2, lamp_counter = 0, semp_name = []\<rparr>),
     mutexes = (\<lambda>_. \<lparr>enable = 0, owner = None, mutex_name = []\<rparr>), semp_list = [], mutex_list = [],
     pools = (\<lambda>_. \<lparr>continue_pool = 4096, free_list = 0, pool_offset = 4096, cell_size = 8, cell_increment = 0, cell_limit = 0, Name = [], next_inc_pool = 0\<rparr>),
     cell_next = (\<lambda>_. 0), cell_previous = (\<lambda>_. 0), inc_link = (\<lambda>_. 0), pool_nodes = \<lparr>dnext = (\<lambda>_. 0), dprev = (\<lambda>_. 0)\<rparr>, PoolHead = 0, PoolCtrl = 0,
     timers = (\<lambda>_. sample_timer c)(100 := (sample_timer c)\<lparr>t_nxt := if two then 200 else 0\<rparr>,
       200 := (sample_timer c)\<lparr>t_pre := 100, t_stat := 16, t_deadline := CN_TIMER_ALARMNEVER\<rparr>),
     ptTimerHead = 100, ptTimerTail = (if two then 200 else 100), s_u32TimerPrecision = 10, s_u32Precision2Tclk = 1, s_u32TimerFreq = 72, ptTimerMemPool = 0,
     ptTimerQSync = Some 5, sgHardTimerDefault = 1, s_tHardTimerChip = True, readings = 0, hard_ops = [], alarms = []\<rparr>"

definition sample_tenv :: "'k timer_env" where
  "sample_tenv = \<lparr>te_time = (\<lambda>_. 2000), te_isr = (\<lambda>_ _ k. k), te_scale = (\<lambda>x _. x), te_alloc = 1, te_freq = (\<lambda>_. 1000000)\<rparr>"

lemma sample_timers_sel:
  "timers (sample_timers two c) = (\<lambda>_. sample_timer c)(100 := (sample_timer c)\<lparr>t_nxt := if two then 200 else 0\<rparr>,
     200 := (sample_timer c)\<lparr>t_pre := 100, t_stat := 16, t_deadline := CN_TIMER_ALARMNEVER\<rparr>)"
  "ptTimerHead (sample_timers two c) = 100" "ptTimerTail (sample_timers two c) = (if two then 200 else 100)" "s_u32TimerPrecision (sample_timers two c) = 10"
  "readings (sample_timers two c) = 0" "s_tHardTimerChip (sample_timers two c)" "te_time sample_tenv i = 2000" "alarms (sample_timers two c) = []"
  by (simp_all add: sample_timers_def busy_kernel_def sample_tenv_def)

lemma sample_quiet: "quiet_handlers sample_tenv"
proof -
  have "te_isr sample_tenv i t k = tkernel.more_update (\<lambda>_. tkernel.more k) k" for i t and k :: "'a tkernel_scheme" by (simp add: sample_tenv_def)
  then show ?thesis unfolding quiet_handlers_def by blast
qed

lemma sample_timer_inv: "timer_inv (sample_timers True c) [100, 200]" "timer_inv (sample_timers False c) [100]"
  by (simp_all add: timer_inv_def tq_def last0_def td_def [abs_def] tn_def tp_def sample_timers_sel sample_timer_def CN_TIMER_ENCOUNT_def CN_TIMER_ALARMNEVER_def)

lemma sample_timer_ctx: "timer_ctx (sample_timers two c) [1, 0] [2, 3] busy_syncs 0 5"
proof -
  have "calling (sample_timers two c) [1, 0] [2, 3] busy_syncs 0" unfolding sample_timers_def by (rule busy_calling)
  then show ?thesis by (simp add: timer_ctx_def busy_syncs_def) (simp add: sample_timers_def busy_kernel_def DJY_IsMultiEventStarted_def)
qed

lemma sample_clock: "timer_clock sample_tenv 2000 0 (sample_timers True 5000) [100, 200]"
  using sample_quiet by (simp add: timer_clock_def sample_timers_sel sample_timer_def)

theorem Timer_ISR_fires_witness:
  "\<exists>k' qs'. Timer_ISR sample_tenv (sample_timers True 5000) = Some k' \<and> timer_inv k' qs' \<and> set qs' = {100, 200} \<and> 100 \<in> set (alarms k') \<and> td k' 100 = 7000"
proof -
  have pre: "deal_pre sample_tenv 2000 0 (length [100, 200]) (sample_timers True 5000) [100, 200]"
    using sample_quiet by (simp add: deal_pre_def sample_timers_sel sample_timer_def)
  let ?k = "sample_timers True 5000"
  have sel: "t_running (timers ?k 100)" "td ?k 100 = 1000" "t_isr (timers ?k 100) = 7" "uint (s_u32TimerPrecision ?k) = 10"
      "t_deadline (fired_timer now (timers ?k 100)) = now + 5000" for now
    by (simp_all add: sample_timers_sel sample_timer_def td_def fired_timer_def CN_TIMER_ENCOUNT_def CN_TIMER_RELOAD_def)
  from Timer_ISR_fires [OF sample_timer_inv(1) pre sample_timers_sel(6)] show ?thesis
  proof (elim exE conjE)
    fix k' qs' n
    assume k': "Timer_ISR sample_tenv ?k = Some k'" "timer_inv k' qs'" "set qs' = set [100, 200]"
      and fired: "\<forall>t\<in>set (take n [100, 200]). t_running (timers ?k t) \<and> td ?k t - uint (s_u32TimerPrecision ?k) < 2000 + 0 \<and>
         (\<exists>now. 2000 \<le> now \<and> now \<le> 2000 + 0 \<and> t_data (timers k' t) = t_data (fired_timer now (timers ?k t)))"
      and rest: "\<forall>t\<in>set (drop n [100, 200]). t_data (timers k' t) = t_data (timers ?k t) \<and> (t_running (timers ?k t) \<longrightarrow> 2000 \<le> td ?k t - uint (s_u32TimerPrecision ?k))"
      and al: "alarms k' = alarms ?k @ filter (\<lambda>t. t_isr (timers ?k t) \<noteq> 0) (take n [100, 200])"
    have "n \<noteq> 0" using rest sel(1,2,4) by (intro notI) simp
    then have hun: "100 \<in> set (take n [100, 200 :: u32])" by (cases n) simp_all
    then obtain now where "2000 \<le> now" "now \<le> 2000 + 0" "t_data (timers k' 100) = t_data (fired_timer now (timers ?k 100))" using fired by blast
    then have "td k' 100 = 7000" using t_data_sel(2) [of "timers k' 100"] sel(5) [of now] by (simp add: td_def)
    moreover have "100 \<in> set (alarms k')" using al hun sel(3) by simp
    ultimately show ?thesis using k' by auto
  qed
qed

theorem Timer_Ctrl_moves_witness:
  "\<exists>k' qs'. Timer_Ctrl sample_env sample_tenv 200 EN_TIMER_SOFT_START 0 (sample_timers True 5000) = Some (k', Ret True) \<and> timer_inv k' qs' \<and> set qs' = {100, 200}"
proof -
  have "200 \<in> set [100, 200 :: u32]" "EN_TIMER_SOFT_START < 4" "EN_TIMER_SOFT_START \<noteq> EN_TIMER_SOFT_SETCYCLE" by (simp_all add: EN_TIMER_SOFT_START_def EN_TIMER_SOFT_SETCYCLE_def)
  then show ?thesis
    using Timer_Ctrl_moves [OF sample_timer_ctx sample_timer_inv(1) _ sample_timers_sel(6) sample_clock, of 200 0 EN_TIMER_SOFT_START sample_env] by (auto simp only: list.set)
qed

theorem Timer_Create_Delete_witness:
  "\<exists>k' qs'. Timer_Create_s sample_env sample_tenv 300 ''t'' 6000 0 (sample_timers True 5000) = Some (k', Ret 300) \<and> timer_inv k' qs' \<and> set qs' = {100, 200, 300}"
proof -
  have "uint (s_u32TimerPrecision (sample_timers True 5000)) + 0 \<le> uint (6000 :: u32)" by (simp add: sample_timers_sel)
  from Timer_Create_Delete [OF sample_timer_ctx sample_timer_inv(1) sample_clock this, of 300 sample_env "''t''" 0]
  show ?thesis by (simp add: insert_commute) blast
qed

theorem Timer_DealTimeout_hangs_witness: "Timer_DealTimeout sample_tenv (sample_timers False 4) = None"
proof (rule Timer_DealTimeout_hangs [of _ 100])
  show "too_fast sample_tenv 100 (sample_timers False 4)"
    using sample_timer_inv(2) [of 4] by (simp add: too_fast_def sample_timers_sel sample_timer_def td_def CN_TIMER_ENCOUNT_def CN_TIMER_RELOAD_def)
qed (use sample_quiet in \<open>simp_all add: sample_timers_sel\<close>)

end
