(* ===== verification/Spec2Isabelle.thy ===== *)
theory Spec2Isabelle
  imports Djy_Final Djy_MsgQ Djy_Clock Djy_Pool Djy_IntLine Djy_System Djy_Utf8 Djy_Timer
begin

text \<open>
  A verification of the kernel of DJYOS, an operating system for embedded processors, and of the buffers and queues
  built on it.  The sources are under \<open>src/\<close>; every definition is a translation of the lines named beside it
  in the manifest.

  \<^bold>\<open>The program.\<close>  DJYOS schedules \<^emph>\<open>events\<close> instead of threads.  An event is popped (\<open>DJY_EventPop\<close>) as an instance
  of a registered event type; it waits in the ready queue, gets a thread (a stack) when it is its turn, runs the routine of its
  type, and is finished by \<open>__DJY_EventFinal\<close>.  All queues are circular doubly linked lists through the event control
  blocks: the ready queue (ordered by priority, with a second list through the first events of the priorities), the alarm queue
  (ordered by time), and a queue for each thing an event can wait for: a semaphore, a mutex, another event, a pop or a completion of
  an event type, memory.  An event that waits with a timeout is in two queues at once.  Every operation runs between
  \<open>Int_SaveAsynSignal\<close> and \<open>Int_RestoreAsynSignal\<close>; the outermost restore calls the scheduler.  Message
  queues are rings of slots guarded by two semaphores.

  \<^bold>\<open>The theories\<close>, in the order of import:
  \<^item> \<open>Djy_Prelude\<close>: circular lists as pointer functions (\<open>cdll\<close>), ordered insertion (\<open>walk_insert\<close>), the loop that searches the place
    (\<open>ring_walk\<close>), word types; the collections \<open>relink\<close> and \<open>knl_defs\<close>.
  \<^item> \<open>Djy_Kernel\<close>: the structures of \<open>djyos.h\<close> as records and the state of the kernel, the record \<open>kernel\<close>.
  \<^item> \<open>Djy_Ready\<close>: \<open>__DJY_EventReady\<close>, \<open>__DJY_CutReadyEvent\<close> (C1, C2).  The contract of a priority queue is the locale
    \<open>prio_queue\<close>, interpreted for the ready queue as \<open>rq\<close>.
  \<^item> \<open>Djy_Delay\<close>: the alarm queue, the waiting queues, the tick interrupt \<open>DJY_ScheduleIsr\<close> (C3), and the invariant \<open>kinv\<close> of all
    queues together.
  \<^item> \<open>Djy_Sched\<close>: choice of the next event, creation of its thread, context switch (C4); the asynchronous signal of
    \<open>int.c\<close> (C5).
  \<^item> \<open>Djy_Block\<close>: blocking, priority inheritance, changes of priority, delays, waiting for events (C6 to C9).
  \<^item> \<open>Djy_Lock\<close>: semaphores and mutexes of \<open>lock.c\<close>; the semaphore refines an abstract one, a pair of a number of lamps and a
    list of waiting events (C10 to C13).
  \<^item> \<open>Djy_Wake\<close>: lemmas for the loops that wake whole queues.
  \<^item> \<open>Djy_Evtt\<close>: registration and removal of event types, initialisation and start of the system (C15 to C17).
  \<^item> \<open>Djy_Event\<close>: pop and completion of events (C14, C18, C19).
  \<^item> \<open>Djy_Final\<close>: normal and abnormal end of an event (C20).
  \<^item> \<open>Djy_Ring\<close>: the ring and the linear buffer of \<open>component/buffer\<close> (C21 to C25).  Both implement a queue of bytes, the
    locale \<open>byte_fifo\<close>, interpreted as \<open>rb\<close> and \<open>lb\<close>.
  \<^item> \<open>Djy_MsgQ\<close>: the message queues of \<open>msgqueue.c\<close> (C26 to C28).

  \<^bold>\<open>State and effects.\<close>  An operation is a function from the state to the new state and its result.  Pointers to event control
  blocks are indices; the places that hold queue heads have names (\<open>qhead\<close>).  An outcome \<^const>\<open>None\<close> of an operation of type
  \<open>option\<close> means that the code does not return or accesses memory through a bad pointer; loops over linked lists are partial
  functions with that meaning, so a theorem that states an outcome \<^const>\<open>Some\<close> includes termination and memory safety.
  There is no fuel.  A call that gives up the processor ends with the switch; its value is \<^const>\<open>Blocked\<close>, and what the source does when the caller
  runs again is a definition with the suffix \<open>_resume\<close>.  Context switches and hook calls are observations in \<open>kout\<close>.
  Words of the source keep their width; \<open>s64\<close> times are integers.

  \<^bold>\<open>Hypotheses.\<close>  \<open>kinv k R D S\<close> is the representation invariant: \<open>R\<close>, \<open>D\<close> and \<open>S h\<close> are the contents of the ready, the alarm and
  the waiting queues.  \<open>calling\<close> adds that an event runs, that it is the first ready one and that scheduling is on, the situation
  in which a thread calls the kernel; \<open>InitSys_establishes\<close> shows that the start of the system gets there.  \<open>settled k R k' R' D\<close>
  is the effect of the scheduler on the queues: events for which there is no memory for a thread leave the ready queue, and
  nothing else changes.  The allocator of stacks is a parameter; \<open>stack_provider\<close> is what the kernel relies on, and the witnesses
  show an allocator that satisfies it.

  \<^bold>\<open>Not modelled.\<close>  The heap, the object tree and handles, the calendar, single interrupt lines, the tickless clock and low power modes, the idle routine \<open>__DJY_Service\<close>,
  the kernel shell, and the components that are mainly input and output (devices, file systems, network,
  graphics, shell, recorder), the board support packages, and vendored code.  Interrupts occur between operations only, as the code
  guarantees by disabling the asynchronous signal; the cycles between two instructions are not modelled.
\<close>

end
